(* ===== verification/DTLS_Prelude.thy ===== *)
theory DTLS_Prelude
  imports Main "HOL-Library.Word"
begin

text \<open>
  The base of the development: names for the machine types the Go sources use, the
  error values every component returns (\<^verbatim>\<open>src/errors.go\<close>, \<^verbatim>\<open>src/alert.go\<close>,
  \<^verbatim>\<open>src/protected_record.go\<close>), slices, \<^verbatim>\<open>copy\<close>, and the big-endian integer codecs
  with their round trips. Components share the lemmas collected in \<open>wire_simps\<close>.
\<close>

unbundle bit_operations_syntax

named_theorems wire_simps \<open>lengths and round trips of the byte codecs\<close>

type_synonym u8 = "8 word"
type_synonym u16 = "16 word"
type_synonym u32 = "32 word"
type_synonym u64 = "64 word"
type_synonym bytes = "u8 list"

section \<open>Errors\<close>

text \<open>
  One constructor per error type of the sources: \<open>ProtocolError\<close> and \<open>ConfigError\<close> carry
  their reason, \<open>ErrorString\<close> is \<^verbatim>\<open>errors.New\<close>, \<open>LocalAlert\<close> is \<^verbatim>\<open>localAlertError\<close>,
  \<open>AuthenticatedRecord\<close> is \<^verbatim>\<open>authenticatedRecordError\<close>, \<open>VectorOverflow\<close> is
  \<^verbatim>\<open>vectorOverflowError\<close>, \<open>PeerAlert\<close> is \<^verbatim>\<open>AlertError\<close>; the others are the sentinel
  errors of the standard library that \<^verbatim>\<open>outboundAlert\<close> recognises (\<open>NetOpError\<close> is a
  \<^verbatim>\<open>net.OpError\<close> around its cause). \<open>Panic\<close> is a Go panic, not an error value: a
  definition that ends in it has no return.
\<close>

datatype go_error =
    ProtocolError string
  | ConfigError string
  | ErrorString string
  | LocalAlert u8 go_error
  | AuthenticatedRecord u8 go_error
  | VectorOverflow nat go_error
  | PeerAlert u8
  | NetOpError go_error
  | EOF
  | ErrShortWrite
  | ErrClosed
  | ContextCanceled
  | DeadlineExceeded
  | Panic string

type_synonym 'a result = "go_error + 'a"

definition rbind :: "'a result \<Rightarrow> ('a \<Rightarrow> 'b result) \<Rightarrow> 'b result" where
  "rbind m f = (case m of Inl e \<Rightarrow> Inl e | Inr x \<Rightarrow> f x)"

lemma rbind_simps [simp]:
  "rbind (Inl e) f = Inl e"
  "rbind (Inr x) f = f x"
  by (simp_all add: rbind_def)

lemma rbind_eq_Inr [simp]:
  "rbind m f = Inr y \<longleftrightarrow> (\<exists>x. m = Inr x \<and> f x = Inr y)"
  by (cases m) auto

lemma rbind_assoc: "rbind (rbind m f) g = rbind m (\<lambda>x. rbind (f x) g)"
  by (cases m) auto

section \<open>Slices\<close>

definition slice :: "nat \<Rightarrow> nat \<Rightarrow> 'a list \<Rightarrow> 'a list" where
  "slice i j b = take (j - i) (drop i b)"

definition copy_at :: "nat \<Rightarrow> 'a list \<Rightarrow> 'a list \<Rightarrow> 'a list" where
  "copy_at off src dst =
     take off dst @ take (length dst - off) src @ drop (off + length src) dst"

lemma length_slice [simp]: "j \<le> length b \<Longrightarrow> length (slice i j b) = j - i"
  by (simp add: slice_def)

lemma slice_append_left: "j \<le> length xs \<Longrightarrow> slice i j (xs @ ys) = slice i j xs"
  by (simp add: slice_def)

lemma slice_append_right:
  "length xs \<le> i \<Longrightarrow> slice i j (xs @ ys) = slice (i - length xs) (j - length xs) ys"
  by (simp add: slice_def)

lemma slice_full: "slice 0 (length b) b = b"
  by (simp add: slice_def)

lemma length_copy_at [simp]: "off \<le> length dst \<Longrightarrow> length (copy_at off src dst) = length dst"
  by (auto simp: copy_at_def)

lemma copy_at_zeros:
  "length hdr = off \<Longrightarrow> length src = n \<Longrightarrow> copy_at off src (hdr @ replicate n z) = hdr @ src"
  by (simp add: copy_at_def)

lemma nth_copy_at:
  assumes "off + length src \<le> length dst" and "i < length dst"
  shows "copy_at off src dst ! i = (if off \<le> i \<and> i < off + length src then src ! (i - off) else dst ! i)"
  using assms by (auto simp: copy_at_def nth_append min_def)

section \<open>Big-endian integers\<close>

text \<open>
  The reference codec: \<open>be_bytes n v\<close> is the last \<open>n\<close> bytes of \<open>v\<close>, most significant
  first, and \<open>be_value\<close> reads such a list back.
\<close>

fun be_bytes :: "nat \<Rightarrow> 'a::len word \<Rightarrow> bytes" where
  "be_bytes 0 v = []"
| "be_bytes (Suc n) v = ucast (drop_bit (8 * n) v) # be_bytes n v"

definition be_value :: "bytes \<Rightarrow> 'a::len word" where
  "be_value bs = foldl (\<lambda>acc b. push_bit 8 acc OR ucast b) 0 bs"

lemma length_be_bytes [simp, wire_simps]: "length (be_bytes n v) = n"
  by (induction n) auto

lemma be_value_Nil [simp]: "be_value [] = 0"
  by (simp add: be_value_def)

lemma be_value_snoc: "be_value (bs @ [b]) = push_bit 8 (be_value bs) OR ucast b"
  by (simp add: be_value_def)

lemma foldl_be_bytes:
  "foldl (\<lambda>acc b. push_bit 8 acc OR ucast b) a (be_bytes n v)
     = push_bit (8 * n) a OR take_bit (8 * n) (v :: 'a::len word)"
proof (induction n arbitrary: a)
  case 0
  show ?case by simp
next
  case (Suc n)
  have "push_bit (8 * n) (push_bit 8 a OR ucast (ucast (drop_bit (8 * n) v) :: u8)) OR take_bit (8 * n) v
      = push_bit (8 * Suc n) a OR take_bit (8 * Suc n) v"
    by (rule bit_word_eqI) (auto simp: bit_simps not_less add.commute [of 8])
  with Suc.IH show ?case by simp
qed

lemma be_value_be_bytes: "be_value (be_bytes n v) = take_bit (8 * n) v"
  by (simp add: be_value_def foldl_be_bytes)

lemma be_value_be_bytes_id [wire_simps]:
  "LENGTH('a) \<le> 8 * n \<Longrightarrow> be_value (be_bytes n v) = (v :: 'a::len word)"
  by (simp add: be_value_be_bytes take_bit_word_eq_self)

lemma be_bytes_1: "be_bytes 1 v = [ucast v]"
  by simp

lemma be_bytes_app:
  "be_bytes (m + n) v = be_bytes m (drop_bit (8 * n) (v :: 'a::len word)) @ be_bytes n v"
  by (induction m) (simp_all add: add_mult_distrib2)

lemma bit_be_value_ge:
  "8 * length bs \<le> k \<Longrightarrow> \<not> bit (be_value bs :: 'a::len word) k"
proof (induction bs arbitrary: k rule: rev_induct)
  case Nil
  show ?case by simp
next
  case (snoc b bs)
  then show ?case
    by (auto simp: be_value_snoc bit_simps dest: bit_imp_le_length)
qed

lemma be_bytes_cong:
  "(\<And>k. k < 8 * n \<Longrightarrow> bit v k = bit (w :: 'a::len word) k) \<Longrightarrow> be_bytes n v = be_bytes n w"
proof (induction n)
  case 0
  show ?case by simp
next
  case (Suc n)
  have "(ucast (drop_bit (8 * n) v) :: u8) = ucast (drop_bit (8 * n) w)"
    using Suc.prems by (intro bit_word_eqI) (auto simp: bit_simps)
  with Suc show ?case by simp
qed

lemma be_bytes_be_value [wire_simps]:
  "length bs = n \<Longrightarrow> 8 * n \<le> LENGTH('a) \<Longrightarrow> be_bytes n (be_value bs :: 'a::len word) = bs"
proof (induction bs arbitrary: n rule: rev_induct)
  case Nil
  then show ?case by simp
next
  case (snoc b bs)
  obtain m where n: "n = m + 1" and m: "length bs = m"
    using snoc.prems(1) by simp
  let ?v = "push_bit 8 (be_value bs) OR ucast b :: 'a word"
  have m8: "8 * m + 8 \<le> LENGTH('a)" using snoc.prems n by simp
  have hi: "be_bytes m (drop_bit 8 ?v) = bs"
  proof -
    have "be_bytes m (drop_bit 8 ?v) = be_bytes m (be_value bs :: 'a word)"
      using m8 by (intro be_bytes_cong) (auto simp: bit_simps dest: bit_imp_le_length)
    then show ?thesis using snoc.IH m m8 by simp
  qed
  have "(ucast ?v :: u8) = b"
    using m8 by (intro bit_word_eqI) (auto simp: bit_simps)
  with hi show ?case
    by (simp only: n be_value_snoc be_bytes_app be_bytes_1 mult_1_right)
qed

text \<open>The widths the sources use, written as \<^verbatim>\<open>encoding/binary\<close> and the helpers write them.\<close>

definition putUint16 :: "u16 \<Rightarrow> bytes" where
  "putUint16 v = [ucast (drop_bit 8 v), ucast v]"

definition getUint16 :: "bytes \<Rightarrow> u16" where
  "getUint16 b = push_bit 8 (ucast (b ! 0)) OR ucast (b ! 1)"

definition putUint24 :: "u32 \<Rightarrow> bytes" where
  "putUint24 v = [ucast (drop_bit 16 v), ucast (drop_bit 8 v), ucast v]"

definition getUint24 :: "bytes \<Rightarrow> u32" where
  "getUint24 b = push_bit 16 (ucast (b ! 0)) OR push_bit 8 (ucast (b ! 1)) OR ucast (b ! 2)"

definition putUint32 :: "u32 \<Rightarrow> bytes" where
  "putUint32 v = [ucast (drop_bit 24 v), ucast (drop_bit 16 v), ucast (drop_bit 8 v), ucast v]"

definition getUint32 :: "bytes \<Rightarrow> u32" where
  "getUint32 b =
     push_bit 24 (ucast (b ! 0)) OR push_bit 16 (ucast (b ! 1)) OR push_bit 8 (ucast (b ! 2)) OR ucast (b ! 3)"

definition putUint48 :: "u64 \<Rightarrow> bytes" where
  "putUint48 v =
     [ucast (drop_bit 40 v), ucast (drop_bit 32 v), ucast (drop_bit 24 v),
      ucast (drop_bit 16 v), ucast (drop_bit 8 v), ucast v]"

definition getUint48 :: "bytes \<Rightarrow> u64" where
  "getUint48 b =
     push_bit 40 (ucast (b ! 0)) OR push_bit 32 (ucast (b ! 1)) OR push_bit 24 (ucast (b ! 2)) OR
     push_bit 16 (ucast (b ! 3)) OR push_bit 8 (ucast (b ! 4)) OR ucast (b ! 5)"

definition putUint64 :: "u64 \<Rightarrow> bytes" where
  "putUint64 v = be_bytes 8 v"

definition getUint64 :: "bytes \<Rightarrow> u64" where
  "getUint64 b = be_value (take 8 b)"

lemma putUint_be:
  "putUint16 v16 = be_bytes 2 v16"
  "putUint24 v32 = be_bytes 3 v32"
  "putUint32 v32 = be_bytes 4 v32"
  "putUint48 v64 = be_bytes 6 v64"
  by (simp_all add: putUint16_def putUint24_def putUint32_def putUint48_def numeral_eq_Suc)

lemma getUint16_be: "2 \<le> length b \<Longrightarrow> getUint16 b = be_value (take 2 b)"
  by (auto simp: getUint16_def be_value_def numeral_eq_Suc Suc_le_length_iff)

lemma getUint24_be: "3 \<le> length b \<Longrightarrow> getUint24 b = be_value (take 3 b)"
proof -
  assume "3 \<le> length b"
  then obtain x0 x1 x2 r where "b = x0 # x1 # x2 # r"
    by (auto simp: numeral_eq_Suc Suc_le_length_iff)
  then show ?thesis
    by (simp add: getUint24_def be_value_def push_bit_or or.assoc)
qed

lemma getUint32_be: "4 \<le> length b \<Longrightarrow> getUint32 b = be_value (take 4 b)"
proof -
  assume "4 \<le> length b"
  then obtain x0 x1 x2 x3 r where "b = x0 # x1 # x2 # x3 # r"
    by (auto simp: numeral_eq_Suc Suc_le_length_iff)
  then show ?thesis
    by (simp add: getUint32_def be_value_def push_bit_or or.assoc)
qed

lemma getUint48_be: "6 \<le> length b \<Longrightarrow> getUint48 b = be_value (take 6 b)"
proof -
  assume "6 \<le> length b"
  then obtain x0 x1 x2 x3 x4 x5 r where "b = x0 # x1 # x2 # x3 # x4 # x5 # r"
    by (auto simp: numeral_eq_Suc Suc_le_length_iff)
  then show ?thesis
    by (simp add: getUint48_def be_value_def push_bit_or or.assoc)
qed

lemma length_putUint [simp, wire_simps]:
  "length (putUint16 v16) = 2" "length (putUint24 v32) = 3" "length (putUint32 v32) = 4"
  "length (putUint48 v64) = 6" "length (putUint64 v64) = 8"
  by (simp_all add: putUint_be putUint64_def)

lemma take_bit_small: "v < 2 ^ n \<Longrightarrow> take_bit n v = (v :: 'a::len word)"
  by (simp add: take_bit_eq_mask less_mask_eq)

lemmas getUint_be = getUint16_be getUint24_be getUint32_be getUint48_be

lemma get_putUint [simp, wire_simps]:
  "getUint16 (putUint16 v16 @ r) = v16"
  "v24 < 2 ^ 24 \<Longrightarrow> getUint24 (putUint24 v24 @ r) = v24"
  "getUint32 (putUint32 v32 @ r) = v32"
  "v48 < 2 ^ 48 \<Longrightarrow> getUint48 (putUint48 v48 @ r) = v48"
  "getUint64 (putUint64 v64 @ r) = v64"
  by (simp_all add: getUint_be getUint64_def putUint_be putUint64_def be_value_be_bytes
      take_bit_small take_bit_word_eq_self)

lemmas get_putUint_Nil [simp, wire_simps] = get_putUint [where r = "[]", simplified]

lemma put_getUint [wire_simps]:
  "length b = 2 \<Longrightarrow> putUint16 (getUint16 b) = b"
  "length b = 3 \<Longrightarrow> putUint24 (getUint24 b) = b"
  "length b = 4 \<Longrightarrow> putUint32 (getUint32 b) = b"
  "length b = 6 \<Longrightarrow> putUint48 (getUint48 b) = b"
  "length b = 8 \<Longrightarrow> putUint64 (getUint64 b) = b"
  by (simp_all add: getUint_be getUint64_def putUint_be putUint64_def be_bytes_be_value)

lemma bit_be_value_lt: "bit (be_value bs :: 'a::len word) k \<Longrightarrow> k < 8 * length bs"
  using bit_be_value_ge not_le by blast

lemma be_value_less: "8 * length bs < LENGTH('a) \<Longrightarrow> be_value bs < (2 ^ (8 * length bs) :: 'a::len word)"
proof -
  assume l: "8 * length bs < LENGTH('a)"
  have "take_bit (8 * length bs) (be_value bs :: 'a word) = be_value bs"
    by (rule bit_word_eqI) (auto simp: bit_simps dest: bit_be_value_lt)
  then show ?thesis using l by (metis take_bit_eq_mask and_mask_less')
qed

lemma getUint24_less: "3 \<le> length b \<Longrightarrow> getUint24 b < 2 ^ 24"
  using be_value_less [of "take 3 b", where 'a = 32] by (simp add: getUint_be)

lemma getUint48_less: "6 \<le> length b \<Longrightarrow> getUint48 b < 2 ^ 48"
  using be_value_less [of "take 6 b", where 'a = 64] by (simp add: getUint_be)

lemma unat_of_nat_u16 [simp]: "n < 65536 \<Longrightarrow> unat (of_nat n :: u16) = n"
  by (simp add: unat_of_nat)

lemma unat_of_nat_u32: "n < 4294967296 \<Longrightarrow> unat (of_nat n :: u32) = n"
  by (simp add: unat_of_nat)

lemma unat_of_nat_u8 [simp]: "n < 256 \<Longrightarrow> unat (of_nat n :: u8) = n"
  by (simp add: unat_of_nat)

lemma and_single_bit_zero: "(x :: 'a::len word) AND push_bit n 1 = 0 \<longleftrightarrow> \<not> bit x n"
proof
  assume "x AND push_bit n 1 = 0"
  then have "\<not> bit (x AND push_bit n 1) n" by simp
  then show "\<not> bit x n" by (auto simp: bit_simps dest: bit_imp_le_length)
next
  assume "\<not> bit x n"
  then show "x AND push_bit n 1 = 0"
    by (intro bit_word_eqI) (auto simp: bit_simps)
qed

lemma and_exp_zero: "(x :: 'a::len word) AND 2 ^ n = 0 \<longleftrightarrow> \<not> bit x n"
  using and_single_bit_zero [of x n] by simp

end
