(* ===== verification/Codec_Interfaces.thy ===== *)
theory Codec_Interfaces
  imports DTLS_Prelude
begin

text \<open>
  The contracts the wire formats share. \<open>message_codec\<close> is an encoder with a decoder that
  reads its output back; \<open>canonical_codec\<close> adds that the decoder accepts nothing but
  encoder output; \<open>stream_codec\<close> is a self-delimiting format together with the loop that
  splits a buffer into consecutive items, as the plaintext record and the handshake
  fragment parsers do. Each wire format of the development interprets one of them.
\<close>

locale message_codec =
  fixes enc :: "'a \<Rightarrow> bytes result"
    and dec :: "bytes \<Rightarrow> 'a result"
    and valid :: "'a \<Rightarrow> bool"
  assumes enc_total: "valid x \<Longrightarrow> \<exists>b. enc x = Inr b"
    and dec_enc: "valid x \<Longrightarrow> enc x = Inr b \<Longrightarrow> dec b = Inr x"
begin

lemma roundtrip: "valid x \<Longrightarrow> rbind (enc x) dec = Inr x"
  using enc_total dec_enc by fastforce

lemma enc_injective: "valid x \<Longrightarrow> valid y \<Longrightarrow> enc x = enc y \<Longrightarrow> x = y"
  using enc_total dec_enc by (metis sum.inject(2))

end

locale canonical_codec = message_codec +
  assumes dec_sound: "dec b = Inr x \<Longrightarrow> valid x \<and> enc x = Inr b"
begin

lemma dec_iff: "dec b = Inr x \<longleftrightarrow> valid x \<and> enc x = Inr b"
  using dec_sound dec_enc by blast

lemma dec_injective: "dec b = Inr x \<Longrightarrow> dec c = Inr x \<Longrightarrow> b = c"
  using dec_sound by (metis sum.inject(2))

end

locale stream_codec =
  fixes enc :: "'a \<Rightarrow> bytes result"
    and dec_one :: "bytes \<Rightarrow> ('a \<times> nat) result"
    and dec_all :: "bytes \<Rightarrow> 'a list result"
    and valid :: "'a \<Rightarrow> bool"
  assumes stream_enc: "valid x \<Longrightarrow> \<exists>b. enc x = Inr b \<and> b \<noteq> []"
    and stream_one: "valid x \<Longrightarrow> enc x = Inr b \<Longrightarrow> dec_one (b @ rest) = Inr (x, length b)"
    and stream_one_sound: "dec_one b = Inr (x, n) \<Longrightarrow> valid x \<and> 0 < n \<and> n \<le> length b"
    and stream_Nil: "dec_all [] = Inr []"
    and stream_step: "b \<noteq> [] \<Longrightarrow>
      dec_all b = rbind (dec_one b) (\<lambda>(x, n). rbind (dec_all (drop n b)) (\<lambda>xs. Inr (x # xs)))"
begin

lemma stream_cons:
  assumes "valid x" and "enc x = Inr b" and "dec_all rest = Inr xs"
  shows "dec_all (b @ rest) = Inr (x # xs)"
proof -
  have "b \<noteq> []" using stream_enc assms(1,2) by force
  then show ?thesis
    using assms by (simp add: stream_step stream_one)
qed

lemma stream_roundtrip:
  "list_all2 (\<lambda>x b. valid x \<and> enc x = Inr b) xs bs \<Longrightarrow> dec_all (concat bs) = Inr xs"
  by (induction xs bs rule: list_all2_induct) (simp_all add: stream_Nil stream_cons)

lemma stream_sound: "dec_all b = Inr xs \<Longrightarrow> list_all valid xs"
proof (induction b arbitrary: xs rule: length_induct)
  case (1 b)
  show ?case
  proof (cases "b = []")
    case True
    with 1 show ?thesis by (simp add: stream_Nil)
  next
    case False
    with 1(2) obtain x n ys where one: "dec_one b = Inr (x, n)"
      and ys: "dec_all (drop n b) = Inr ys" and xs: "xs = x # ys"
      by (auto simp: stream_step)
    from stream_one_sound [OF one] have "valid x" "length (drop n b) < length b" by auto
    moreover from this 1(1) ys have "list_all valid ys" by blast
    ultimately show ?thesis using xs by simp
  qed
qed

end

locale canonical_stream_codec = stream_codec +
  assumes one_canonical: "dec_one b = Inr (x, n) \<Longrightarrow> enc x = Inr (take n b)"
begin

lemma stream_canonical:
  "dec_all b = Inr xs \<Longrightarrow> \<exists>bs. list_all2 (\<lambda>x c. valid x \<and> enc x = Inr c) xs bs \<and> b = concat bs"
proof (induction b arbitrary: xs rule: length_induct)
  case (1 b)
  show ?case
  proof (cases "b = []")
    case True
    with 1(2) show ?thesis by (auto simp: stream_Nil intro!: exI [of _ "[]"])
  next
    case False
    with 1(2) obtain x n ys where one: "dec_one b = Inr (x, n)"
      and ys: "dec_all (drop n b) = Inr ys" and xs: "xs = x # ys"
      by (auto simp: stream_step)
    from stream_one_sound [OF one] have v: "valid x" and "length (drop n b) < length b" by auto
    with 1(1) ys obtain bs where
      "list_all2 (\<lambda>x c. valid x \<and> enc x = Inr c) ys bs" "drop n b = concat bs" by blast
    with v one_canonical [OF one] xs
    have "list_all2 (\<lambda>x c. valid x \<and> enc x = Inr c) xs (take n b # bs)" "b = concat (take n b # bs)"
      by (simp_all add: append_take_drop_id flip: \<open>drop n b = concat bs\<close>)
    then show ?thesis by blast
  qed
qed

end

end
