(* ===== verification/Alert.thy ===== *)
theory Alert
  imports Codec_Interfaces
begin

text \<open>
  \<^verbatim>\<open>src/errors.go\<close> and \<^verbatim>\<open>src/alert.go\<close>: alert codes, the mapping from errors to the alert
  that is sent, the alert message codec, the order on record numbers, and the closure
  state that remembers the last \<^verbatim>\<open>close_notify\<close>.
\<close>

section \<open>Alert codes\<close>

abbreviation alertLevelWarning :: u8 where "alertLevelWarning \<equiv> 1"
abbreviation alertLevelFatal :: u8 where "alertLevelFatal \<equiv> 2"
abbreviation alertCloseNotify :: u8 where "alertCloseNotify \<equiv> 0"
abbreviation alertUnexpectedMessage :: u8 where "alertUnexpectedMessage \<equiv> 10"
abbreviation alertRecordOverflow :: u8 where "alertRecordOverflow \<equiv> 22"
abbreviation alertHandshakeFailure :: u8 where "alertHandshakeFailure \<equiv> 40"
abbreviation alertBadCertificate :: u8 where "alertBadCertificate \<equiv> 42"
abbreviation alertUnsupportedCertificate :: u8 where "alertUnsupportedCertificate \<equiv> 43"
abbreviation alertIllegalParameter :: u8 where "alertIllegalParameter \<equiv> 47"
abbreviation alertUnknownCA :: u8 where "alertUnknownCA \<equiv> 48"
abbreviation alertAccessDenied :: u8 where "alertAccessDenied \<equiv> 49"
abbreviation alertDecodeError :: u8 where "alertDecodeError \<equiv> 50"
abbreviation alertDecryptError :: u8 where "alertDecryptError \<equiv> 51"
abbreviation alertTooManyCIDsRequest :: u8 where "alertTooManyCIDsRequest \<equiv> 52"
abbreviation alertProtocolVersion :: u8 where "alertProtocolVersion \<equiv> 70"
abbreviation alertInternalError :: u8 where "alertInternalError \<equiv> 80"
abbreviation alertUserCanceled :: u8 where "alertUserCanceled \<equiv> 90"
abbreviation alertMissingExtension :: u8 where "alertMissingExtension \<equiv> 109"
abbreviation alertUnsupportedExtension :: u8 where "alertUnsupportedExtension \<equiv> 110"
abbreviation alertCertificateRequired :: u8 where "alertCertificateRequired \<equiv> 116"
abbreviation alertGeneralError :: u8 where "alertGeneralError \<equiv> 117"
abbreviation alertNoApplicationProtocol :: u8 where "alertNoApplicationProtocol \<equiv> 120"
abbreviation alertECHRequired :: u8 where "alertECHRequired \<equiv> 121"

section \<open>From errors to alerts\<close>

text \<open>
  \<open>errors_chain\<close> is the \<^verbatim>\<open>Unwrap\<close> chain of an error, the errors that \<^verbatim>\<open>errors.As\<close>,
  \<^verbatim>\<open>errors.AsType\<close> and \<^verbatim>\<open>errors.Is\<close> visit, in order.
\<close>

fun errors_chain :: "go_error \<Rightarrow> go_error list" where
  "errors_chain (LocalAlert d e) = LocalAlert d e # errors_chain e"
| "errors_chain (AuthenticatedRecord d e) = AuthenticatedRecord d e # errors_chain e"
| "errors_chain (VectorOverflow n e) = VectorOverflow n e # errors_chain e"
| "errors_chain (NetOpError e) = NetOpError e # errors_chain e"
| "errors_chain e = [e]"

fun localAlertOf :: "go_error \<Rightarrow> u8 option" where
  "localAlertOf (LocalAlert d e) = Some d"
| "localAlertOf e = None"

fun isProtocolError :: "go_error \<Rightarrow> bool" where
  "isProtocolError (ProtocolError r) = True"
| "isProtocolError e = False"

fun isNetworkError :: "go_error \<Rightarrow> bool" where
  "isNetworkError (NetOpError e) = True"
| "isNetworkError ErrClosed = True"
| "isNetworkError DeadlineExceeded = True"
| "isNetworkError e = False"

fun isPeerAlert :: "go_error \<Rightarrow> bool" where
  "isPeerAlert (PeerAlert d) = True"
| "isPeerAlert e = False"

definition alertError :: "u8 \<Rightarrow> go_error \<Rightarrow> go_error" where
  "alertError description err = LocalAlert description err"

definition protocolAlert :: "go_error \<Rightarrow> u8 option" where
  "protocolAlert err =
     (case List.map_filter localAlertOf (errors_chain err) of
        d # _ \<Rightarrow> Some d
      | [] \<Rightarrow> if list_ex isProtocolError (errors_chain err) then Some alertIllegalParameter else None)"

definition outboundAlert :: "go_error option \<Rightarrow> u8 option" where
  "outboundAlert err =
     (case err of
        None \<Rightarrow> None
      | Some e \<Rightarrow>
         (case protocolAlert e of
            Some d \<Rightarrow> Some d
          | None \<Rightarrow>
             (if list_ex isPeerAlert (errors_chain e) \<or> list_ex isNetworkError (errors_chain e) \<or>
                 EOF \<in> set (errors_chain e) \<or> ErrClosed \<in> set (errors_chain e) \<or>
                 ContextCanceled \<in> set (errors_chain e) \<or> DeadlineExceeded \<in> set (errors_chain e)
              then None else Some alertGeneralError)))"

section \<open>Alert messages\<close>

record alertMessage =
  am_level :: u8
  am_description :: u8

definition marshalAlert :: "alertMessage \<Rightarrow> bytes result" where
  "marshalAlert a =
     (if am_level a \<noteq> alertLevelWarning \<and> am_level a \<noteq> alertLevelFatal
      then Inl (ProtocolError ''invalid alert level'')
      else Inr [am_level a, am_description a])"

definition parseAlert :: "bytes \<Rightarrow> alertMessage result" where
  "parseAlert b =
     (if length b \<noteq> 2 then Inl (alertError alertDecodeError (ProtocolError ''invalid alert length''))
      else Inr \<lparr>am_level = b ! 0, am_description = b ! 1\<rparr>)"

definition isCloseNotify :: "alertMessage \<Rightarrow> bool" where
  "isCloseNotify a \<longleftrightarrow>
     (am_level a = alertLevelWarning \<or> am_level a = alertLevelFatal) \<and> am_description a = alertCloseNotify"

definition isUserCanceled :: "alertMessage \<Rightarrow> bool" where
  "isUserCanceled a \<longleftrightarrow>
     (am_level a = alertLevelWarning \<or> am_level a = alertLevelFatal) \<and> am_description a = alertUserCanceled"

section \<open>Record numbers and closure\<close>

datatype recordNumber = RecordNumber (rn_epoch: u64) (rn_sequence: u64)

definition recordNumberLess :: "recordNumber \<Rightarrow> recordNumber \<Rightarrow> bool" where
  "recordNumberLess a b \<longleftrightarrow>
     rn_epoch a < rn_epoch b \<or> (rn_epoch a = rn_epoch b \<and> rn_sequence a < rn_sequence b)"

lemma recordNumber_eq_iff: "a = b \<longleftrightarrow> rn_epoch a = rn_epoch b \<and> rn_sequence a = rn_sequence b"
  by (cases a; cases b) simp

text \<open>The order makes record numbers a linear order, so the library's facts on sorted lists apply.\<close>

instantiation recordNumber :: linorder
begin

definition less_recordNumber :: "recordNumber \<Rightarrow> recordNumber \<Rightarrow> bool" where
  "less_recordNumber a b \<longleftrightarrow> recordNumberLess a b"

definition less_eq_recordNumber :: "recordNumber \<Rightarrow> recordNumber \<Rightarrow> bool" where
  "less_eq_recordNumber a b \<longleftrightarrow> recordNumberLess a b \<or> a = b"

instance
  by standard
    (auto simp: less_recordNumber_def less_eq_recordNumber_def recordNumberLess_def recordNumber_eq_iff)

end

record closureState =
  cs_received :: bool
  cs_number :: recordNumber

definition newClosureState :: closureState where
  "newClosureState = \<lparr>cs_received = False, cs_number = RecordNumber 0 0\<rparr>"

definition closureReceive :: "closureState \<Rightarrow> recordNumber \<Rightarrow> closureState" where
  "closureReceive c number =
     (if \<not> cs_received c \<or> recordNumberLess (cs_number c) number
      then c\<lparr>cs_received := True, cs_number := number\<rparr> else c)"

definition closureIgnore :: "closureState \<Rightarrow> recordNumber \<Rightarrow> bool" where
  "closureIgnore c number \<longleftrightarrow> cs_received c \<and> recordNumberLess (cs_number c) number"

section \<open>Lemmas\<close>

interpretation alert_codec: message_codec marshalAlert parseAlert
  "\<lambda>a. am_level a = alertLevelWarning \<or> am_level a = alertLevelFatal"
  by unfold_locales (auto simp: marshalAlert_def parseAlert_def)

lemma protocolAlert_alertError [simp]: "protocolAlert (alertError d e) = Some d"
  by (simp add: protocolAlert_def alertError_def List.map_filter_def)

lemma protocolAlert_ProtocolError [simp]: "protocolAlert (ProtocolError r) = Some alertIllegalParameter"
  by (simp add: protocolAlert_def List.map_filter_def)

lemma closureReceive_received [simp]: "cs_received (closureReceive c n)"
  by (simp add: closureReceive_def)

lemma fold_closureReceive:
  "cs_received c \<Longrightarrow>
   cs_received (fold (\<lambda>n s. closureReceive s n) ns c) \<and>
   cs_number (fold (\<lambda>n s. closureReceive s n) ns c) = fold max ns (cs_number c)"
  by (induction ns arbitrary: c)
    (auto simp: closureReceive_def max_def less_eq_recordNumber_def simp flip: less_recordNumber_def)

lemma fold_max_less: "fold max ns (m :: 'a::linorder) < n \<longleftrightarrow> m < n \<and> (\<forall>k \<in> set ns. k < n)"
  by (induction ns arbitrary: m) auto

section \<open>Properties\<close>

lemma fold_closureReceive_Max:
  assumes "ns \<noteq> []"
  shows "cs_received (fold (\<lambda>n s. closureReceive s n) ns newClosureState)"
    and "cs_number (fold (\<lambda>n s. closureReceive s n) ns newClosureState) = Max (set ns)"
proof -
  obtain n ms where ns: "ns = n # ms" using assms by (cases ns) auto
  have "closureReceive newClosureState n = \<lparr>cs_received = True, cs_number = n\<rparr>"
    by (simp add: closureReceive_def newClosureState_def)
  moreover have "fold max ms n = Max (set ns)"
    unfolding ns by (simp only: Max.set_eq_fold)
  ultimately show "cs_received (fold (\<lambda>n s. closureReceive s n) ns newClosureState)"
    "cs_number (fold (\<lambda>n s. closureReceive s n) ns newClosureState) = Max (set ns)"
    using fold_closureReceive [of "\<lparr>cs_received = True, cs_number = n\<rparr>" ms] by (simp_all add: ns)
qed

text \<open>
  C27. Whatever the order in which close_notify alerts arrive, a record is ignored exactly when
  at least one close_notify was received and the record's number lies after the highest of them:
  data sent before the close is still delivered, data after it never is.
\<close>

theorem closure_ignores_exactly_later_records:
  "closureIgnore (fold (\<lambda>n s. closureReceive s n) ns newClosureState) number \<longleftrightarrow>
     ns \<noteq> [] \<and> recordNumberLess (Max (set ns)) number"
  using fold_closureReceive_Max [of ns]
  by (cases "ns = []") (simp_all add: closureIgnore_def, simp add: newClosureState_def)

end
