(* ===== verification/Plain_Record.thy ===== *)
theory Plain_Record
  imports Alert
begin

text \<open>
  \<^verbatim>\<open>src/record.go\<close>: the DTLSPlaintext record header, its encoder and the loop that splits
  a datagram into records. Payload copies and caller-provided destination slices change
  aliasing only, so the \<^verbatim>\<open>View\<close> and \<^verbatim>\<open>Into\<close> variants are one definition here.
\<close>

abbreviation recordTypeAlert :: u8 where "recordTypeAlert \<equiv> 21"
abbreviation recordTypeHandshake :: u8 where "recordTypeHandshake \<equiv> 22"
abbreviation recordTypeApplicationData :: u8 where "recordTypeApplicationData \<equiv> 23"
abbreviation recordTypeHeartbeat :: u8 where "recordTypeHeartbeat \<equiv> 24"
abbreviation recordTypeACK :: u8 where "recordTypeACK \<equiv> 26"
abbreviation recordTypeReturnRoutability :: u8 where "recordTypeReturnRoutability \<equiv> 27"
abbreviation dtlsLegacyVersion :: u16 where "dtlsLegacyVersion \<equiv> 0xfefd"
abbreviation plainRecordHeaderLen :: nat where "plainRecordHeaderLen \<equiv> 13"
abbreviation maxRecordContent :: nat where "maxRecordContent \<equiv> 16384"
abbreviation minRecordSizeLimit :: u16 where "minRecordSizeLimit \<equiv> 64"
abbreviation defaultRecordSizeLimit :: u16 where "defaultRecordSizeLimit \<equiv> 16385"

definition effectiveRecordSizeLimit :: "u16 \<Rightarrow> u16" where
  "effectiveRecordSizeLimit limit =
     (if limit < minRecordSizeLimit \<or> defaultRecordSizeLimit < limit then defaultRecordSizeLimit
      else limit)"

record plain_record =
  pr_typ :: u8
  pr_epoch :: u16
  pr_sequence :: u64
  pr_payload :: bytes

definition validPlainContentType :: "u8 \<Rightarrow> bool" where
  "validPlainContentType contentType \<longleftrightarrow>
     contentType = recordTypeAlert \<or> contentType = recordTypeHandshake \<or> contentType = recordTypeACK"

definition allocatePlainRecordWire :: "u8 \<Rightarrow> u16 \<Rightarrow> u64 \<Rightarrow> int \<Rightarrow> bytes result" where
  "allocatePlainRecordWire typ epoch sequence payloadLen =
     (if \<not> validPlainContentType typ then Inl (ProtocolError ''invalid DTLS 1.3 plaintext content type'')
      else if epoch \<noteq> 0 then Inl (ProtocolError ''DTLSPlaintext epoch must be zero'')
      else if 2 ^ 48 \<le> sequence then Inl (ProtocolError ''record sequence number exhausted'')
      else if payloadLen < 0 \<or> int maxRecordContent < payloadLen
        then Inl (ProtocolError ''record payload exceeds 2^14 bytes'')
      else Inr ([typ] @ putUint16 dtlsLegacyVersion @ putUint16 epoch @ putUint48 sequence @
                putUint16 (of_int payloadLen) @ replicate (nat payloadLen) 0))"

definition marshalPlainRecord :: "plain_record \<Rightarrow> bytes result" where
  "marshalPlainRecord r =
     rbind (allocatePlainRecordWire (pr_typ r) (pr_epoch r) (pr_sequence r) (int (length (pr_payload r))))
       (\<lambda>b. Inr (copy_at plainRecordHeaderLen (pr_payload r) b))"

definition parsePlainRecordView :: "bytes \<Rightarrow> (plain_record \<times> nat) result" where
  "parsePlainRecordView datagram =
     (if length datagram < plainRecordHeaderLen
        then Inl (alertError alertDecodeError (ProtocolError ''truncated record header''))
      else if \<not> validPlainContentType (datagram ! 0)
        then Inl (ProtocolError ''invalid DTLS 1.3 plaintext content type'')
      else let n = unat (getUint16 (slice 11 13 datagram)) in
        if maxRecordContent < n \<or> length datagram < plainRecordHeaderLen + n
          then Inl (alertError alertDecodeError (ProtocolError ''invalid record length''))
        else if getUint16 (slice 3 5 datagram) \<noteq> 0
          then Inl (ProtocolError ''DTLSPlaintext epoch must be zero'')
        else Inr (\<lparr>pr_typ = datagram ! 0, pr_epoch = 0, pr_sequence = getUint48 (slice 5 11 datagram),
                   pr_payload = slice plainRecordHeaderLen (plainRecordHeaderLen + n) datagram\<rparr>,
                  plainRecordHeaderLen + n))"

lemma parsePlainRecordView_consumed:
  "parsePlainRecordView d = Inr (r, n) \<Longrightarrow>
     n = plainRecordHeaderLen + length (pr_payload r) \<and> n \<le> length d"
  by (auto simp: parsePlainRecordView_def Let_def split: if_splits)

function parsePlainRecordsMode :: "bytes \<Rightarrow> plain_record list result" where
  "parsePlainRecordsMode datagram =
     (if datagram = [] then Inr []
      else case parsePlainRecordView datagram of
             Inl err \<Rightarrow> Inl err
           | Inr (r, consumed) \<Rightarrow>
               (case parsePlainRecordsMode (drop consumed datagram) of
                  Inl err \<Rightarrow> Inl err
                | Inr out \<Rightarrow> Inr (r # out)))"
  by pat_completeness auto
termination
  by (relation "measure length") (auto dest!: parsePlainRecordView_consumed)

declare parsePlainRecordsMode.simps [simp del]

section \<open>Lemmas\<close>

definition plain_record_ok :: "plain_record \<Rightarrow> bool" where
  "plain_record_ok r \<longleftrightarrow>
     validPlainContentType (pr_typ r) \<and> pr_epoch r = 0 \<and> pr_sequence r < 2 ^ 48 \<and>
     length (pr_payload r) \<le> maxRecordContent"

lemma marshalPlainRecord_ok:
  "plain_record_ok r \<Longrightarrow>
   marshalPlainRecord r =
     Inr ([pr_typ r] @ putUint16 dtlsLegacyVersion @ putUint16 0 @ putUint48 (pr_sequence r) @
          putUint16 (of_nat (length (pr_payload r))) @ pr_payload r)"
  by (simp add: marshalPlainRecord_def allocatePlainRecordWire_def plain_record_ok_def
      copy_at_def putUint16_def putUint48_def not_le)

lemma marshalPlainRecord_Inr: "marshalPlainRecord r = Inr b \<Longrightarrow> plain_record_ok r"
  by (auto simp: marshalPlainRecord_def allocatePlainRecordWire_def plain_record_ok_def split: if_splits)

lemma parsePlainRecordView_marshal:
  assumes "plain_record_ok r" and "marshalPlainRecord r = Inr b"
  shows "parsePlainRecordView (b @ rest) = Inr (r, length b)"
proof -
  let ?n = "length (pr_payload r)"
  let ?len = "putUint16 (of_nat ?n)"
  have b: "b = [pr_typ r] @ putUint16 dtlsLegacyVersion @ putUint16 0 @ putUint48 (pr_sequence r) @
             ?len @ pr_payload r"
    using assms by (simp add: marshalPlainRecord_ok)
  from assms(1) have n: "?n \<le> 16384" and seq: "pr_sequence r < 2 ^ 48"
    and ct: "validPlainContentType (pr_typ r)" and ep: "pr_epoch r = 0"
    by (auto simp: plain_record_ok_def)
  have len: "getUint16 (slice 11 13 (b @ rest)) = of_nat ?n"
    by (simp add: b slice_def)
  have epoch: "getUint16 (slice 3 5 (b @ rest)) = 0"
    by (simp add: b slice_def)
  have sq: "getUint48 (slice 5 11 (b @ rest)) = pr_sequence r"
    using seq by (simp add: b slice_def)
  have pl: "slice 13 (13 + ?n) (b @ rest) = pr_payload r"
    by (simp add: b slice_def)
  have "unat (getUint16 (slice 11 13 (b @ rest))) = ?n" using n by (simp add: len)
  then show ?thesis
    using n ct ep epoch sq pl
    by (simp add: parsePlainRecordView_def Let_def) (simp add: b)
qed

lemma parsePlainRecordView_sound:
  "parsePlainRecordView d = Inr (r, n) \<Longrightarrow> plain_record_ok r"
  using getUint48_less [of "slice 5 11 d"]
  by (auto simp: parsePlainRecordView_def plain_record_ok_def Let_def split: if_splits)

interpretation plain_stream: stream_codec marshalPlainRecord parsePlainRecordView
  parsePlainRecordsMode plain_record_ok
proof
  fix b :: bytes assume "b \<noteq> []"
  then show "parsePlainRecordsMode b =
      rbind (parsePlainRecordView b)
        (\<lambda>(x, n). rbind (parsePlainRecordsMode (drop n b)) (\<lambda>xs. Inr (x # xs)))"
    by (subst parsePlainRecordsMode.simps) (auto simp: rbind_def split: sum.splits)
qed (auto simp: marshalPlainRecord_ok parsePlainRecordView_marshal parsePlainRecordsMode.simps
       dest: parsePlainRecordView_sound parsePlainRecordView_consumed)

lemma parsePlainRecordsMode_length:
  "parsePlainRecordsMode d = Inr rs \<Longrightarrow>
     length d = (\<Sum>r\<leftarrow>rs. plainRecordHeaderLen + length (pr_payload r))"
proof (induction d arbitrary: rs rule: length_induct)
  case (1 d)
  show ?case
  proof (cases "d = []")
    case True
    with 1(2) show ?thesis by (simp add: plain_stream.stream_Nil)
  next
    case False
    with 1(2) obtain r n rs' where one: "parsePlainRecordView d = Inr (r, n)"
      and rest: "parsePlainRecordsMode (drop n d) = Inr rs'" and rs: "rs = r # rs'"
      by (auto simp: plain_stream.stream_step)
    from parsePlainRecordView_consumed [OF one] False
    have n: "n = plainRecordHeaderLen + length (pr_payload r)" "n \<le> length d" by auto
    with False have "length (drop n d) < length d" by simp
    with 1(1) rest have "length (drop n d) = (\<Sum>r\<leftarrow>rs'. plainRecordHeaderLen + length (pr_payload r))"
      by blast
    with n rs show ?thesis by simp
  qed
qed

section \<open>Properties\<close>

text \<open>
  C25. Any sequence of records that the encoder accepts, packed into one datagram, is read back
  as exactly that sequence.
\<close>

theorem plain_records_roundtrip:
  assumes "list_all2 (\<lambda>r b. marshalPlainRecord r = Inr b) rs bs"
  shows "parsePlainRecordsMode (concat bs) = Inr rs"
proof (rule plain_stream.stream_roundtrip)
  show "list_all2 (\<lambda>r b. plain_record_ok r \<and> marshalPlainRecord r = Inr b) rs bs"
    using assms by (rule list_all2_mono) (auto dest: marshalPlainRecord_Inr)
qed

theorem plain_records_roundtrip_witness:
  "let r = \<lparr>pr_typ = 22, pr_epoch = 0, pr_sequence = 5, pr_payload = [1, 2]\<rparr>;
       s = \<lparr>pr_typ = 21, pr_epoch = 0, pr_sequence = 6, pr_payload = [2, 40]\<rparr>;
       br = [22, 0xfe, 0xfd, 0, 0, 0, 0, 0, 0, 0, 5, 0, 2, 1, 2];
       bs = [21, 0xfe, 0xfd, 0, 0, 0, 0, 0, 0, 0, 6, 0, 2, 2, 40]
   in marshalPlainRecord r = Inr br \<and> marshalPlainRecord s = Inr bs \<and>
      parsePlainRecordsMode (concat [br, bs]) = Inr [r, s]"
proof -
  let ?r = "\<lparr>pr_typ = 22, pr_epoch = 0, pr_sequence = 5, pr_payload = [1, 2]\<rparr>"
  let ?s = "\<lparr>pr_typ = 21, pr_epoch = 0, pr_sequence = 6, pr_payload = [2, 40]\<rparr>"
  let ?br = "[22, 0xfe, 0xfd, 0, 0, 0, 0, 0, 0, 0, 5, 0, 2, 1, 2]"
  let ?bs = "[21, 0xfe, 0xfd, 0, 0, 0, 0, 0, 0, 0, 6, 0, 2, 2, 40]"
  have e: "marshalPlainRecord ?r = Inr ?br" "marshalPlainRecord ?s = Inr ?bs" 
    by (simp_all add: marshalPlainRecord_def allocatePlainRecordWire_def validPlainContentType_def
        putUint16_def putUint48_def copy_at_def)
  then show ?thesis
    using plain_records_roundtrip [of "[?r, ?s]" "[?br, ?bs]"] by simp
qed

text \<open>
  C26. The record splitter accounts for every byte it accepts: the accepted records are
  well formed (known plaintext type, epoch zero, 48-bit sequence, at most 2^14 bytes of payload)
  and their headers and payloads together are exactly as long as the datagram.
\<close>

theorem plain_records_accepted_sound:
  assumes "parsePlainRecordsMode d = Inr rs"
  shows "list_all plain_record_ok rs \<and>
     length d = (\<Sum>r\<leftarrow>rs. plainRecordHeaderLen + length (pr_payload r))"
  using plain_stream.stream_sound [OF assms] parsePlainRecordsMode_length [OF assms] by simp

theorem plain_records_accepted_sound_witness:
  "let d = [22, 0xfe, 0xfd, 0, 0, 0, 0, 0, 0, 0, 5, 0, 2, 1, 2];
       rs = [\<lparr>pr_typ = 22, pr_epoch = 0, pr_sequence = 5, pr_payload = [1, 2]\<rparr>]
   in parsePlainRecordsMode d = Inr rs \<and> list_all plain_record_ok rs \<and>
      length d = (\<Sum>r\<leftarrow>rs. plainRecordHeaderLen + length (pr_payload r))"
proof -
  let ?d = "[22, 0xfe, 0xfd, 0, 0, 0, 0, 0, 0, 0, 5, 0, 2, 1, 2]"
  let ?rs = "[\<lparr>pr_typ = 22, pr_epoch = 0, pr_sequence = 5, pr_payload = [1, 2]\<rparr>]"
  have p: "parsePlainRecordsMode ?d = Inr ?rs" by code_simp
  from plain_records_accepted_sound [OF p] p show ?thesis by (simp only: Let_def)
qed

end
