(* ===== verification/Cipher_Suite.thy ===== *)
theory Cipher_Suite
  imports Alert
begin

text \<open>
  \<^verbatim>\<open>src/cipher_suite.go\<close>: the table of cipher suites and the HKDF routines of the key
  schedule. The keyed hash (HMAC over the suite's hash) and the hash itself are parameters
  \<open>hmac\<close> and \<open>hash\<close>; \<open>hmac_ok\<close> and \<open>hash_ok\<close> state the one fact the code relies on, the
  length of the digests. Each specialised expansion is related to \<open>hkdfExpand\<close>, the
  standard library's HKDF-Expand.
\<close>

section \<open>Suites\<close>

datatype crypto_Hash = SHA256 | SHA384

fun hashSize :: "crypto_Hash \<Rightarrow> nat" where
  "hashSize SHA256 = 32"
| "hashSize SHA384 = 48"

abbreviation TLS_AES_128_GCM_SHA256 :: u16 where "TLS_AES_128_GCM_SHA256 \<equiv> 0x1301"
abbreviation TLS_AES_256_GCM_SHA384 :: u16 where "TLS_AES_256_GCM_SHA384 \<equiv> 0x1302"
abbreviation TLS_CHACHA20_POLY1305_SHA256 :: u16 where "TLS_CHACHA20_POLY1305_SHA256 \<equiv> 0x1303"
abbreviation TLS_AES_128_CCM_SHA256 :: u16 where "TLS_AES_128_CCM_SHA256 \<equiv> 0x1304"
abbreviation TLS_AES_128_CCM_8_SHA256 :: u16 where "TLS_AES_128_CCM_8_SHA256 \<equiv> 0x1305"

record cipherSuite =
  su_id :: u16
  su_hash :: crypto_Hash
  su_keyLen :: nat
  su_ivLen :: nat
  su_recordLimit :: u64
  su_authFailureLimit :: u64

definition supportedCipherSuites :: "cipherSuite list" where
  "supportedCipherSuites =
     [\<lparr>su_id = TLS_AES_128_GCM_SHA256, su_hash = SHA256, su_keyLen = 16, su_ivLen = 12,
       su_recordLimit = 2 ^ 24, su_authFailureLimit = 2 ^ 36\<rparr>,
      \<lparr>su_id = TLS_AES_256_GCM_SHA384, su_hash = SHA384, su_keyLen = 32, su_ivLen = 12,
       su_recordLimit = 2 ^ 24, su_authFailureLimit = 2 ^ 36\<rparr>,
      \<lparr>su_id = TLS_CHACHA20_POLY1305_SHA256, su_hash = SHA256, su_keyLen = 32, su_ivLen = 12,
       su_recordLimit = 2 ^ 48, su_authFailureLimit = 2 ^ 36\<rparr>,
      \<lparr>su_id = TLS_AES_128_CCM_SHA256, su_hash = SHA256, su_keyLen = 16, su_ivLen = 12,
       su_recordLimit = 2 ^ 23, su_authFailureLimit = 2 ^ 23\<rparr>]"

definition defaultCipherSuites :: "u16 list" where
  "defaultCipherSuites = map su_id supportedCipherSuites"

definition cipherSuiteForID :: "u16 \<Rightarrow> cipherSuite result" where
  "cipherSuiteForID suiteID =
     (if suiteID = TLS_AES_128_GCM_SHA256 then Inr (supportedCipherSuites ! 0)
      else if suiteID = TLS_AES_256_GCM_SHA384 then Inr (supportedCipherSuites ! 1)
      else if suiteID = TLS_CHACHA20_POLY1305_SHA256 then Inr (supportedCipherSuites ! 2)
      else if suiteID = TLS_AES_128_CCM_SHA256 then Inr (supportedCipherSuites ! 3)
      else if suiteID = TLS_AES_128_CCM_8_SHA256
        then Inl (ErrorString ''dtls13: TLS_AES_128_CCM_8_SHA256 requires deployment-specific forgery safeguards'')
      else Inl (ErrorString ''dtls13: unsupported cipher suite''))"

section \<open>HKDF\<close>

type_synonym mac = "crypto_Hash \<Rightarrow> bytes \<Rightarrow> bytes \<Rightarrow> bytes"
type_synonym digest = "crypto_Hash \<Rightarrow> bytes \<Rightarrow> bytes"

definition hmac_ok :: "mac \<Rightarrow> bool" where
  "hmac_ok hmac \<longleftrightarrow> (\<forall>h k m. length (hmac h k m) = hashSize h)"

definition hash_ok :: "digest \<Rightarrow> bool" where
  "hash_ok hash \<longleftrightarrow> (\<forall>h m. length (hash h m) = hashSize h)"

definition bytesOf :: "string \<Rightarrow> bytes" where
  "bytesOf s = map of_char s"

definition dtls13LabelPrefix :: bytes where
  "dtls13LabelPrefix = bytesOf ''dtls13''"

definition emptyTranscriptHash :: "digest \<Rightarrow> cipherSuite \<Rightarrow> bytes" where
  "emptyTranscriptHash hash suite = hash (su_hash suite) []"

definition zeroHashSecret :: "cipherSuite \<Rightarrow> bytes" where
  "zeroHashSecret suite = replicate (hashSize (su_hash suite)) 0"

definition hkdfExtract :: "mac \<Rightarrow> crypto_Hash \<Rightarrow> bytes \<Rightarrow> bytes \<Rightarrow> bytes" where
  "hkdfExtract hmac h secret salt = hmac h salt secret"

text \<open>
  \<^verbatim>\<open>hkdf.Expand\<close> of the standard library (RFC 5869): the blocks
  \<open>T(i) = HMAC(secret, T(i-1) | info | i)\<close>, cut to the length asked for.
\<close>

fun hkdfBlock :: "mac \<Rightarrow> crypto_Hash \<Rightarrow> bytes \<Rightarrow> bytes \<Rightarrow> nat \<Rightarrow> bytes" where
  "hkdfBlock hmac h secret info 0 = []"
| "hkdfBlock hmac h secret info (Suc i) =
     hmac h secret (hkdfBlock hmac h secret info i @ info @ [of_nat (Suc i)])"

definition hkdfExpand :: "mac \<Rightarrow> crypto_Hash \<Rightarrow> bytes \<Rightarrow> bytes \<Rightarrow> nat \<Rightarrow> bytes result" where
  "hkdfExpand hmac h secret info len =
     (if 255 * hashSize h < len then Inl (Panic ''dtls13: HKDF-Expand failed: hkdf: requested key length too large'')
      else Inr (take len (concat (map (hkdfBlock hmac h secret info)
                  [1..<Suc ((len + hashSize h - 1) div hashSize h)]))))"

text \<open>
  The loop of \<^verbatim>\<open>hkdfExpander.expandInto\<close>: \<open>previous\<close> is the last block, \<open>counter\<close> a byte and
  \<open>remaining\<close> the part of the destination not written yet. An empty digest would repeat
  forever in the source; \<open>hmac_ok\<close> excludes it.
\<close>

function expandLoop :: "mac \<Rightarrow> crypto_Hash \<Rightarrow> bytes \<Rightarrow> bytes \<Rightarrow> bytes \<Rightarrow> u8 \<Rightarrow> nat \<Rightarrow> bytes" where
  "expandLoop hmac h secret info previous counter remaining =
     (if remaining = 0 then []
      else let block = hmac h secret (previous @ info @ [counter]) in
        if block = [] then []
        else take remaining block @
             expandLoop hmac h secret info block (counter + 1) (remaining - min remaining (length block)))"
  by pat_completeness auto
termination
  by (relation "measure (\<lambda>(hmac, h, secret, info, previous, counter, remaining). remaining)") auto

declare expandLoop.simps [simp del]

definition expandInto :: "mac \<Rightarrow> crypto_Hash \<Rightarrow> bytes \<Rightarrow> bytes \<Rightarrow> nat \<Rightarrow> bytes result" where
  "expandInto hmac h secret info len =
     (if 255 * hashSize h < len then Inl (Panic ''dtls13: HKDF-Expand length exceeds RFC 5869 limit'')
      else Inr (expandLoop hmac h secret info [] 1 len))"

text \<open>The \<^verbatim>\<open>HkdfLabel\<close> structure that \<^verbatim>\<open>expandLabel\<close> and its variants build.\<close>

definition labelInfo :: "nat \<Rightarrow> string \<Rightarrow> bytes \<Rightarrow> bytes" where
  "labelInfo len label context =
     [of_nat (len div 256), of_nat len, of_nat (length ((dtls13LabelPrefix @ bytesOf label)))] @
     (dtls13LabelPrefix @ bytesOf label) @ [of_nat (length context)] @ context"

definition expandLabel :: "mac \<Rightarrow> cipherSuite \<Rightarrow> bytes \<Rightarrow> string \<Rightarrow> bytes \<Rightarrow> nat \<Rightarrow> bytes result" where
  "expandLabel hmac suite secret label context len =
     hkdfExpand hmac (su_hash suite) secret (labelInfo len label context) len"

definition expandLabelWithInto :: "mac \<Rightarrow> crypto_Hash \<Rightarrow> bytes \<Rightarrow> string \<Rightarrow> bytes \<Rightarrow> nat \<Rightarrow> bytes result" where
  "expandLabelWithInto hmac h secret label context len =
     expandInto hmac h secret (labelInfo len label context) len"

definition expandLabelHashInto ::
  "mac \<Rightarrow> cipherSuite \<Rightarrow> bytes \<Rightarrow> string \<Rightarrow> bytes \<Rightarrow> nat \<Rightarrow> bytes result" where
  "expandLabelHashInto hmac suite secret label context outLen =
     (let full = (dtls13LabelPrefix @ bytesOf label) in
      if outLen \<noteq> hashSize (su_hash suite)
        then Inl (Panic ''dtls13: single-block HKDF output must equal Hash.length'')
      else if 255 < length context then Inl (Panic ''dtls13: invalid HKDF label or context'')
      else Inr (hmac (su_hash suite) secret
             ([0, of_nat outLen, of_nat (length full)] @ full @ [of_nat (length context)] @ context @ [1])))"

definition expandLabelHashStringInto ::
  "mac \<Rightarrow> cipherSuite \<Rightarrow> bytes \<Rightarrow> string \<Rightarrow> bytes \<Rightarrow> nat \<Rightarrow> bytes result" where
  "expandLabelHashStringInto hmac suite secret label context outLen =
     (let fullLabelLen = length dtls13LabelPrefix + length label in
      if outLen \<noteq> hashSize (su_hash suite)
        then Inl (Panic ''dtls13: single-block HKDF output must equal Hash.length'')
      else if 255 < fullLabelLen \<or> 255 < length context
        then Inl (Panic ''dtls13: invalid HKDF label or context'')
      else Inr (hmac (su_hash suite) secret
             ([0, of_nat outLen, of_nat fullLabelLen] @ dtls13LabelPrefix @ bytesOf label @
              [of_nat (length context)] @ context @ [1])))"

definition deriveSecret :: "mac \<Rightarrow> cipherSuite \<Rightarrow> bytes \<Rightarrow> string \<Rightarrow> bytes \<Rightarrow> bytes result" where
  "deriveSecret hmac suite secret label transcriptHash =
     expandLabelHashInto hmac suite secret label transcriptHash (hashSize (su_hash suite))"

record trafficKeys =
  tk_key :: bytes
  tk_iv :: bytes
  tk_sn :: bytes

definition deriveTrafficKeys :: "mac \<Rightarrow> cipherSuite \<Rightarrow> bytes \<Rightarrow> trafficKeys result" where
  "deriveTrafficKeys hmac suite trafficSecret =
     rbind (expandLabelWithInto hmac (su_hash suite) trafficSecret ''key'' [] (su_keyLen suite)) (\<lambda>key.
     rbind (expandLabelWithInto hmac (su_hash suite) trafficSecret ''iv'' [] (su_ivLen suite)) (\<lambda>iv.
     rbind (expandLabelWithInto hmac (su_hash suite) trafficSecret ''sn'' [] (su_keyLen suite)) (\<lambda>sn.
       Inr \<lparr>tk_key = key, tk_iv = iv, tk_sn = sn\<rparr>)))"

text \<open>
  \<^verbatim>\<open>expandLabelWithScratchInto\<close> builds the label inside the caller's scratch memory, where
  the context may live too: \<open>ctxOff\<close> is the offset of the context in \<open>scratch\<close>, and every
  write is a write to that memory.
\<close>

definition scratchInfo :: "bytes \<Rightarrow> string \<Rightarrow> nat \<Rightarrow> nat \<Rightarrow> nat \<Rightarrow> bytes" where
  "scratchInfo scratch label ctxOff ctxLen outLen =
     (let fullLabelLen = length dtls13LabelPrefix + length label;
          infoLen = 2 + 1 + fullLabelLen + 1 + ctxLen;
          s1 = copy_at 0 [of_nat (outLen div 256), of_nat outLen, of_nat fullLabelLen] scratch;
          s2 = copy_at 3 (dtls13LabelPrefix) s1;
          s3 = copy_at (3 + length dtls13LabelPrefix) (bytesOf label) s2;
          pos = 3 + fullLabelLen;
          s4 = copy_at pos [of_nat ctxLen] s3;
          s5 = copy_at (pos + 1) (slice ctxOff (ctxOff + ctxLen) s4) s4
      in take infoLen s5)"

function scratchLoop :: "mac \<Rightarrow> crypto_Hash \<Rightarrow> bytes \<Rightarrow> bytes \<Rightarrow> bytes \<Rightarrow> nat \<Rightarrow> nat \<Rightarrow> bytes" where
  "scratchLoop hmac h secret info previous counter remaining =
     (if remaining = 0 then []
      else let block = hmac h secret (previous @ info @ [of_nat counter]) in
        if remaining < hashSize h then take remaining block
        else block @ scratchLoop hmac h secret info block (counter + 1) (remaining - hashSize h))"
  by pat_completeness auto
termination
proof (relation "measure (\<lambda>(hmac, h, secret, info, previous, counter, remaining). remaining)", goal_cases)
  case (2 hmac h secret info previous counter remaining x)
  then show ?case by (cases h) auto
qed simp

declare scratchLoop.simps [simp del]

definition expandLabelWithScratchInto ::
  "mac \<Rightarrow> cipherSuite \<Rightarrow> bytes \<Rightarrow> string \<Rightarrow> nat \<Rightarrow> nat \<Rightarrow> nat \<Rightarrow> bytes \<Rightarrow> bytes result" where
  "expandLabelWithScratchInto hmac suite secret label ctxOff ctxLen outLen scratch =
     (let h = su_hash suite; fullLabelLen = length dtls13LabelPrefix + length label;
          infoLen = 2 + 1 + fullLabelLen + 1 + ctxLen in
      if 255 < fullLabelLen \<or> 255 < ctxLen \<or> 255 * hashSize h < outLen \<or> length scratch < infoLen \<or>
         length scratch < hashSize h
        then Inl (Panic ''dtls13: invalid caller-storage HKDF-Expand-Label input'')
      else Inr (scratchLoop hmac h secret (scratchInfo scratch label ctxOff ctxLen outLen) [] 1 outLen))"

section \<open>The specialised expansions compute HKDF-Expand\<close>

lemma hashSize_pos [simp]: "0 < hashSize h"
  by (cases h) simp_all

lemma length_bytesOf [simp]: "length (bytesOf s) = length s"
  by (simp add: bytesOf_def)

lemma length_dtls13LabelPrefix [simp]: "length dtls13LabelPrefix = 6"
  by (simp add: dtls13LabelPrefix_def)

lemma length_hmac: "hmac_ok hmac \<Longrightarrow> length (hmac h k m) = hashSize h"
  by (simp add: hmac_ok_def)

lemma ceil_div_step:
  fixes n s :: nat
  assumes "0 < n" and "0 < s"
  shows "(n + s - 1) div s = Suc ((n - min n s + s - 1) div s)"
proof -
  have "n + s - 1 = (n - 1) + s" using assms by simp
  then have "(n + s - 1) div s = Suc ((n - 1) div s)" using assms by (simp only: div_add_self2)
  moreover have "(n - min n s + s - 1) div s = (n - 1) div s"
    using assms by (cases "s \<le> n") auto
  ultimately show ?thesis by simp
qed

definition hkdfStream :: "mac \<Rightarrow> crypto_Hash \<Rightarrow> bytes \<Rightarrow> bytes \<Rightarrow> nat \<Rightarrow> nat \<Rightarrow> bytes" where
  "hkdfStream hmac h secret info i n =
     take n (concat (map (hkdfBlock hmac h secret info)
       [Suc i..<Suc i + (n + hashSize h - 1) div hashSize h]))"

lemma hkdfStream_step:
  assumes hm: "hmac_ok hmac" and n: "0 < n"
  shows "hkdfStream hmac h secret info i n =
     take n (hkdfBlock hmac h secret info (Suc i)) @
     hkdfStream hmac h secret info (Suc i) (n - min n (hashSize h))"
proof -
  have len: "length (hkdfBlock hmac h secret info (Suc i)) = hashSize h" using hm by (simp add: length_hmac)
  let ?c = "(n - min n (hashSize h) + hashSize h - 1) div hashSize h"
  have "[Suc i..<Suc i + (n + hashSize h - 1) div hashSize h] = Suc i # [Suc (Suc i)..<Suc (Suc i) + ?c]"
    using ceil_div_step [OF n, of "hashSize h"] by (simp add: upt_rec [of "Suc i"])
  moreover have "n - min n (hashSize h) = n - hashSize h" by simp
  ultimately show ?thesis by (simp add: hkdfStream_def len del: hkdfBlock.simps)
qed

lemma expandLoop_stream:
  assumes hm: "hmac_ok hmac"
  shows "expandLoop hmac h secret info (hkdfBlock hmac h secret info i) (of_nat (Suc i)) n =
     hkdfStream hmac h secret info i n"
proof (induction n arbitrary: i rule: less_induct)
  case (less n)
  show ?case
  proof (cases "n = 0")
    case True
    then show ?thesis by (simp add: expandLoop.simps hkdfStream_def)
  next
    case False
    let ?b = "hkdfBlock hmac h secret info (Suc i)"
    have b: "hmac h secret (hkdfBlock hmac h secret info i @ info @ [of_nat (Suc i)]) = ?b" by simp
    have len: "length ?b = hashSize h" using hm by (simp add: length_hmac)
    have "expandLoop hmac h secret info ?b (of_nat (Suc (Suc i))) (n - min n (hashSize h)) =
        hkdfStream hmac h secret info (Suc i) (n - min n (hashSize h))"
      using False hashSize_pos [of h] by (intro less.IH) simp
    moreover have "of_nat (Suc i) + 1 = (of_nat (Suc (Suc i)) :: u8)" by simp
    moreover have "?b \<noteq> []" using len hashSize_pos [of h] by (metis length_0_conv less_irrefl)
    ultimately show ?thesis
      using False hkdfStream_step [OF hm, of n h secret info i]
      by (subst expandLoop.simps) (simp only: b Let_def len if_False)
  qed
qed

lemma scratchLoop_stream:
  assumes hm: "hmac_ok hmac"
  shows "scratchLoop hmac h secret info (hkdfBlock hmac h secret info i) (Suc i) n =
     hkdfStream hmac h secret info i n"
proof (induction n arbitrary: i rule: less_induct)
  case (less n)
  let ?b = "hkdfBlock hmac h secret info (Suc i)"
  have b: "hmac h secret (hkdfBlock hmac h secret info i @ info @ [of_nat (Suc i)]) = ?b" by simp
  have len: "length ?b = hashSize h" using hm by (simp add: length_hmac)
  consider "n = 0" | "0 < n" "n < hashSize h" | "0 < n" "hashSize h \<le> n" by linarith
  then show ?case
  proof cases
    case 1
    then show ?thesis by (simp add: scratchLoop.simps hkdfStream_def)
  next
    case 2
    then have "hkdfStream hmac h secret info (Suc i) (n - min n (hashSize h)) = []"
      by (simp add: hkdfStream_def)
    with 2 show ?thesis
      using hkdfStream_step [OF hm, of n h secret info i]
      by (subst scratchLoop.simps) (simp only: b Let_def, simp)
  next
    case 3
    have "scratchLoop hmac h secret info ?b (Suc (Suc i)) (n - hashSize h) =
        hkdfStream hmac h secret info (Suc i) (n - hashSize h)"
      using 3 hashSize_pos [of h] by (intro less.IH) linarith
    with 3 len show ?thesis
      using hkdfStream_step [OF hm, of n h secret info i]
      by (subst scratchLoop.simps) (simp only: b Let_def, simp)
  qed
qed

lemma hkdfExpand_stream:
  "len \<le> 255 * hashSize h \<Longrightarrow> hkdfExpand hmac h secret info len = Inr (hkdfStream hmac h secret info 0 len)"
  by (simp add: hkdfExpand_def hkdfStream_def)

lemma expandInto_eq:
  "hmac_ok hmac \<Longrightarrow> len \<le> 255 * hashSize h \<Longrightarrow> expandInto hmac h secret info len = hkdfExpand hmac h secret info len"
  using expandLoop_stream [of hmac h secret info 0 len]
  by (simp add: expandInto_def hkdfExpand_stream)

lemma hkdfStream_one:
  assumes "hmac_ok hmac"
  shows "hkdfStream hmac h secret info 0 (hashSize h) = hmac h secret (info @ [1])"
  using hkdfStream_step [OF assms, of "hashSize h" h secret info 0]
  by (simp add: length_hmac [OF assms] hkdfStream_def)

lemma hashSize_div [simp]: "hashSize h div 256 = 0"
  by (cases h) simp_all

lemma expandLabelHashInto_eq:
  assumes "hmac_ok hmac" and "length context \<le> 255"
  shows "expandLabelHashInto hmac suite secret label context (hashSize (su_hash suite)) =
     expandLabel hmac suite secret label context (hashSize (su_hash suite))"
  using assms hashSize_pos [of "su_hash suite"]
  by (simp add: expandLabelHashInto_def expandLabel_def hkdfExpand_stream hkdfStream_one labelInfo_def Let_def)

lemma expandLabelHashStringInto_eq:
  assumes "hmac_ok hmac" and "length context \<le> 255" and "length label \<le> 249"
  shows "expandLabelHashStringInto hmac suite secret label context (hashSize (su_hash suite)) =
     expandLabel hmac suite secret label context (hashSize (su_hash suite))"
  using assms
  by (simp add: expandLabelHashStringInto_def expandLabel_def hkdfExpand_stream hkdfStream_one labelInfo_def
      Let_def)

text \<open>
  The context survives the writes that precede its copy as long as it starts after the byte
  that holds its length.
\<close>

lemma copy_at_prefix:
  "length xs = off \<Longrightarrow> length src \<le> length ys \<Longrightarrow> copy_at off src (xs @ ys) = xs @ src @ drop (length src) ys"
  by (simp add: copy_at_def)

lemma slice_copy_later:
  "off + length src \<le> i \<Longrightarrow> off \<le> length dst \<Longrightarrow> slice i j (copy_at off src dst) = slice i j dst"
  by (cases "off + length src \<le> length dst") (auto simp: copy_at_def slice_def drop_take)

lemma scratchInfo_eq:
  assumes ctx: "slice ctxOff (ctxOff + ctxLen) scratch = context" "length context = ctxLen"
    and off: "4 + length dtls13LabelPrefix + length label \<le> ctxOff"
    and len: "4 + length dtls13LabelPrefix + length label + ctxLen \<le> length scratch"
  shows "scratchInfo scratch label ctxOff ctxLen outLen = labelInfo outLen label context"
proof -
  let ?h = "[of_nat (outLen div 256), of_nat outLen, of_nat (6 + length label)] :: bytes"
  let ?s1 = "copy_at 0 ?h scratch"
  let ?s2 = "copy_at 3 (dtls13LabelPrefix) ?s1"
  let ?s3 = "copy_at 9 (bytesOf label) ?s2"
  let ?s4 = "copy_at (9 + length label) [of_nat ctxLen] ?s3"
  have l: "9 + length label + 1 + ctxLen \<le> length scratch" using len by simp
  have s1: "?s1 = ?h @ drop 3 scratch" using l by (simp add: copy_at_def numeral_3_eq_3)
  have s2: "?s2 = (?h @ dtls13LabelPrefix) @ drop 9 scratch"
    unfolding s1 using l by (subst copy_at_prefix) simp_all
  have s3: "?s3 = (?h @ dtls13LabelPrefix @ bytesOf label) @ drop (9 + length label) scratch"
    unfolding s2 using l by (subst copy_at_prefix) (simp_all add: add.commute)
  have s4: "?s4 = (?h @ dtls13LabelPrefix @ bytesOf label @ [of_nat ctxLen]) @ drop (10 + length label) scratch"
    unfolding s3 using l by (subst copy_at_prefix) (simp_all add: add.commute)
  have c: "slice ctxOff (ctxOff + ctxLen) ?s4 = context"
  proof -
    have "length (?h @ dtls13LabelPrefix @ bytesOf label @ [of_nat ctxLen]) = 10 + length label" by simp
    moreover have "10 + length label \<le> ctxOff" using off by simp
    ultimately have "slice ctxOff (ctxOff + ctxLen) ?s4 =
        slice (ctxOff - (10 + length label)) (ctxOff + ctxLen - (10 + length label)) (drop (10 + length label) scratch)"
      unfolding s4 by (subst slice_append_right) simp_all
    also have "\<dots> = slice ctxOff (ctxOff + ctxLen) scratch"
      using off by (simp add: slice_def)
    finally show ?thesis using ctx(1) by simp
  qed
  have "copy_at (10 + length label) context ?s4 =
      ((?h @ dtls13LabelPrefix @ bytesOf label @ [of_nat ctxLen]) @ context) @ drop (10 + length label + ctxLen) scratch"
    unfolding s4 using l ctx(2) by (subst copy_at_prefix) (simp_all add: add.commute)
  moreover have "length ((?h @ dtls13LabelPrefix @ bytesOf label @ [of_nat ctxLen]) @ context) =
      2 + 1 + (6 + length label) + 1 + ctxLen" using ctx(2) by simp
  ultimately have "take (2 + 1 + (6 + length label) + 1 + ctxLen) (copy_at (10 + length label) context ?s4) =
      (?h @ dtls13LabelPrefix @ bytesOf label @ [of_nat ctxLen]) @ context"
    by (metis append_eq_conv_conj)
  then show ?thesis
    using c ctx(2) by (simp add: scratchInfo_def labelInfo_def Let_def)
qed

lemma expandLabelWithScratchInto_eq:
  assumes hm: "hmac_ok hmac" and lens: "length label \<le> 249" "length context \<le> 255" "outLen \<le> 255 * hashSize (su_hash suite)"
    and ctx: "slice ctxOff (ctxOff + length context) scratch = context"
    and off: "4 + length dtls13LabelPrefix + length label \<le> ctxOff"
    and len: "4 + length dtls13LabelPrefix + length label + length context \<le> length scratch"
      "hashSize (su_hash suite) \<le> length scratch"
  shows "expandLabelWithScratchInto hmac suite secret label ctxOff (length context) outLen scratch =
     expandLabel hmac suite secret label context outLen"
  using scratchLoop_stream [OF hm, of "su_hash suite" secret "labelInfo outLen label context" 0 outLen]
    scratchInfo_eq [OF ctx refl off len(1), of outLen] lens len
  by (simp add: expandLabelWithScratchInto_def expandLabel_def hkdfExpand_stream Let_def)

section \<open>Properties\<close>

text \<open>
  C29. The specialised label expansions are the reference one: the expander that reuses a keyed
  MAC, the single-block routine with a precomputed header and the routine that hashes the label
  from a string all return what HKDF-Expand-Label over the standard library's HKDF-Expand
  returns, for every secret, label, context and length they accept.
\<close>

theorem hkdf_variants_equal_reference:
  assumes "hmac_ok hmac" and "length context \<le> 255" and "length label \<le> 249"
    and "len \<le> 255 * hashSize (su_hash suite)"
  shows "expandLabelWithInto hmac (su_hash suite) secret label context len =
      expandLabel hmac suite secret label context len \<and>
    expandLabelHashInto hmac suite secret label context (hashSize (su_hash suite)) =
      expandLabel hmac suite secret label context (hashSize (su_hash suite)) \<and>
    expandLabelHashStringInto hmac suite secret label context (hashSize (su_hash suite)) =
      expandLabel hmac suite secret label context (hashSize (su_hash suite))"
  using assms
  by (simp add: expandLabelWithInto_def expandLabel_def [of hmac suite secret label "context" len] expandInto_eq
      expandLabelHashInto_eq expandLabelHashStringInto_eq)

text \<open>A keyed function with the digest lengths of HMAC, for concrete inputs.\<close>

definition sampleMac :: mac where
  "sampleMac h k m = replicate (hashSize h) (of_nat (length k) + sum_list m)"

lemma hmac_ok_sampleMac: "hmac_ok sampleMac"
  by (simp add: hmac_ok_def sampleMac_def)

theorem hkdf_variants_equal_reference_witness:
  "let suite = supportedCipherSuites ! 0 in
   expandLabelWithInto sampleMac (su_hash suite) [1, 2] ''key'' [] 40 = expandLabel sampleMac suite [1, 2] ''key'' [] 40 \<and>
   expandLabelHashInto sampleMac suite [1, 2] ''key'' [] 32 = expandLabel sampleMac suite [1, 2] ''key'' [] 32"
  using hkdf_variants_equal_reference [OF hmac_ok_sampleMac, of "[]" "''key''" 40 "supportedCipherSuites ! 0" "[1, 2]"]
  by (simp add: supportedCipherSuites_def)

end
