(* ===== verification/Key_Schedule.thy ===== *)
theory Key_Schedule
  imports Cipher_Suite
begin

text \<open>
  \<^verbatim>\<open>src/key_schedule.go\<close>. The source keeps all secrets in one array of six windows and
  reuses windows as secrets become obsolete, so the model has that array: a secret is
  \<open>Some slot\<close> (a slice of the array) or \<open>None\<close> (nil), and every derivation writes the array.
  The theorems show that no secret still in use is overwritten: what is read from the
  array is the key schedule of RFC 8446 as plain functions of the inputs.
\<close>

section \<open>State\<close>

abbreviation keyScheduleSecretSlots :: nat where "keyScheduleSecretSlots \<equiv> 6"
abbreviation keyScheduleRootSlot :: nat where "keyScheduleRootSlot \<equiv> 0"
abbreviation keyScheduleClientHandshakeSlot :: nat where "keyScheduleClientHandshakeSlot \<equiv> 1"
abbreviation keyScheduleServerHandshakeSlot :: nat where "keyScheduleServerHandshakeSlot \<equiv> 2"
abbreviation keyScheduleClientApplicationSlot :: nat where "keyScheduleClientApplicationSlot \<equiv> 3"
abbreviation keyScheduleServerApplicationSlot :: nat where "keyScheduleServerApplicationSlot \<equiv> 4"
abbreviation keyScheduleExporterSlot :: nat where "keyScheduleExporterSlot \<equiv> 5"

record keySchedule =
  ks_suite :: cipherSuite
  ks_earlySecret :: "nat option"
  ks_handshakeSecret :: "nat option"
  ks_masterSecret :: "nat option"
  ks_clientHandshakeTraffic :: "nat option"
  ks_serverHandshakeTraffic :: "nat option"
  ks_clientApplicationTraffic :: "nat option"
  ks_serverApplicationTraffic :: "nat option"
  ks_exporterMasterSecret :: "nat option"
  ks_resumptionMasterSecret :: "nat option"
  ks_secretStorage :: bytes

definition secretWindow :: "keySchedule \<Rightarrow> nat \<Rightarrow> bytes" where
  "secretWindow k slot =
     (let hs = hashSize (su_hash (ks_suite k)); start = slot * hs in slice start (start + hs) (ks_secretStorage k))"

definition storeWindow :: "nat \<Rightarrow> bytes \<Rightarrow> keySchedule \<Rightarrow> keySchedule" where
  "storeWindow slot v k =
     k\<lparr>ks_secretStorage := copy_at (slot * hashSize (su_hash (ks_suite k))) v (ks_secretStorage k)\<rparr>"

fun secretAt :: "keySchedule \<Rightarrow> nat option \<Rightarrow> bytes" where
  "secretAt k None = []"
| "secretAt k (Some slot) = secretWindow k slot"

definition newKeySchedule :: "mac \<Rightarrow> cipherSuite \<Rightarrow> bytes option \<Rightarrow> keySchedule" where
  "newKeySchedule hmac suite psk =
     (let ikm = (case psk of None \<Rightarrow> zeroHashSecret suite | Some p \<Rightarrow> p);
          k = \<lparr>ks_suite = suite, ks_earlySecret = Some keyScheduleRootSlot, ks_handshakeSecret = None,
               ks_masterSecret = None, ks_clientHandshakeTraffic = None, ks_serverHandshakeTraffic = None,
               ks_clientApplicationTraffic = None, ks_serverApplicationTraffic = None,
               ks_exporterMasterSecret = None, ks_resumptionMasterSecret = None,
               ks_secretStorage = replicate (keyScheduleSecretSlots * hashSize (su_hash suite)) 0\<rparr>
      in storeWindow keyScheduleRootSlot (hkdfExtract hmac (su_hash suite) ikm []) k)"

section \<open>Derivations\<close>

text \<open>The client 0-RTT traffic secret shares a window with the later client handshake secret.\<close>

definition earlyTrafficSecret :: "mac \<Rightarrow> keySchedule \<Rightarrow> bytes \<Rightarrow> (keySchedule \<times> nat) result" where
  "earlyTrafficSecret hmac k clientHelloTranscriptHash =
     rbind (deriveSecret hmac (ks_suite k) (secretAt k (ks_earlySecret k)) ''c e traffic'' clientHelloTranscriptHash)
       (\<lambda>secret. Inr (storeWindow keyScheduleClientHandshakeSlot secret k, keyScheduleClientHandshakeSlot))"

definition deriveHandshake :: "mac \<Rightarrow> digest \<Rightarrow> keySchedule \<Rightarrow> bytes \<Rightarrow> bytes \<Rightarrow> keySchedule result" where
  "deriveHandshake hmac hash k sharedSecret helloTranscriptHash =
     (let suite = ks_suite k; h = su_hash suite; hs = hashSize h in
      if length (secretAt k (ks_earlySecret k)) = 0
        then Inl (ErrorString ''dtls13: handshake secrets already derived'')
      else
        rbind (deriveSecret hmac suite (secretAt k (ks_earlySecret k)) ''derived'' (emptyTranscriptHash hash suite)) (\<lambda>d.
        let k1 = storeWindow keyScheduleRootSlot d k;
            k2 = storeWindow keyScheduleRootSlot (hkdfExtract hmac h sharedSecret (secretWindow k1 keyScheduleRootSlot)) k1;
            k3 = k2\<lparr>ks_earlySecret := None, ks_handshakeSecret := Some keyScheduleRootSlot\<rparr>;
            expander = secretAt k3 (ks_handshakeSecret k3);
            k4 = k3\<lparr>ks_clientHandshakeTraffic := Some keyScheduleClientHandshakeSlot,
                    ks_serverHandshakeTraffic := Some keyScheduleServerHandshakeSlot\<rparr>
        in rbind (expandLabelWithInto hmac h expander ''c hs traffic'' helloTranscriptHash hs) (\<lambda>c.
           rbind (expandLabelWithInto hmac h expander ''s hs traffic'' helloTranscriptHash hs) (\<lambda>s.
             Inr (storeWindow keyScheduleServerHandshakeSlot s (storeWindow keyScheduleClientHandshakeSlot c k4))))))"

definition computeFinishedVerifyData :: "mac \<Rightarrow> cipherSuite \<Rightarrow> bytes \<Rightarrow> bytes \<Rightarrow> bytes result" where
  "computeFinishedVerifyData hmac suite baseSecret transcriptHash =
     rbind (expandLabelHashInto hmac suite baseSecret ''finished'' [] (hashSize (su_hash suite)))
       (\<lambda>finishedKey. Inr (hmac (su_hash suite) finishedKey transcriptHash))"

definition verifyFinished :: "mac \<Rightarrow> keySchedule \<Rightarrow> bytes \<Rightarrow> bytes \<Rightarrow> bytes \<Rightarrow> bool result" where
  "verifyFinished hmac k trafficSecret transcriptHash received =
     rbind (computeFinishedVerifyData hmac (ks_suite k) trafficSecret transcriptHash)
       (\<lambda>verifyData. Inr (verifyData = received))"

definition deriveApplication :: "mac \<Rightarrow> digest \<Rightarrow> keySchedule \<Rightarrow> bytes \<Rightarrow> keySchedule result" where
  "deriveApplication hmac hash k serverFinishedTranscriptHash =
     (let suite = ks_suite k; h = su_hash suite; hs = hashSize h in
      if length (secretAt k (ks_handshakeSecret k)) = 0
        then Inl (ErrorString ''dtls13: handshake secrets not derived'')
      else if length (secretAt k (ks_masterSecret k)) \<noteq> 0
        then Inl (ErrorString ''dtls13: application secrets already derived'')
      else
        rbind (deriveSecret hmac suite (secretAt k (ks_handshakeSecret k)) ''derived'' (emptyTranscriptHash hash suite)) (\<lambda>d.
        let k1 = storeWindow keyScheduleRootSlot d k;
            k2 = storeWindow keyScheduleRootSlot
                   (hkdfExtract hmac h (zeroHashSecret suite) (secretWindow k1 keyScheduleRootSlot)) k1;
            k3 = k2\<lparr>ks_handshakeSecret := None, ks_masterSecret := Some keyScheduleRootSlot\<rparr>;
            expander = secretAt k3 (ks_masterSecret k3);
            k4 = k3\<lparr>ks_clientApplicationTraffic := Some keyScheduleClientApplicationSlot,
                    ks_serverApplicationTraffic := Some keyScheduleServerApplicationSlot,
                    ks_exporterMasterSecret := Some keyScheduleExporterSlot\<rparr>
        in rbind (expandLabelWithInto hmac h expander ''c ap traffic'' serverFinishedTranscriptHash hs) (\<lambda>c.
           rbind (expandLabelWithInto hmac h expander ''s ap traffic'' serverFinishedTranscriptHash hs) (\<lambda>s.
           rbind (expandLabelWithInto hmac h expander ''exp master'' serverFinishedTranscriptHash hs) (\<lambda>e.
             Inr (storeWindow keyScheduleExporterSlot e
                   (storeWindow keyScheduleServerApplicationSlot s
                     (storeWindow keyScheduleClientApplicationSlot c k4))))))))"

definition deriveResumption :: "mac \<Rightarrow> keySchedule \<Rightarrow> bytes \<Rightarrow> keySchedule result" where
  "deriveResumption hmac k clientFinishedTranscriptHash =
     (if length (secretAt k (ks_masterSecret k)) = 0
        then Inl (ErrorString ''dtls13: master secret not derived'')
      else if length (secretAt k (ks_resumptionMasterSecret k)) \<noteq> 0
        then Inl (ErrorString ''dtls13: resumption secret already derived'')
      else
        rbind (deriveSecret hmac (ks_suite k) (secretAt k (ks_masterSecret k)) ''res master'' clientFinishedTranscriptHash)
          (\<lambda>d. Inr ((storeWindow keyScheduleRootSlot d k)
                  \<lparr>ks_masterSecret := None, ks_resumptionMasterSecret := Some keyScheduleRootSlot\<rparr>)))"

definition deriveResumptionPSK :: "mac \<Rightarrow> cipherSuite \<Rightarrow> bytes \<Rightarrow> bytes \<Rightarrow> bytes result" where
  "deriveResumptionPSK hmac suite resumptionMasterSecret nonce =
     deriveSecret hmac suite resumptionMasterSecret ''resumption'' nonce"

definition resumptionPSK :: "mac \<Rightarrow> keySchedule \<Rightarrow> bytes \<Rightarrow> bytes result" where
  "resumptionPSK hmac k nonce =
     (if length (secretAt k (ks_resumptionMasterSecret k)) = 0
        then Inl (ErrorString ''dtls13: resumption secret not derived'')
      else deriveResumptionPSK hmac (ks_suite k) (secretAt k (ks_resumptionMasterSecret k)) nonce)"

section \<open>The exporter\<close>

record exporterState =
  ex_suite :: "cipherSuite option"
  ex_secret :: bytes

definition newExporter :: "cipherSuite \<Rightarrow> bytes \<Rightarrow> exporterState" where
  "newExporter suite exporterMasterSecret = \<lparr>ex_suite = Some suite, ex_secret = exporterMasterSecret\<rparr>"

definition exporterClear :: "exporterState \<Rightarrow> exporterState" where
  "exporterClear e = e\<lparr>ex_secret := [], ex_suite := None\<rparr>"

definition exporterExport ::
  "mac \<Rightarrow> digest \<Rightarrow> exporterState \<Rightarrow> string \<Rightarrow> bytes \<Rightarrow> int \<Rightarrow> bytes result" where
  "exporterExport hmac hash e label context len =
     (case ex_suite e of
        None \<Rightarrow> Inl (ErrorString ''dtls13: exporter is unavailable'')
      | Some suite \<Rightarrow>
          let hs = hashSize (su_hash suite) in
          if length (ex_secret e) \<noteq> hs then Inl (ErrorString ''dtls13: exporter is unavailable'')
          else if 255 - 6 < length label \<or> len < 0 \<or> 255 * int hs < len
            then Inl (ErrorString ''dtls13: invalid exporter label or length'')
          else if len = 0 then Inr []
          else
            rbind (expandLabelHashStringInto hmac suite (ex_secret e) label (emptyTranscriptHash hash suite) hs) (\<lambda>labelSecret.
            let scratch0 = replicate (2 * hs) 0;
                scratch1 = copy_at 0 labelSecret scratch0;
                scratch2 = copy_at hs (hash (su_hash suite) context) scratch1
            in expandLabelWithScratchInto hmac suite (slice 0 hs scratch2) ''exporter'' hs hs (nat len) scratch2))"

section \<open>Windows of the secret array\<close>

definition storage_ok :: "keySchedule \<Rightarrow> bool" where
  "storage_ok k \<longleftrightarrow> length (ks_secretStorage k) = keyScheduleSecretSlots * hashSize (su_hash (ks_suite k))"

abbreviation secretLen :: "keySchedule \<Rightarrow> nat" where
  "secretLen k \<equiv> hashSize (su_hash (ks_suite k))"

lemma storeWindow_fields [simp]:
  "ks_suite (storeWindow i v k) = ks_suite k"
  "ks_earlySecret (storeWindow i v k) = ks_earlySecret k"
  "ks_handshakeSecret (storeWindow i v k) = ks_handshakeSecret k"
  "ks_masterSecret (storeWindow i v k) = ks_masterSecret k"
  "ks_clientHandshakeTraffic (storeWindow i v k) = ks_clientHandshakeTraffic k"
  "ks_serverHandshakeTraffic (storeWindow i v k) = ks_serverHandshakeTraffic k"
  "ks_clientApplicationTraffic (storeWindow i v k) = ks_clientApplicationTraffic k"
  "ks_serverApplicationTraffic (storeWindow i v k) = ks_serverApplicationTraffic k"
  "ks_exporterMasterSecret (storeWindow i v k) = ks_exporterMasterSecret k"
  "ks_resumptionMasterSecret (storeWindow i v k) = ks_resumptionMasterSecret k"
  by (simp_all add: storeWindow_def)

lemma slot_bounds: "i < 6 \<Longrightarrow> i * n + n \<le> 6 * (n :: nat)"
  using mult_le_mono1 [of "Suc i" 6 n] by simp

lemma storage_ok_store:
  "storage_ok k \<Longrightarrow> i < 6 \<Longrightarrow> storage_ok (storeWindow i v k)"
  using slot_bounds [of i "secretLen k"] by (simp add: storage_ok_def storeWindow_def)

lemma slot_disjoint: "i \<noteq> j \<Longrightarrow> i * n + n \<le> j * n \<or> j * n + n \<le> i * (n :: nat)"
proof -
  assume "i \<noteq> j"
  then have "Suc i \<le> j \<or> Suc j \<le> i" by auto
  then show ?thesis using mult_le_mono1 [of "Suc i" j n] mult_le_mono1 [of "Suc j" i n] by auto
qed

lemma secretWindow_store:
  assumes ok: "storage_ok k" and ij: "i < 6" "j < 6" and v: "length v = secretLen k"
  shows "secretWindow (storeWindow i v k) j = (if i = j then v else secretWindow k j)"
proof -
  let ?n = "secretLen k" and ?st = "ks_secretStorage k"
  have len: "length ?st = 6 * ?n" using ok by (simp add: storage_ok_def)
  have bi: "i * ?n + ?n \<le> 6 * ?n" and bj: "j * ?n + ?n \<le> 6 * ?n" using ij by (simp_all add: slot_bounds)
  have nth: "copy_at (i * ?n) v ?st ! m = (if i * ?n \<le> m \<and> m < i * ?n + ?n then v ! (m - i * ?n) else ?st ! m)"
    if "m < 6 * ?n" for m using that bi len v by (subst nth_copy_at) simp_all
  have "slice (j * ?n) (j * ?n + ?n) (copy_at (i * ?n) v ?st) = (if i = j then v else slice (j * ?n) (j * ?n + ?n) ?st)"
  proof (rule nth_equalityI)
    fix m assume "m < length (slice (j * ?n) (j * ?n + ?n) (copy_at (i * ?n) v ?st))"
    then have m: "m < ?n" using len bi bj by simp
    then have bm: "j * ?n + m < 6 * ?n" using bj by linarith
    show "slice (j * ?n) (j * ?n + ?n) (copy_at (i * ?n) v ?st) ! m =
        (if i = j then v else slice (j * ?n) (j * ?n + ?n) ?st) ! m"
      using m len bi bj nth [OF bm] slot_disjoint [of i j ?n]
      by (auto simp: slice_def)
  qed (use len bi bj v in simp)
  then show ?thesis by (simp add: secretWindow_def storeWindow_def Let_def)
qed

section \<open>The key schedule as functions of its inputs\<close>

definition specLabel :: "mac \<Rightarrow> cipherSuite \<Rightarrow> bytes \<Rightarrow> string \<Rightarrow> bytes \<Rightarrow> bytes" where
  "specLabel hmac suite secret label context =
     projr (expandLabel hmac suite secret label context (hashSize (su_hash suite)))"

definition specEarly :: "mac \<Rightarrow> cipherSuite \<Rightarrow> bytes option \<Rightarrow> bytes" where
  "specEarly hmac suite psk =
     hkdfExtract hmac (su_hash suite) (case psk of None \<Rightarrow> zeroHashSecret suite | Some p \<Rightarrow> p) []"

definition specHandshake :: "mac \<Rightarrow> digest \<Rightarrow> cipherSuite \<Rightarrow> bytes option \<Rightarrow> bytes \<Rightarrow> bytes" where
  "specHandshake hmac hash suite psk shared =
     hkdfExtract hmac (su_hash suite) shared
       (specLabel hmac suite (specEarly hmac suite psk) ''derived'' (hash (su_hash suite) []))"

definition specMaster :: "mac \<Rightarrow> digest \<Rightarrow> cipherSuite \<Rightarrow> bytes option \<Rightarrow> bytes \<Rightarrow> bytes" where
  "specMaster hmac hash suite psk shared =
     hkdfExtract hmac (su_hash suite) (zeroHashSecret suite)
       (specLabel hmac suite (specHandshake hmac hash suite psk shared) ''derived'' (hash (su_hash suite) []))"

lemma length_hkdfExtract [simp]: "hmac_ok hmac \<Longrightarrow> length (hkdfExtract hmac h s t) = hashSize h"
  by (simp add: hkdfExtract_def length_hmac)

lemma expandLabel_specLabel:
  assumes "hmac_ok hmac"
  shows "expandLabel hmac suite secret label c (hashSize (su_hash suite)) = Inr (specLabel hmac suite secret label c)"
    and "length (specLabel hmac suite secret label c) = hashSize (su_hash suite)"
  using assms by (simp_all add: specLabel_def expandLabel_def hkdfExpand_stream hkdfStream_one length_hmac)

lemma deriveSecret_spec:
  "hmac_ok hmac \<Longrightarrow> length c \<le> 255 \<Longrightarrow>
   deriveSecret hmac suite secret label c = Inr (specLabel hmac suite secret label c)"
  by (simp add: deriveSecret_def expandLabelHashInto_eq expandLabel_specLabel)

lemma expandLabelWithInto_spec:
  "hmac_ok hmac \<Longrightarrow>
   expandLabelWithInto hmac (su_hash suite) secret label c (hashSize (su_hash suite)) =
     Inr (specLabel hmac suite secret label c)"
  by (simp add: expandLabelWithInto_def expandInto_eq expandLabel_specLabel flip: expandLabel_def)

lemma hashSize_le: "hashSize h \<le> 255"
  by (cases h) simp_all

lemma length_emptyTranscriptHash: "hash_ok hash \<Longrightarrow> length (emptyTranscriptHash hash suite) \<le> 255"
  by (simp add: emptyTranscriptHash_def hash_ok_def hashSize_le)

lemmas ks_eval = deriveSecret_spec expandLabelWithInto_spec expandLabel_specLabel(2)
  length_emptyTranscriptHash storage_ok_store secretWindow_store

definition ks_start :: "mac \<Rightarrow> cipherSuite \<Rightarrow> bytes option \<Rightarrow> keySchedule \<Rightarrow> bool" where
  "ks_start hmac suite psk k \<longleftrightarrow>
     storage_ok k \<and> ks_suite k = suite \<and> ks_earlySecret k = Some 0 \<and> ks_handshakeSecret k = None \<and>
     ks_masterSecret k = None \<and> ks_resumptionMasterSecret k = None \<and>
     secretWindow k 0 = specEarly hmac suite psk"

lemma newKeySchedule_start: "hmac_ok hmac \<Longrightarrow> ks_start hmac suite psk (newKeySchedule hmac suite psk)"
proof -
  assume hm: "hmac_ok hmac"
  define k where "k = \<lparr>ks_suite = suite, ks_earlySecret = Some 0, ks_handshakeSecret = None,
     ks_masterSecret = None, ks_clientHandshakeTraffic = None, ks_serverHandshakeTraffic = None,
     ks_clientApplicationTraffic = None, ks_serverApplicationTraffic = None,
     ks_exporterMasterSecret = None, ks_resumptionMasterSecret = None,
     ks_secretStorage = replicate (6 * hashSize (su_hash suite)) 0\<rparr>"
  have new: "newKeySchedule hmac suite psk = storeWindow 0 (specEarly hmac suite psk) k"
    by (simp add: newKeySchedule_def specEarly_def k_def Let_def)
  have k: "storage_ok k" "ks_suite k = suite" "ks_earlySecret k = Some 0" "ks_handshakeSecret k = None"
    "ks_masterSecret k = None" "ks_resumptionMasterSecret k = None"
    by (simp_all add: storage_ok_def k_def)
  have "length (specEarly hmac suite psk) = hashSize (su_hash suite)" using hm by (simp add: specEarly_def)
  with k show ?thesis unfolding new ks_start_def by (simp add: ks_eval)
qed

lemma window_field_update [simp]:
  "secretWindow (k\<lparr>ks_earlySecret := x\<rparr>) = secretWindow k"
  "secretWindow (k\<lparr>ks_handshakeSecret := x\<rparr>) = secretWindow k"
  "secretWindow (k\<lparr>ks_masterSecret := x\<rparr>) = secretWindow k"
  "secretWindow (k\<lparr>ks_clientHandshakeTraffic := x\<rparr>) = secretWindow k"
  "secretWindow (k\<lparr>ks_serverHandshakeTraffic := x\<rparr>) = secretWindow k"
  "secretWindow (k\<lparr>ks_clientApplicationTraffic := x\<rparr>) = secretWindow k"
  "secretWindow (k\<lparr>ks_serverApplicationTraffic := x\<rparr>) = secretWindow k"
  "secretWindow (k\<lparr>ks_exporterMasterSecret := x\<rparr>) = secretWindow k"
  "secretWindow (k\<lparr>ks_resumptionMasterSecret := x\<rparr>) = secretWindow k"
  by (rule ext, simp add: secretWindow_def)+

lemma storage_ok_field_update [simp]:
  "storage_ok (k\<lparr>ks_earlySecret := x\<rparr>) = storage_ok k"
  "storage_ok (k\<lparr>ks_handshakeSecret := x\<rparr>) = storage_ok k"
  "storage_ok (k\<lparr>ks_masterSecret := x\<rparr>) = storage_ok k"
  "storage_ok (k\<lparr>ks_clientHandshakeTraffic := x\<rparr>) = storage_ok k"
  "storage_ok (k\<lparr>ks_serverHandshakeTraffic := x\<rparr>) = storage_ok k"
  "storage_ok (k\<lparr>ks_clientApplicationTraffic := x\<rparr>) = storage_ok k"
  "storage_ok (k\<lparr>ks_serverApplicationTraffic := x\<rparr>) = storage_ok k"
  "storage_ok (k\<lparr>ks_exporterMasterSecret := x\<rparr>) = storage_ok k"
  "storage_ok (k\<lparr>ks_resumptionMasterSecret := x\<rparr>) = storage_ok k"
  by (simp_all add: storage_ok_def)

lemma specEarly_length: "hmac_ok hmac \<Longrightarrow> length (specEarly hmac suite psk) = hashSize (su_hash suite)"
  by (simp add: specEarly_def)

lemma earlyTrafficSecret_spec:
  assumes "hmac_ok hmac" and "length th \<le> 255" and "ks_start hmac suite psk k"
  shows "\<exists>k'. earlyTrafficSecret hmac k th = Inr (k', 1) \<and> ks_start hmac suite psk k' \<and>
     secretWindow k' 1 = specLabel hmac suite (specEarly hmac suite psk) ''c e traffic'' th"
  using assms by (simp add: earlyTrafficSecret_def ks_start_def ks_eval)

definition ks_handshake :: "mac \<Rightarrow> digest \<Rightarrow> cipherSuite \<Rightarrow> bytes option \<Rightarrow> bytes \<Rightarrow> bytes \<Rightarrow> keySchedule \<Rightarrow> bool" where
  "ks_handshake hmac hash suite psk shared th k \<longleftrightarrow>
     storage_ok k \<and> ks_suite k = suite \<and> ks_earlySecret k = None \<and> ks_handshakeSecret k = Some 0 \<and>
     ks_masterSecret k = None \<and> ks_resumptionMasterSecret k = None \<and>
     ks_clientHandshakeTraffic k = Some 1 \<and> ks_serverHandshakeTraffic k = Some 2 \<and>
     secretWindow k 0 = specHandshake hmac hash suite psk shared \<and>
     secretWindow k 1 = specLabel hmac suite (specHandshake hmac hash suite psk shared) ''c hs traffic'' th \<and>
     secretWindow k 2 = specLabel hmac suite (specHandshake hmac hash suite psk shared) ''s hs traffic'' th"

lemma deriveHandshake_spec:
  assumes hm: "hmac_ok hmac" and ha: "hash_ok hash" and st: "ks_start hmac suite psk k"
  shows "\<exists>k'. deriveHandshake hmac hash k shared th = Inr k' \<and> ks_handshake hmac hash suite psk shared th k'"
proof -
  have ne: "specEarly hmac suite psk \<noteq> []"
    using specEarly_length [OF hm, of suite psk] hashSize_pos [of "su_hash suite"] by (metis length_0_conv less_irrefl)
  show ?thesis
    using hm ha st ne
    by (simp add: deriveHandshake_def ks_start_def ks_handshake_def Let_def ks_eval specHandshake_def)
      (simp add: emptyTranscriptHash_def)
qed

definition ks_application ::
  "mac \<Rightarrow> digest \<Rightarrow> cipherSuite \<Rightarrow> bytes option \<Rightarrow> bytes \<Rightarrow> bytes \<Rightarrow> bytes \<Rightarrow> keySchedule \<Rightarrow> bool" where
  "ks_application hmac hash suite psk shared th1 th2 k \<longleftrightarrow>
     (let hs = specHandshake hmac hash suite psk shared; ms = specMaster hmac hash suite psk shared in
      storage_ok k \<and> ks_suite k = suite \<and> ks_earlySecret k = None \<and> ks_handshakeSecret k = None \<and>
      ks_resumptionMasterSecret k = None \<and>
      secretAt k (ks_clientHandshakeTraffic k) = specLabel hmac suite hs ''c hs traffic'' th1 \<and>
      secretAt k (ks_serverHandshakeTraffic k) = specLabel hmac suite hs ''s hs traffic'' th1 \<and>
      secretAt k (ks_masterSecret k) = ms \<and> ks_masterSecret k = Some 0 \<and>
      ks_clientHandshakeTraffic k = Some 1 \<and> ks_serverHandshakeTraffic k = Some 2 \<and>
      ks_clientApplicationTraffic k = Some 3 \<and> ks_serverApplicationTraffic k = Some 4 \<and>
      ks_exporterMasterSecret k = Some 5 \<and>
      secretAt k (ks_clientApplicationTraffic k) = specLabel hmac suite ms ''c ap traffic'' th2 \<and>
      secretAt k (ks_serverApplicationTraffic k) = specLabel hmac suite ms ''s ap traffic'' th2 \<and>
      secretAt k (ks_exporterMasterSecret k) = specLabel hmac suite ms ''exp master'' th2)"

lemma length_specHandshake [simp]:
  "hmac_ok hmac \<Longrightarrow> length (specHandshake hmac hash suite psk shared) = hashSize (su_hash suite)"
  "hmac_ok hmac \<Longrightarrow> length (specMaster hmac hash suite psk shared) = hashSize (su_hash suite)"
  by (simp_all add: specHandshake_def specMaster_def)

lemma deriveApplication_spec:
  assumes hm: "hmac_ok hmac" and ha: "hash_ok hash" and st: "ks_handshake hmac hash suite psk shared th1 k"
  shows "\<exists>k'. deriveApplication hmac hash k th2 = Inr k' \<and> ks_application hmac hash suite psk shared th1 th2 k'"
proof -
  have ne: "specHandshake hmac hash suite psk shared \<noteq> []"
    using length_specHandshake(1) [OF hm, of hash suite psk shared] hashSize_pos [of "su_hash suite"]
    by (metis length_0_conv less_irrefl)
  show ?thesis
    using hm ha st ne
    by (simp add: deriveApplication_def ks_handshake_def ks_application_def Let_def ks_eval specMaster_def)
      (simp add: emptyTranscriptHash_def)
qed

lemma deriveResumption_spec:
  assumes hm: "hmac_ok hmac" and st: "ks_application hmac hash suite psk shared th1 th2 k" and th: "length th3 \<le> 255"
  shows "\<exists>k'. deriveResumption hmac k th3 = Inr k' \<and>
     secretAt k' (ks_resumptionMasterSecret k') =
       specLabel hmac suite (specMaster hmac hash suite psk shared) ''res master'' th3 \<and>
     ks_suite k' = suite \<and> ks_masterSecret k' = None \<and>
     (\<forall>get \<in> {ks_clientHandshakeTraffic, ks_serverHandshakeTraffic, ks_clientApplicationTraffic,
             ks_serverApplicationTraffic, ks_exporterMasterSecret}. secretAt k' (get k') = secretAt k (get k))"
proof -
  have ne: "specMaster hmac hash suite psk shared \<noteq> []"
    using length_specHandshake(2) [OF hm, of hash suite psk shared] hashSize_pos [of "su_hash suite"]
    by (metis length_0_conv less_irrefl)
  have w0: "secretWindow k 0 = specMaster hmac hash suite psk shared"
    using st by (auto simp: ks_application_def Let_def)
  show ?thesis
    using hm st th ne w0 by (simp add: deriveResumption_def ks_application_def Let_def ks_eval)
qed

lemma exporterExport_spec:
  assumes hm: "hmac_ok hmac" and ha: "hash_ok hash" and sec: "length secret = hashSize (su_hash suite)"
    and label: "length label \<le> 249" and len: "0 < len" "len \<le> 255 * hashSize (su_hash suite)"
  shows "exporterExport hmac hash (newExporter suite secret) label c (int len) =
     expandLabel hmac suite (specLabel hmac suite secret label (hash (su_hash suite) []))
       ''exporter'' (hash (su_hash suite) c) len"
proof -
  let ?n = "hashSize (su_hash suite)" and ?ls = "specLabel hmac suite secret label (hash (su_hash suite) [])"
  let ?ch = "hash (su_hash suite) c"
  have lens: "length ?ls = ?n" "length ?ch = ?n" "length (hash (su_hash suite) []) = ?n"
    using hm ha by (simp_all add: expandLabel_specLabel(2) hash_ok_def)
  have ls: "expandLabelHashStringInto hmac suite secret label (emptyTranscriptHash hash suite) ?n = Inr ?ls"
    using lens(3) label hm hashSize_le [of "su_hash suite"]
    by (simp add: emptyTranscriptHash_def expandLabelHashStringInto_eq expandLabel_specLabel(1))
  have sc: "copy_at ?n ?ch (copy_at 0 ?ls (replicate (2 * ?n) 0)) = ?ls @ ?ch"
    using lens by (simp add: copy_at_def)
  have big: "18 \<le> ?n" by (cases "su_hash suite") simp_all
  have "expandLabelWithScratchInto hmac suite ?ls ''exporter'' ?n ?n len (?ls @ ?ch) =
      expandLabel hmac suite ?ls ''exporter'' ?ch len"
    using expandLabelWithScratchInto_eq [OF hm, of "''exporter''" ?ch len suite ?n "?ls @ ?ch" ?ls]
      lens len(2) big hashSize_le [of "su_hash suite"]
    by (simp add: slice_def)
  moreover have "slice 0 ?n (?ls @ ?ch) = ?ls" using lens by (simp add: slice_def)
  ultimately show ?thesis
    using sec label len ls sc by (simp add: exporterExport_def newExporter_def Let_def)
qed

section \<open>Properties\<close>

definition sampleHash :: digest where
  "sampleHash h m = replicate (hashSize h) (sum_list m)"

lemma hash_ok_sampleHash: "hash_ok sampleHash"
  by (simp add: hash_ok_def sampleHash_def)

text \<open>
  C8. The key schedule over the shared secret array refines the key schedule of RFC 8446 written
  as plain functions. From a new schedule, the 0-RTT, handshake, application and resumption
  derivations all succeed in order; the 0-RTT secret reads correctly until the handshake derivation,
  and after the last step every traffic, exporter and resumption secret read from the array is the
  specified function of the inputs, so window reuse destroys nothing that is still live.
\<close>

theorem key_schedule_refines_rfc8446:
  assumes hm: "hmac_ok hmac" and ha: "hash_ok hash" and th: "length th0 \<le> 255" "length th3 \<le> 255"
  shows "\<exists>k0 k1 k2 k3.
     earlyTrafficSecret hmac (newKeySchedule hmac suite psk) th0 = Inr (k0, 1) \<and>
     secretWindow k0 1 = specLabel hmac suite (specEarly hmac suite psk) ''c e traffic'' th0 \<and>
     deriveHandshake hmac hash k0 shared th1 = Inr k1 \<and>
     deriveApplication hmac hash k1 th2 = Inr k2 \<and>
     deriveResumption hmac k2 th3 = Inr k3 \<and>
     secretAt k3 (ks_clientHandshakeTraffic k3) =
       specLabel hmac suite (specHandshake hmac hash suite psk shared) ''c hs traffic'' th1 \<and>
     secretAt k3 (ks_serverHandshakeTraffic k3) =
       specLabel hmac suite (specHandshake hmac hash suite psk shared) ''s hs traffic'' th1 \<and>
     secretAt k3 (ks_clientApplicationTraffic k3) =
       specLabel hmac suite (specMaster hmac hash suite psk shared) ''c ap traffic'' th2 \<and>
     secretAt k3 (ks_serverApplicationTraffic k3) =
       specLabel hmac suite (specMaster hmac hash suite psk shared) ''s ap traffic'' th2 \<and>
     secretAt k3 (ks_exporterMasterSecret k3) =
       specLabel hmac suite (specMaster hmac hash suite psk shared) ''exp master'' th2 \<and>
     secretAt k3 (ks_resumptionMasterSecret k3) =
       specLabel hmac suite (specMaster hmac hash suite psk shared) ''res master'' th3"
proof -
  obtain k0 where k0: "earlyTrafficSecret hmac (newKeySchedule hmac suite psk) th0 = Inr (k0, 1)"
    "ks_start hmac suite psk k0" "secretWindow k0 1 = specLabel hmac suite (specEarly hmac suite psk) ''c e traffic'' th0"
    using earlyTrafficSecret_spec [OF hm th(1) newKeySchedule_start [OF hm, of suite psk]] by blast
  obtain k1 where k1: "deriveHandshake hmac hash k0 shared th1 = Inr k1" "ks_handshake hmac hash suite psk shared th1 k1"
    using deriveHandshake_spec [OF hm ha k0(2)] by blast
  obtain k2 where k2: "deriveApplication hmac hash k1 th2 = Inr k2" "ks_application hmac hash suite psk shared th1 th2 k2"
    using deriveApplication_spec [OF hm ha k1(2)] by blast
  from deriveResumption_spec [OF hm k2(2) th(2)] k2(2) k0(1,3) k1(1) k2(1) show ?thesis
    by (auto simp: ks_application_def Let_def)
qed

theorem key_schedule_refines_rfc8446_witness:
  "\<exists>k0 k1. earlyTrafficSecret sampleMac (newKeySchedule sampleMac (supportedCipherSuites ! 0) None) [3] = Inr (k0, 1) \<and>
     deriveHandshake sampleMac sampleHash k0 [7] [4] = Inr k1"
  using key_schedule_refines_rfc8446 [OF hmac_ok_sampleMac hash_ok_sampleHash, of "[3]" "[6]"
      "supportedCipherSuites ! 0" None "[7]" "[4]" "[5]"]
  by auto

text \<open>
  C28. The exporter is the RFC 8446 exporter although it builds the label in the same scratch
  memory that holds its label secret and its context hash: for every suite, label and length it
  accepts, the result is HKDF-Expand-Label of the derived label secret over the context hash, so
  the overlapping writes never corrupt the context.
\<close>

theorem exporter_scratch_aliasing_safe:
  assumes "hmac_ok hmac" and "hash_ok hash" and "length secret = hashSize (su_hash suite)"
    and "length label \<le> 249" and "0 < len" and "len \<le> 255 * hashSize (su_hash suite)"
  shows "exporterExport hmac hash (newExporter suite secret) label c (int len) =
     expandLabel hmac suite (specLabel hmac suite secret label (hash (su_hash suite) []))
       ''exporter'' (hash (su_hash suite) c) len"
  using assms by (rule exporterExport_spec)

theorem exporter_scratch_aliasing_safe_witness:
  "let suite = supportedCipherSuites ! 1; secret = replicate 48 7 in
   exporterExport sampleMac sampleHash (newExporter suite secret) ''EXPORTER'' [1, 2] 100 =
     expandLabel sampleMac suite (specLabel sampleMac suite secret ''EXPORTER'' (sampleHash SHA384 []))
       ''exporter'' (sampleHash SHA384 [1, 2]) 100"
  using exporter_scratch_aliasing_safe [OF hmac_ok_sampleMac hash_ok_sampleHash,
      of "replicate 48 7" "supportedCipherSuites ! 1" "''EXPORTER''" 100 "[1, 2]"]
  by (simp add: supportedCipherSuites_def)

end
