(* ===== verification/Handshake_Fragment.thy ===== *)
theory Handshake_Fragment
  imports Alert
begin

text \<open>
  The fragment codec of \<^verbatim>\<open>src/handshake.go\<close> and the fragmentation of handshake messages
  of \<^verbatim>\<open>src/flight.go\<close>: the 12-byte DTLS handshake header, the loop that splits a record
  payload into fragments, and the splitting of a message body into fragments of bounded size.
\<close>

abbreviation handshakeHeaderLen :: nat where "handshakeHeaderLen \<equiv> 12"

record handshakeFragment =
  hf_typ :: u8
  hf_messageSequence :: u16
  hf_length :: u32
  hf_offset :: u32
  hf_body :: bytes

definition validateHandshakeFragment :: "handshakeFragment \<Rightarrow> unit result" where
  "validateHandshakeFragment f =
     (if 2 ^ 24 \<le> hf_length f \<or> 2 ^ 24 \<le> hf_offset f \<or>
         unat (hf_length f) < unat (hf_offset f) + length (hf_body f)
      then Inl (alertError alertDecodeError (ProtocolError ''invalid handshake fragment bounds''))
      else Inr ())"

definition putHandshakeFragment :: "handshakeFragment \<Rightarrow> bytes" where
  "putHandshakeFragment f =
     [hf_typ f] @ putUint24 (hf_length f) @ putUint16 (hf_messageSequence f) @
     putUint24 (hf_offset f) @ putUint24 (of_nat (length (hf_body f))) @ hf_body f"

definition marshalHandshakeFragment :: "handshakeFragment \<Rightarrow> bytes result" where
  "marshalHandshakeFragment f =
     rbind (validateHandshakeFragment f) (\<lambda>_. Inr (putHandshakeFragment f))"

text \<open>The destination is a slice of \<open>dstLen\<close> bytes, which the fragment must fill exactly.\<close>

definition marshalHandshakeFragmentInto :: "nat \<Rightarrow> handshakeFragment \<Rightarrow> bytes result" where
  "marshalHandshakeFragmentInto dstLen f =
     rbind (validateHandshakeFragment f) (\<lambda>_.
       if dstLen \<noteq> handshakeHeaderLen + length (hf_body f)
       then Inl (alertError alertDecodeError (ProtocolError ''invalid handshake fragment destination length''))
       else Inr (putHandshakeFragment f))"

definition parseHandshakeFragmentView :: "bytes \<Rightarrow> (handshakeFragment \<times> nat) result" where
  "parseHandshakeFragmentView b =
     (if length b < handshakeHeaderLen
        then Inl (alertError alertDecodeError (ProtocolError ''truncated handshake fragment header''))
      else
        let l = getUint24 (slice 1 4 b); off = getUint24 (slice 6 9 b); n = getUint24 (slice 9 12 b) in
        if unat l < unat off + unat n \<or> length b - handshakeHeaderLen < unat n
          then Inl (alertError alertDecodeError (ProtocolError ''invalid handshake fragment''))
        else Inr (\<lparr>hf_typ = b ! 0, hf_messageSequence = getUint16 (slice 4 6 b), hf_length = l,
                   hf_offset = off, hf_body = slice 12 (12 + unat n) b\<rparr>, 12 + unat n))"

lemma parseHandshakeFragmentView_consumed:
  "parseHandshakeFragmentView b = Inr (f, n) \<Longrightarrow> n = 12 + length (hf_body f) \<and> n \<le> length b"
  by (auto simp: parseHandshakeFragmentView_def Let_def split: if_splits)

function parseHandshakeFragmentsMode :: "bytes \<Rightarrow> handshakeFragment list result" where
  "parseHandshakeFragmentsMode b =
     (if b = [] then Inr []
      else case parseHandshakeFragmentView b of
             Inl err \<Rightarrow> Inl err
           | Inr (f, n) \<Rightarrow>
               (case parseHandshakeFragmentsMode (drop n b) of
                  Inl err \<Rightarrow> Inl err
                | Inr out \<Rightarrow> Inr (f # out)))"
  by pat_completeness auto
termination
  by (relation "measure length") (auto dest!: parseHandshakeFragmentView_consumed)

declare parseHandshakeFragmentsMode.simps [simp del]

section \<open>Fragmentation of messages\<close>

record handshakeMessage =
  hm_typ :: u8
  hm_sequence :: u16
  hm_body :: bytes

text \<open>
  A \<open>maxFragment\<close> of zero divides by zero in the source; the flight builders reject it
  before they fragment, and the loop below stops at once.
\<close>

function fragmentFrom :: "handshakeMessage \<Rightarrow> nat \<Rightarrow> nat \<Rightarrow> handshakeFragment list" where
  "fragmentFrom message maxFragment off =
     (if off < length (hm_body message) \<and> 0 < maxFragment then
        \<lparr>hf_typ = hm_typ message, hf_messageSequence = hm_sequence message,
         hf_length = of_nat (length (hm_body message)), hf_offset = of_nat off,
         hf_body = slice off (min (off + maxFragment) (length (hm_body message))) (hm_body message)\<rparr>
        # fragmentFrom message maxFragment (off + maxFragment)
      else [])"
  by pat_completeness auto
termination
  by (relation "measure (\<lambda>(message, k, off). length (hm_body message) - off)") auto

declare fragmentFrom.simps [simp del]

definition fragmentHandshakeMessageInto :: "handshakeMessage \<Rightarrow> nat \<Rightarrow> handshakeFragment list" where
  "fragmentHandshakeMessageInto message maxFragment =
     (if length (hm_body message) = 0
      then [\<lparr>hf_typ = hm_typ message, hf_messageSequence = hm_sequence message, hf_length = 0,
             hf_offset = 0, hf_body = []\<rparr>]
      else fragmentFrom message maxFragment 0)"

abbreviation maxInt :: nat where "maxInt \<equiv> 2 ^ 63 - 1"

fun countFragmentsFrom :: "nat \<Rightarrow> handshakeMessage list \<Rightarrow> nat \<Rightarrow> nat result" where
  "countFragmentsFrom tot [] maxFragment = Inr tot"
| "countFragmentsFrom tot (message # messages) maxFragment =
     (if 2 ^ 24 \<le> length (hm_body message)
        then Inl (ProtocolError ''handshake message exceeds 24-bit length'')
      else
        let count = (if 0 < length (hm_body message)
                     then (length (hm_body message) + maxFragment - 1) div maxFragment else 1) in
        if maxInt - tot < count then Inl (ProtocolError ''flight has too many handshake fragments'')
        else countFragmentsFrom (tot + count) messages maxFragment)"

definition countHandshakeFragments :: "handshakeMessage list \<Rightarrow> nat \<Rightarrow> nat result" where
  "countHandshakeFragments messages maxFragment = countFragmentsFrom 0 messages maxFragment"

section \<open>The fragment codec\<close>

definition fragment_ok :: "handshakeFragment \<Rightarrow> bool" where
  "fragment_ok f \<longleftrightarrow> hf_length f < 2 ^ 24 \<and> hf_offset f < 2 ^ 24 \<and>
     unat (hf_offset f) + length (hf_body f) \<le> unat (hf_length f)"

lemma fragment_ok_iff: "validateHandshakeFragment f = Inr () \<longleftrightarrow> fragment_ok f"
  by (auto simp: validateHandshakeFragment_def fragment_ok_def not_le not_less)

lemma marshalHandshakeFragment_ok:
  "fragment_ok f \<Longrightarrow> marshalHandshakeFragment f = Inr (putHandshakeFragment f)"
  by (simp add: marshalHandshakeFragment_def fragment_ok_iff [THEN iffD2])

lemma length_putHandshakeFragment [simp]:
  "length (putHandshakeFragment f) = handshakeHeaderLen + length (hf_body f)"
  by (simp add: putHandshakeFragment_def)

lemma fragment_ok_length: "fragment_ok f \<Longrightarrow> length (hf_body f) < 2 ^ 24"
  by (auto simp: fragment_ok_def word_less_nat_alt)

lemma parseHandshakeFragmentView_put:
  assumes ok: "fragment_ok f"
  shows "parseHandshakeFragmentView (putHandshakeFragment f @ rest) = Inr (f, 12 + length (hf_body f))"
proof -
  let ?b = "putHandshakeFragment f @ rest" and ?n = "of_nat (length (hf_body f)) :: u32"
  from ok have l: "hf_length f < 2 ^ 24" and off: "hf_offset f < 2 ^ 24"
    and sum: "unat (hf_offset f) + length (hf_body f) \<le> unat (hf_length f)"
    by (auto simp: fragment_ok_def)
  have un: "unat ?n = length (hf_body f)"
    using fragment_ok_length [OF ok] by (simp add: unat_of_nat_u32)
  have n: "?n < 2 ^ 24"
    using fragment_ok_length [OF ok] un by (simp add: word_less_nat_alt)
  have "getUint24 (slice 1 4 ?b) = hf_length f" "getUint24 (slice 6 9 ?b) = hf_offset f"
    "getUint24 (slice 9 12 ?b) = ?n" "getUint16 (slice 4 6 ?b) = hf_messageSequence f"
    "slice 12 (12 + length (hf_body f)) ?b = hf_body f" "?b ! 0 = hf_typ f"
    using l off n by (simp_all add: putHandshakeFragment_def slice_def)
  then show ?thesis
    using un sum by (simp add: parseHandshakeFragmentView_def Let_def)
qed

lemma parseHandshakeFragmentView_sound:
  "parseHandshakeFragmentView b = Inr (f, n) \<Longrightarrow> fragment_ok f"
  using getUint24_less [of "slice 1 4 b"] getUint24_less [of "slice 6 9 b"]
  by (auto simp: parseHandshakeFragmentView_def fragment_ok_def Let_def split: if_splits)

lemma take_fragment_header:
  "12 \<le> length b \<Longrightarrow>
   take (12 + k) b =
     [b ! 0] @ slice 1 4 b @ slice 4 6 b @ slice 6 9 b @ slice 9 12 b @ take k (drop 12 b)"
  by (auto simp: slice_def numeral_eq_Suc Suc_le_length_iff)

lemma parseHandshakeFragmentView_canonical:
  assumes "parseHandshakeFragmentView b = Inr (f, n)"
  shows "putHandshakeFragment f = take n b"
proof -
  let ?n = "getUint24 (slice 9 12 b)"
  from assms have len: "12 \<le> length b" and body: "unat ?n \<le> length b - 12"
    and f: "f = \<lparr>hf_typ = b ! 0, hf_messageSequence = getUint16 (slice 4 6 b),
       hf_length = getUint24 (slice 1 4 b), hf_offset = getUint24 (slice 6 9 b),
       hf_body = slice 12 (12 + unat ?n) b\<rparr>" and n: "n = 12 + unat ?n"
    by (auto simp: parseHandshakeFragmentView_def Let_def split: if_splits)
  have "putHandshakeFragment f =
      [b ! 0] @ slice 1 4 b @ slice 4 6 b @ slice 6 9 b @ slice 9 12 b @ take (unat ?n) (drop 12 b)"
    using len body by (simp add: f putHandshakeFragment_def put_getUint) (simp add: slice_def)
  also have "\<dots> = take n b"
    using len by (simp only: n take_fragment_header)
  finally show ?thesis .
qed

interpretation fragment_stream: canonical_stream_codec marshalHandshakeFragment
  parseHandshakeFragmentView parseHandshakeFragmentsMode fragment_ok
proof
  fix b :: bytes assume "b \<noteq> []"
  then show "parseHandshakeFragmentsMode b =
      rbind (parseHandshakeFragmentView b)
        (\<lambda>(x, n). rbind (parseHandshakeFragmentsMode (drop n b)) (\<lambda>xs. Inr (x # xs)))"
    by (subst parseHandshakeFragmentsMode.simps) (auto simp: rbind_def split: sum.splits)
next
  fix b x n assume "parseHandshakeFragmentView b = Inr (x, n)"
  then show "marshalHandshakeFragment x = Inr (take n b)"
    by (simp add: marshalHandshakeFragment_ok parseHandshakeFragmentView_sound
        parseHandshakeFragmentView_canonical)
next
  fix x assume "fragment_ok x"
  then show "\<exists>b. marshalHandshakeFragment x = Inr b \<and> b \<noteq> []"
    by (auto simp: marshalHandshakeFragment_ok putHandshakeFragment_def)
qed (auto simp: marshalHandshakeFragment_ok parseHandshakeFragmentView_put parseHandshakeFragmentsMode.simps
     dest: parseHandshakeFragmentView_sound parseHandshakeFragmentView_consumed)

section \<open>Fragmentation covers the message\<close>

text \<open>
  \<open>fragment_of m f\<close>: the fragment carries the bytes of the message at its offset.
  \<open>covers f i\<close>: it carries byte \<open>i\<close>.
\<close>

definition fragment_of :: "handshakeMessage \<Rightarrow> handshakeFragment \<Rightarrow> bool" where
  "fragment_of m f \<longleftrightarrow>
     hf_typ f = hm_typ m \<and> hf_messageSequence f = hm_sequence m \<and>
     unat (hf_length f) = length (hm_body m) \<and>
     unat (hf_offset f) + length (hf_body f) \<le> length (hm_body m) \<and>
     (\<forall>i < length (hf_body f). hf_body f ! i = hm_body m ! (unat (hf_offset f) + i))"

definition covers :: "handshakeFragment \<Rightarrow> nat \<Rightarrow> bool" where
  "covers f i \<longleftrightarrow> unat (hf_offset f) \<le> i \<and> i < unat (hf_offset f) + length (hf_body f)"

lemma nth_slice: "j \<le> length b \<Longrightarrow> i < j - k \<Longrightarrow> slice k j b ! i = b ! (k + i)"
  by (simp add: slice_def)

lemma slice_eq_Nil: "j \<le> length b \<Longrightarrow> slice i j b = [] \<longleftrightarrow> j \<le> i"
  by (auto simp: slice_def)

lemma slice_min: "slice i (min (i + k) (length b)) b = take k (drop i b)"
  by (simp add: slice_def min_def)

text \<open>Induction over the fragment offsets, with the message fixed.\<close>

lemma fragmentFrom_induct [case_names stop step]:
  assumes "\<And>off. \<not> (off < length (hm_body m) \<and> 0 < k) \<Longrightarrow> P off"
    and "\<And>off. off < length (hm_body m) \<Longrightarrow> 0 < k \<Longrightarrow> P (off + k) \<Longrightarrow> P off"
  shows "P off"
proof (induction "length (hm_body m) - off" arbitrary: off rule: less_induct)
  case less
  show ?case
  proof (cases "off < length (hm_body m) \<and> 0 < k")
    case True
    then have "length (hm_body m) - (off + k) < length (hm_body m) - off" by linarith
    then have "P (off + k)" by (rule less)
    with True show ?thesis using assms(2) by blast
  qed (rule assms(1))
qed

lemma unat_of_nat_u24: "n < 2 ^ 24 \<Longrightarrow> unat (of_nat n :: u32) = n"
  by (rule unat_of_nat_u32) simp

lemma fragmentFrom_of:
  assumes len: "length (hm_body m) < 2 ^ 24"
  shows "f \<in> set (fragmentFrom m k off) \<Longrightarrow>
     fragment_of m f \<and> off \<le> unat (hf_offset f) \<and> 0 < length (hf_body f) \<and> length (hf_body f) \<le> k"
proof (induction off rule: fragmentFrom_induct [of m k])
  case (stop off)
  then show ?case by (auto simp: fragmentFrom.simps [of m k off])
next
  case (step off)
  have "unat (of_nat off :: u32) = off" "unat (of_nat (length (hm_body m)) :: u32) = length (hm_body m)"
    using len step.hyps by (auto intro!: unat_of_nat_u24)
  with step show ?case
    by (auto simp: fragmentFrom.simps [of m k off] fragment_of_def nth_slice slice_eq_Nil)
qed

lemma fragmentFrom_covers:
  assumes len: "length (hm_body m) < 2 ^ 24" and k: "0 < k"
  shows "off \<le> i \<Longrightarrow> i < length (hm_body m) \<Longrightarrow> \<exists>f \<in> set (fragmentFrom m k off). covers f i"
proof (induction off rule: fragmentFrom_induct [of m k])
  case (stop off)
  with k show ?case by auto
next
  case (step off)
  have u: "unat (of_nat off :: u32) = off"
    using len step.hyps by (auto intro!: unat_of_nat_u24)
  show ?case
  proof (cases "off + k \<le> i")
    case True
    with step show ?thesis by (auto simp: fragmentFrom.simps [of m k off])
  next
    case False
    with step u show ?thesis by (auto simp: fragmentFrom.simps [of m k off] covers_def)
  qed
qed

lemma fragmentFrom_concat: "0 < k \<Longrightarrow> concat (map hf_body (fragmentFrom m k off)) = drop off (hm_body m)"
proof (induction off rule: fragmentFrom_induct [of m k])
  case (stop off)
  then show ?case by (auto simp: fragmentFrom.simps [of m k off])
next
  case (step off)
  then have "concat (map hf_body (fragmentFrom m k (off + k))) = drop k (drop off (hm_body m))"
    by (simp add: add.commute)
  with step.hyps show ?case
    using append_take_drop_id [of k "drop off (hm_body m)"]
    by (simp add: fragmentFrom.simps [of m k off] slice_min)
qed

lemma length_fragmentFrom:
  "0 < k \<Longrightarrow> length (fragmentFrom m k off) = (length (hm_body m) - off + k - 1) div k"
proof (induction off rule: fragmentFrom_induct [of m k])
  case (stop off)
  then show ?case by (auto simp: fragmentFrom.simps [of m k off])
next
  case (step off)
  let ?r = "length (hm_body m) - off"
  have "?r + k - 1 = (?r - 1) + k" using step.hyps by simp
  then have "(?r + k - 1) div k = (?r - 1) div k + 1"
    using step.hyps by (simp only: div_add_self2)
  moreover have "(?r - k + k - 1) div k = (?r - 1) div k"
    using step.hyps by (cases "k \<le> ?r") auto
  ultimately show ?case
    using step by (simp add: fragmentFrom.simps [of m k off])
qed

lemma fragmentHandshakeMessageInto_of:
  assumes "length (hm_body m) < 2 ^ 24" and "f \<in> set (fragmentHandshakeMessageInto m k)"
  shows "fragment_of m f" and "length (hf_body f) \<le> k"
proof -
  show "fragment_of m f"
    using assms(2) fragmentFrom_of [OF assms(1), of f k 0]
    by (cases "hm_body m = []") (simp_all add: fragmentHandshakeMessageInto_def fragment_of_def)
  show "length (hf_body f) \<le> k"
    using assms(2) fragmentFrom_of [OF assms(1), of f k 0]
    by (cases "hm_body m = []") (simp_all add: fragmentHandshakeMessageInto_def)
qed

lemma fragmentHandshakeMessageInto_covers:
  assumes "length (hm_body m) < 2 ^ 24" and "0 < k" and "i < length (hm_body m)"
  shows "\<exists>f \<in> set (fragmentHandshakeMessageInto m k). covers f i"
  using assms fragmentFrom_covers [of m k 0 i] by (auto simp: fragmentHandshakeMessageInto_def)

lemma fragment_of_ok: "fragment_of m f \<Longrightarrow> length (hm_body m) < 2 ^ 24 \<Longrightarrow> fragment_ok f"
  by (auto simp: fragment_of_def fragment_ok_def word_less_nat_alt)

section \<open>Properties\<close>

lemma marshalHandshakeFragment_Inr: "marshalHandshakeFragment f = Inr b \<Longrightarrow> fragment_ok f"
  by (auto simp: marshalHandshakeFragment_def simp flip: fragment_ok_iff)

text \<open>
  C24. The fragment format is a bijection with its encodings: a payload splits into the
  fragments \<open>fs\<close> if and only if it is the concatenation of encodings of \<open>fs\<close>. Nothing
  malformed or trailing is accepted and no valid payload is refused.
\<close>

theorem fragments_parse_iff_encoded:
  "parseHandshakeFragmentsMode b = Inr fs \<longleftrightarrow>
     (\<exists>bs. list_all2 (\<lambda>f c. marshalHandshakeFragment f = Inr c) fs bs \<and> b = concat bs)"
proof
  assume "parseHandshakeFragmentsMode b = Inr fs"
  from fragment_stream.stream_canonical [OF this] show
    "\<exists>bs. list_all2 (\<lambda>f c. marshalHandshakeFragment f = Inr c) fs bs \<and> b = concat bs"
    by (auto intro: list_all2_mono)
next
  assume "\<exists>bs. list_all2 (\<lambda>f c. marshalHandshakeFragment f = Inr c) fs bs \<and> b = concat bs"
  then obtain bs where bs: "list_all2 (\<lambda>f c. marshalHandshakeFragment f = Inr c) fs bs" and b: "b = concat bs"
    by blast
  from bs have "list_all2 (\<lambda>f c. fragment_ok f \<and> marshalHandshakeFragment f = Inr c) fs bs"
    by (rule list_all2_mono) (auto dest: marshalHandshakeFragment_Inr)
  then show "parseHandshakeFragmentsMode b = Inr fs"
    unfolding b by (rule fragment_stream.stream_roundtrip)
qed

lemma countFragmentsFrom_bound:
  "countFragmentsFrom tot ms k = Inr n \<Longrightarrow> m \<in> set ms \<Longrightarrow> length (hm_body m) < 2 ^ 24"
  by (induction ms arbitrary: tot) (auto simp: Let_def split: if_splits)

lemma countFragmentsFrom_length:
  "0 < k \<Longrightarrow> countFragmentsFrom tot ms k = Inr n \<Longrightarrow>
   n = tot + length (concat (map (\<lambda>m. fragmentHandshakeMessageInto m k) ms))"
proof (induction ms arbitrary: tot)
  case (Cons m ms)
  have one: "length (fragmentHandshakeMessageInto m k) =
      (if 0 < length (hm_body m) then (length (hm_body m) + k - 1) div k else 1)"
    using Cons.prems(1) by (simp add: fragmentHandshakeMessageInto_def length_fragmentFrom)
  from Cons.prems(2) have "countFragmentsFrom (tot + length (fragmentHandshakeMessageInto m k)) ms k = Inr n"
    unfolding one by (simp add: Let_def split: if_splits)
  from Cons.IH [OF Cons.prems(1) this] show ?case by simp
qed simp

text \<open>
  The capacity the flight builders reserve is exact: when counting succeeds, it equals the
  number of fragments the messages are split into, the fragment bodies of each message
  concatenate to the message, and no body exceeds the fragment limit.
\<close>

lemma fragment_count_exact:
  assumes k: "0 < k" and count: "countHandshakeFragments ms k = Inr n" and m: "m \<in> set ms"
  shows "n = length (concat (map (\<lambda>m. fragmentHandshakeMessageInto m k) ms)) \<and>
     concat (map hf_body (fragmentHandshakeMessageInto m k)) = hm_body m \<and>
     list_all (\<lambda>f. length (hf_body f) \<le> k) (fragmentHandshakeMessageInto m k)"
proof -
  have "length (hm_body m) < 2 ^ 24"
    using countFragmentsFrom_bound [of 0 ms k n m] count m by (simp add: countHandshakeFragments_def)
  from fragmentHandshakeMessageInto_of(2) [OF this]
  have "list_all (\<lambda>f. length (hf_body f) \<le> k) (fragmentHandshakeMessageInto m k)"
    by (auto simp: list_all_iff)
  moreover have "concat (map hf_body (fragmentHandshakeMessageInto m k)) = hm_body m"
    using fragmentFrom_concat [OF k, of m 0] by (auto simp: fragmentHandshakeMessageInto_def)
  ultimately show ?thesis
    using countFragmentsFrom_length [OF k, of 0 ms n] count by (simp add: countHandshakeFragments_def)
qed

end
