(* ===== verification/Transcript.thy ===== *)
theory Transcript
  imports Handshake_Fragment Cipher_Suite
begin

text \<open>
  \<^verbatim>\<open>src/transcript.go\<close>: the running transcript hash. The state of a \<^verbatim>\<open>hash.Hash\<close> is the
  byte string written to it, its sum the digest of that string, and a clone an equal state.
  The framing is unambiguous: the bytes determine the list of messages.
\<close>

abbreviation handshakeTypeMessageHash :: u8 where "handshakeTypeMessageHash \<equiv> 254"

record transcriptHash =
  th_hash :: crypto_Hash
  th_written :: bytes

definition newTranscriptHash :: "crypto_Hash \<Rightarrow> transcriptHash" where
  "newTranscriptHash h = \<lparr>th_hash = h, th_written = []\<rparr>"

definition transcriptAdd :: "transcriptHash \<Rightarrow> u8 \<Rightarrow> bytes \<Rightarrow> transcriptHash result" where
  "transcriptAdd t ct body =
     (if 2 ^ 24 \<le> length body then Inl (ProtocolError ''handshake message exceeds 24-bit length'')
      else Inr (t\<lparr>th_written := th_written t @ [ct] @ putUint24 (of_nat (length body)) @ body\<rparr>))"

definition transcriptSum :: "digest \<Rightarrow> transcriptHash \<Rightarrow> bytes" where
  "transcriptSum hash t = hash (th_hash t) (th_written t)"

definition transcriptClone :: "transcriptHash \<Rightarrow> transcriptHash" where
  "transcriptClone t = \<lparr>th_hash = th_hash t, th_written = th_written t\<rparr>"

definition addHelloRetryRequest :: "transcriptHash \<Rightarrow> bytes \<Rightarrow> bytes \<Rightarrow> transcriptHash result" where
  "addHelloRetryRequest t clientHelloHash hrrBody =
     rbind (transcriptAdd t handshakeTypeMessageHash clientHelloHash) (\<lambda>t1. transcriptAdd t1 2 hrrBody)"

fun transcriptAll :: "transcriptHash \<Rightarrow> (u8 \<times> bytes) list \<Rightarrow> transcriptHash result" where
  "transcriptAll t [] = Inr t"
| "transcriptAll t ((ct, body) # ms) = rbind (transcriptAdd t ct body) (\<lambda>t1. transcriptAll t1 ms)"

section \<open>Lemmas\<close>

definition frame :: "u8 \<times> bytes \<Rightarrow> bytes" where
  "frame m = [fst m] @ putUint24 (of_nat (length (snd m))) @ snd m"

lemma transcriptAll_iff:
  "transcriptAll t ms = Inr t' \<longleftrightarrow>
     list_all (\<lambda>(ct, body). length body < 2 ^ 24) ms \<and> t' = t\<lparr>th_written := th_written t @ concat (map frame ms)\<rparr>"
  by (induction ms arbitrary: t) (auto simp: transcriptAdd_def frame_def not_le split: if_splits)

lemma frame_inject:
  assumes len: "length b < 2 ^ 24" "length b' < 2 ^ 24"
    and eq: "frame (ct, b) @ r = frame (ct', b') @ r'"
  shows "ct = ct' \<and> b = b' \<and> r = r'"
proof -
  have small: "(of_nat (length b) :: u32) < 2 ^ 24" "(of_nat (length b') :: u32) < 2 ^ 24"
    using len by (simp_all add: word_less_nat_alt unat_of_nat)
  have e: "ct = ct'" "putUint24 (of_nat (length b)) @ b @ r = putUint24 (of_nat (length b')) @ b' @ r'"
    using eq by (simp_all add: frame_def)
  from e(2) have "putUint24 (of_nat (length b)) = putUint24 (of_nat (length b') :: u32)" and br: "b @ r = b' @ r'"
    by (simp_all add: append_eq_append_conv)
  then have "getUint24 (putUint24 (of_nat (length b))) = getUint24 (putUint24 (of_nat (length b')))" by simp
  then have "(of_nat (length b) :: u32) = of_nat (length b')" using small by simp
  then have "unat (of_nat (length b) :: u32) = unat (of_nat (length b') :: u32)" by simp
  then have "length b = length b'" using len by (simp add: unat_of_nat)
  with br e(1) show ?thesis by (simp add: append_eq_append_conv)
qed

lemma frames_inject:
  "list_all (\<lambda>(ct, body). length body < 2 ^ 24) ms \<Longrightarrow> list_all (\<lambda>(ct, body). length body < 2 ^ 24) ns \<Longrightarrow>
   concat (map frame ms) = concat (map frame ns) \<Longrightarrow> ms = ns"
proof (induction ms arbitrary: ns)
  case Nil
  then show ?case by (cases ns) (auto simp: frame_def)
next
  case (Cons m ms)
  then obtain n ns' where ns: "ns = n # ns'" by (cases ns) (auto simp: frame_def)
  obtain ct b ct' b' where mn: "m = (ct, b)" "n = (ct', b')" by (cases m; cases n)
  have "m = n" and rest: "concat (map frame ms) = concat (map frame ns')"
    using frame_inject [of b b' ct _ ct'] Cons.prems mn ns by auto
  with Cons.IH [of ns'] Cons.prems ns show ?case by simp
qed

lemma transcriptAll_inject:
  assumes "transcriptAll t ms = Inr t'" and "transcriptAll t ns = Inr t'"
  shows "ms = ns"
proof (rule frames_inject)
  have w: "th_written t' = th_written t @ concat (map frame xs)" if "transcriptAll t xs = Inr t'" for xs
    using that by (simp add: transcriptAll_iff)
  from w [OF assms(1)] w [OF assms(2)] show "concat (map frame ms) = concat (map frame ns)" by simp
qed (use assms in \<open>simp_all add: transcriptAll_iff\<close>)

section \<open>Properties\<close>

text \<open>
  C30. The transcript is an unambiguous encoding: two message sequences that leave the hash in the
  same state are equal, types, boundaries and bodies included. An attacker who cannot find
  collisions of the hash cannot move bytes between messages without changing the transcript.
\<close>

theorem transcript_determines_messages:
  "transcriptAll t ms = Inr t' \<and> transcriptAll t ns = Inr t' \<longleftrightarrow> transcriptAll t ms = Inr t' \<and> ms = ns"
  using transcriptAll_inject by blast

end
