(* ===== verification/Replay_Window.thy ===== *)
theory Replay_Window
  imports DTLS_Prelude
begin

text \<open>
  \<^verbatim>\<open>src/replay.go\<close>: the sliding anti-replay window. The window is related to the set of
  all sequence numbers accepted so far; the relation gives the exact meaning of
  \<^verbatim>\<open>check\<close> and the contract \<open>replay_guard\<close> the record layer relies on.
\<close>

record replayWindow =
  rw_latest :: u64
  rw_bitmap :: u64
  rw_initialized :: bool
  rw_size :: u64

definition newReplayWindow :: "int \<Rightarrow> replayWindow" where
  "newReplayWindow sz =
     \<lparr>rw_latest = 0, rw_bitmap = 0, rw_initialized = False, rw_size = of_int sz\<rparr>"

definition nextExpected :: "replayWindow \<Rightarrow> u64" where
  "nextExpected w = (if \<not> rw_initialized w then 0 else rw_latest w + 1)"

definition replayCheck :: "replayWindow \<Rightarrow> u64 \<Rightarrow> bool" where
  "replayCheck w seq =
     (if \<not> rw_initialized w \<or> rw_latest w < seq then True
      else let delta = rw_latest w - seq in
        delta < rw_size w \<and> rw_bitmap w AND push_bit (unat delta) 1 = 0)"

definition replayAccept :: "replayWindow \<Rightarrow> u64 \<Rightarrow> replayWindow" where
  "replayAccept w seq =
     (if \<not> rw_initialized w
        then w\<lparr>rw_initialized := True, rw_latest := seq, rw_bitmap := 1\<rparr>
      else if rw_latest w < seq then
        let delta = seq - rw_latest w;
            shifted = (if 64 \<le> delta then 0 else push_bit (unat delta) (rw_bitmap w))
        in w\<lparr>rw_latest := seq, rw_bitmap := shifted OR 1\<rparr>
      else
        let delta = rw_latest w - seq in
        if delta < 64 then w\<lparr>rw_bitmap := rw_bitmap w OR push_bit (unat delta) 1\<rparr> else w)"

text \<open>A record that passes the check is committed, every other one is dropped.\<close>

fun replayRun :: "replayWindow \<Rightarrow> u64 list \<Rightarrow> replayWindow \<times> u64 list" where
  "replayRun w [] = (w, [])"
| "replayRun w (seq # seqs) =
     (if replayCheck w seq
      then (let (w', accepted) = replayRun (replayAccept w seq) seqs in (w', seq # accepted))
      else replayRun w seqs)"

section \<open>The contract of a replay guard\<close>

text \<open>
  \<open>rel w H\<close> reads: \<open>w\<close> is the guard's state after exactly the numbers in \<open>H\<close> were accepted.
\<close>

locale replay_guard =
  fixes check :: "'w \<Rightarrow> 'n \<Rightarrow> bool"
    and accept :: "'w \<Rightarrow> 'n \<Rightarrow> 'w"
    and run :: "'w \<Rightarrow> 'n list \<Rightarrow> 'w \<times> 'n list"
    and rel :: "'w \<Rightarrow> 'n set \<Rightarrow> bool"
  assumes check_fresh: "rel w H \<Longrightarrow> check w n \<Longrightarrow> n \<notin> H"
    and accept_rel: "rel w H \<Longrightarrow> rel (accept w n) (insert n H)"
    and run_Nil: "run w [] = (w, [])"
    and run_Cons: "run w (n # ns) =
      (if check w n then (fst (run (accept w n) ns), n # snd (run (accept w n) ns)) else run w ns)"
begin

lemma run_rel: "rel w H \<Longrightarrow> rel (fst (run w ns)) (H \<union> set (snd (run w ns)))"
proof (induction ns arbitrary: w H)
  case Nil
  then show ?case by (simp add: run_Nil)
next
  case (Cons n ns)
  then show ?case
    using Cons.IH [OF accept_rel [OF Cons.prems, of n]] by (simp add: run_Cons)
qed

lemma run_distinct: "rel w H \<Longrightarrow> distinct (snd (run w ns)) \<and> set (snd (run w ns)) \<inter> H = {}"
proof (induction ns arbitrary: w H)
  case Nil
  then show ?case by (simp add: run_Nil)
next
  case (Cons n ns)
  from Cons.IH [OF accept_rel [OF Cons.prems, of n]] Cons.IH [OF Cons.prems] check_fresh [OF Cons.prems]
  show ?case by (auto simp: run_Cons)
qed

end

section \<open>The window as a set of accepted numbers\<close>

definition replay_rel :: "replayWindow \<Rightarrow> u64 set \<Rightarrow> bool" where
  "replay_rel w H \<longleftrightarrow>
     (if rw_initialized w
      then rw_latest w \<in> H \<and> (\<forall>h \<in> H. h \<le> rw_latest w) \<and>
           (\<forall>d < 64. bit (rw_bitmap w) d \<longleftrightarrow> (\<exists>h \<in> H. unat h + d = unat (rw_latest w)))
      else H = {})"

lemma unat_diff_le: "b \<le> (a :: 'a::len word) \<Longrightarrow> unat (a - b) = unat a - unat b"
  by (simp add: unat_sub)

lemma replay_rel_init: "replay_rel (newReplayWindow sz) {}"
  by (simp add: replay_rel_def newReplayWindow_def)

lemma replay_rel_accept_old:
  assumes rel: "replay_rel w H" and init: "rw_initialized w" and le: "seq \<le> rw_latest w"
  shows "replay_rel (replayAccept w seq) (insert seq H)"
proof -
  let ?delta = "rw_latest w - seq"
  have du: "unat ?delta = unat (rw_latest w) - unat seq" and su: "unat seq \<le> unat (rw_latest w)"
    using le by (simp_all add: unat_diff_le word_le_nat_alt)
  have bits: "unat seq + d = unat (rw_latest w) \<longleftrightarrow> d = unat ?delta" for d
    using du su by auto
  have lt: "?delta < 64 \<longleftrightarrow> unat ?delta < 64"
    by (simp add: word_less_nat_alt)
  show ?thesis
    using rel init le unfolding replay_rel_def replayAccept_def Let_def
    by (auto simp: bits lt bit_simps not_less)
qed

lemma replay_rel_accept_new:
  assumes rel: "replay_rel w H" and init: "rw_initialized w" and less: "rw_latest w < seq"
  shows "replay_rel (replayAccept w seq) (insert seq H)"
proof -
  let ?delta = "seq - rw_latest w"
  have lu: "unat (rw_latest w) < unat seq" using less by (simp add: word_less_nat_alt)
  have du: "unat ?delta = unat seq - unat (rw_latest w)"
    using less by (simp add: unat_diff_le)
  have le: "h \<in> H \<Longrightarrow> unat h \<le> unat (rw_latest w)" for h
    using rel init by (auto simp: replay_rel_def word_le_nat_alt)
  have bm: "bit (rw_bitmap w) d \<longleftrightarrow> (\<exists>h \<in> H. unat h + d = unat (rw_latest w))" if "d < 64" for d
    using rel init that by (auto simp: replay_rel_def)
  have ge: "64 \<le> ?delta \<longleftrightarrow> 64 \<le> unat ?delta"
    by (simp add: word_le_nat_alt)
  let ?bm = "(if 64 \<le> ?delta then 0 else push_bit (unat ?delta) (rw_bitmap w)) OR 1"
  have "bit ?bm d \<longleftrightarrow> (\<exists>h \<in> insert seq H. unat h + d = unat seq)" if "d < 64" for d
  proof -
    have "bit ?bm d \<longleftrightarrow> d = 0 \<or> (unat ?delta \<le> d \<and> bit (rw_bitmap w) (d - unat ?delta))"
      using that ge by (auto simp: bit_simps)
    also have "\<dots> \<longleftrightarrow> d = 0 \<or> (unat ?delta \<le> d \<and> (\<exists>h \<in> H. unat h + (d - unat ?delta) = unat (rw_latest w)))"
      using bm [of "d - unat ?delta"] that by auto
    also have "\<dots> \<longleftrightarrow> (\<exists>h \<in> insert seq H. unat h + d = unat seq)"
    proof -
      have "unat ?delta \<le> d \<and> unat h + (d - unat ?delta) = unat (rw_latest w) \<longleftrightarrow> unat h + d = unat seq"
        if "h \<in> H" for h
        using le [OF that] lu du by auto
      then show ?thesis by auto
    qed
    finally show ?thesis .
  qed
  moreover have "\<forall>h \<in> H. h \<le> seq"
    using le lu by (force simp: word_le_nat_alt)
  ultimately show ?thesis
    using init less unfolding replay_rel_def replayAccept_def Let_def by auto
qed

lemma replay_rel_accept: "replay_rel w H \<Longrightarrow> replay_rel (replayAccept w seq) (insert seq H)"
proof (cases "rw_initialized w")
  case True
  assume "replay_rel w H"
  then show ?thesis
    using True replay_rel_accept_old replay_rel_accept_new by (cases "rw_latest w < seq") auto
next
  case False
  assume "replay_rel w H"
  then show ?thesis
    using False by (auto simp: replay_rel_def replayAccept_def bit_1_iff)
qed

lemma replayCheck_rel:
  assumes rel: "replay_rel w H" and size: "rw_size w \<le> 64"
  shows "replayCheck w seq \<longleftrightarrow>
     H = {} \<or> (\<forall>h \<in> H. h < seq) \<or> (seq \<notin> H \<and> (\<forall>h \<in> H. unat h < unat seq + unat (rw_size w)))"
proof (cases "rw_initialized w \<and> seq \<le> rw_latest w")
  case True
  let ?delta = "rw_latest w - seq"
  from True rel have L: "rw_latest w \<in> H" and le: "\<forall>h \<in> H. h \<le> rw_latest w"
    and bm: "\<forall>d < 64. bit (rw_bitmap w) d \<longleftrightarrow> (\<exists>h \<in> H. unat h + d = unat (rw_latest w))"
    by (auto simp: replay_rel_def)
  have du: "unat ?delta = unat (rw_latest w) - unat seq" and su: "unat seq \<le> unat (rw_latest w)"
    using True by (simp_all add: unat_diff_le word_le_nat_alt)
  have s64: "unat (rw_size w) \<le> 64" using size by (simp add: word_le_nat_alt)
  have lt: "?delta < rw_size w \<longleftrightarrow> unat (rw_latest w) < unat seq + unat (rw_size w)"
    using du su by (auto simp: word_less_nat_alt)
  have win: "(\<forall>h \<in> H. unat h < unat seq + unat (rw_size w)) \<longleftrightarrow> ?delta < rw_size w"
    using L le lt by (auto simp: word_le_nat_alt)
  have mem: "bit (rw_bitmap w) (unat ?delta) \<longleftrightarrow> seq \<in> H" if "?delta < rw_size w"
  proof -
    have "unat ?delta < 64" using that s64 by (simp add: word_less_nat_alt)
    then have "bit (rw_bitmap w) (unat ?delta) \<longleftrightarrow> (\<exists>h \<in> H. unat h + unat ?delta = unat (rw_latest w))"
      using bm by blast
    also have "\<dots> \<longleftrightarrow> (\<exists>h \<in> H. h = seq)"
      using du su by (intro bex_cong) (auto simp: word_unat_eq_iff)
    finally show ?thesis by simp
  qed
  show ?thesis
    using True L mem win by (auto simp: replayCheck_def Let_def and_exp_zero not_less)
next
  case False
  with rel show ?thesis
    by (auto simp: replay_rel_def replayCheck_def split: if_splits)
qed

lemma rw_size_accept [simp]: "rw_size (replayAccept w seq) = rw_size w"
  by (simp add: replayAccept_def Let_def)

lemma ball_unat_Max:
  fixes H :: "'a::len word set"
  assumes "finite H" and "H \<noteq> {}"
  shows "(\<forall>h \<in> H. unat h < m) \<longleftrightarrow> unat (Max H) < m"
  using Max_in [OF assms] Max_ge [OF assms(1)] by (meson le_less_trans word_le_nat_alt)

lemma replayCheck_Max:
  assumes "replay_rel w (set xs)" and "rw_size w \<le> 64" and "unat (rw_size w) = n"
  shows "replayCheck w seq \<longleftrightarrow>
     xs = [] \<or> Max (set xs) < seq \<or> (seq \<notin> set xs \<and> unat (Max (set xs)) < unat seq + n)"
proof (cases "xs = []")
  case False
  then show ?thesis
    using replayCheck_rel [OF assms(1,2), of seq] ball_unat_Max [of "set xs" "unat seq + n"]
    by (simp add: assms(3))
qed (use replayCheck_rel [OF assms(1,2), of seq] in simp)

lemma unat_of_int_u64: "0 \<le> sz \<Longrightarrow> sz \<le> 64 \<Longrightarrow> unat (of_int sz :: u64) = nat sz"
  by (cases sz rule: int_cases) (simp_all add: unat_of_nat)

lemma rw_size_run: "rw_size (fst (replayRun w seqs)) = rw_size w"
  by (induction w seqs rule: replayRun.induct) (simp_all add: case_prod_unfold Let_def)

interpretation replay: replay_guard replayCheck replayAccept replayRun
  "\<lambda>w H. rw_size w \<le> 64 \<and> replay_rel w H"
proof
  fix w H n
  assume "rw_size w \<le> 64 \<and> replay_rel w H" and "replayCheck w n"
  then show "n \<notin> H" by (auto simp: replayCheck_rel)
qed (auto simp: replay_rel_accept split: prod.splits)

section \<open>Properties\<close>

text \<open>
  C10. For every configured window size, no sequence of arriving record numbers makes the
  window accept the same number twice.
\<close>

theorem replay_never_accepts_twice:
  assumes "0 \<le> sz" and "sz \<le> 64"
  shows "distinct (snd (replayRun (newReplayWindow sz) seqs))"
proof -
  have "unat (of_int sz :: u64) \<le> 64"
    using assms by (simp add: unat_of_int_u64)
  then have "rw_size (newReplayWindow sz) \<le> 64"
    by (simp add: newReplayWindow_def word_le_nat_alt)
  then show ?thesis
    using replay.run_distinct [of "newReplayWindow sz" "{}"] replay_rel_init by blast
qed

theorem replay_never_accepts_twice_witness:
  "snd (replayRun (newReplayWindow 64) [5, 3, 5, 90, 3, 27]) = [5, 3, 90, 27] \<and> distinct [5, 3, 90, 27 :: u64]"
proof -
  have e: "snd (replayRun (newReplayWindow 64) [5, 3, 5, 90, 3, 27]) = [5, 3, 90, 27]" by code_simp
  with replay_never_accepts_twice [of 64 "[5, 3, 5, 90, 3, 27]"] show ?thesis by simp
qed

text \<open>
  C23. After any run the check is exact: a number passes if and only if it is above everything
  accepted so far, or it was not accepted and lies less than the window size below the highest
  accepted number (so reordered records inside the window are never lost).
\<close>

theorem replay_check_exact:
  assumes "0 \<le> sz" and "sz \<le> 64"
  shows "let (w, accepted) = replayRun (newReplayWindow sz) seqs in
     replayCheck w seq \<longleftrightarrow>
       accepted = [] \<or> Max (set accepted) < seq \<or>
       (seq \<notin> set accepted \<and> unat (Max (set accepted)) < unat seq + nat sz)"
proof -
  let ?run = "replayRun (newReplayWindow sz) seqs"
  have u: "unat (of_int sz :: u64) = nat sz" using assms by (simp add: unat_of_int_u64)
  have size0: "rw_size (newReplayWindow sz) = of_int sz" by (simp add: newReplayWindow_def)
  have "rw_size (newReplayWindow sz) \<le> 64 \<and> replay_rel (newReplayWindow sz) {}"
    using u assms(2) by (simp add: size0 word_le_nat_alt replay_rel_init)
  from replay.run_rel [OF this, of seqs]
  have rel: "rw_size (fst ?run) \<le> 64" "replay_rel (fst ?run) (set (snd ?run))" by simp_all
  have sz: "unat (rw_size (fst ?run)) = nat sz"
    by (simp add: rw_size_run size0 u)
  have "replayCheck (fst ?run) seq \<longleftrightarrow> snd ?run = [] \<or> Max (set (snd ?run)) < seq \<or>
      (seq \<notin> set (snd ?run) \<and> unat (Max (set (snd ?run))) < unat seq + nat sz)"
    by (rule replayCheck_Max [OF rel(2,1) sz])
  then show ?thesis by (simp add: case_prod_unfold Let_def)
qed

theorem replay_check_exact_witness:
  "replayRun (newReplayWindow 3) [5, 7] = (\<lparr>rw_latest = 7, rw_bitmap = 5, rw_initialized = True, rw_size = 3\<rparr>, [5, 7]) \<and>
   replayCheck \<lparr>rw_latest = 7, rw_bitmap = 5, rw_initialized = True, rw_size = 3\<rparr> 6"
proof -
  have e: "replayRun (newReplayWindow 3) [5, 7] =
      (\<lparr>rw_latest = 7, rw_bitmap = 5, rw_initialized = True, rw_size = 3\<rparr>, [5, 7])" by code_simp
  with replay_check_exact [of 3 "[5, 7]" 6] show ?thesis by (simp add: max_def)
qed

end
