(* ===== verification/Protected_Record.thy ===== *)
theory Protected_Record
  imports Plain_Record Replay_Window Handshake_Fragment Cipher_Suite "HOL-Library.Sublist"
begin

text \<open>
  \<^verbatim>\<open>src/protected_record.go\<close>: sealing and opening of protected records under the unified
  header. The AEAD and the block ciphers behind the sequence masks are third-party code and
  appear as parameters: a record \<open>aead\<close> of functions with \<open>aead_ok\<close>, and masks with
  \<open>mask_ok\<close>, which state their documented behaviour. Destination buffers only avoid
  allocation, so the \<^verbatim>\<open>Into\<close> and in-place variants are one definition; \<^verbatim>\<open>fill\<close> callbacks
  write the whole content, which is an argument here.
\<close>

section \<open>Errors\<close>

definition authenticatedRecordAlert :: "u8 \<Rightarrow> go_error \<Rightarrow> go_error" where
  "authenticatedRecordAlert description err = AuthenticatedRecord description err"

definition errAEADAuthenticationFailureLimit :: go_error where
  "errAEADAuthenticationFailureLimit = ErrorString ''dtls13: AEAD authentication failure limit reached''"

fun authenticatedDescription :: "go_error \<Rightarrow> (u8 \<times> go_error) option" where
  "authenticatedDescription (AuthenticatedRecord d e) = Some (d, AuthenticatedRecord d e)"
| "authenticatedDescription e = None"

definition protectedRecordReceiveError :: "go_error \<Rightarrow> go_error option" where
  "protectedRecordReceiveError err =
     (if errAEADAuthenticationFailureLimit \<in> set (errors_chain err) then Some err
      else case List.map_filter authenticatedDescription (errors_chain err) of
             [] \<Rightarrow> None
           | (d, e) # _ \<Rightarrow> Some (alertError (if d = 0 then alertUnexpectedMessage else d) e))"

section \<open>Ciphers\<close>

record aead =
  ae_overhead :: nat
  ae_seal :: "bytes \<Rightarrow> bytes \<Rightarrow> bytes \<Rightarrow> bytes"
  ae_open :: "bytes \<Rightarrow> bytes \<Rightarrow> bytes \<Rightarrow> bytes option"

type_synonym sequenceMasker = "bytes \<Rightarrow> (u8 \<times> u8) result"

text \<open>
  What the \<^verbatim>\<open>cipher.AEAD\<close> interface promises: the ciphertext is longer by the overhead,
  and opening with the same nonce and additional data gives the plaintext back.
\<close>

definition aead_ok :: "aead \<Rightarrow> bool" where
  "aead_ok a \<longleftrightarrow>
     (\<forall>nonce plain ad. length (ae_seal a nonce plain ad) = length plain + ae_overhead a) \<and>
     (\<forall>nonce plain ad. ae_open a nonce (ae_seal a nonce plain ad) ad = Some plain)"

definition mask_ok :: "sequenceMasker \<Rightarrow> bool" where
  "mask_ok masker \<longleftrightarrow> (\<forall>sample. length sample = 16 \<longrightarrow> (\<exists>b0 b1. masker sample = Inr (b0, b1)))"

definition aesSequenceMask :: "(bytes \<Rightarrow> bytes) \<Rightarrow> sequenceMasker" where
  "aesSequenceMask encrypt sample =
     (if length sample < 16 then Inl (ErrorString ''dtls13: invalid AES sequence mask sample'')
      else let scratch = encrypt (take 16 sample) in Inr (scratch ! 0, scratch ! 1))"

text \<open>\<open>keystream key nonce counter\<close> is the ChaCha20 key stream; \<open>None\<close> is a constructor error.\<close>

definition chachaSequenceMask :: "(bytes \<Rightarrow> bytes \<Rightarrow> u32 \<Rightarrow> bytes result) \<Rightarrow> bytes \<Rightarrow> sequenceMasker" where
  "chachaSequenceMask keystream key sample =
     (if length sample < 16 then Inl (ErrorString ''dtls13: invalid ChaCha20 sequence mask sample'')
      else rbind (keystream key (slice 4 16 sample) (be_value (rev (take 4 sample))))
             (\<lambda>stream. Inr (0 XOR stream ! 0, 0 XOR stream ! 1)))"

definition newSequenceMask ::
  "(bytes \<Rightarrow> (bytes \<Rightarrow> bytes) result) \<Rightarrow> (bytes \<Rightarrow> bytes \<Rightarrow> u32 \<Rightarrow> bytes result) \<Rightarrow>
   cipherSuite \<Rightarrow> bytes \<Rightarrow> sequenceMasker result" where
  "newSequenceMask aesNewCipher keystream suite key =
     (if su_id suite = TLS_CHACHA20_POLY1305_SHA256 then
        if length key \<noteq> 32 then Inl (ErrorString ''dtls13: invalid ChaCha20 sequence mask key'')
        else Inr (chachaSequenceMask keystream key)
      else rbind (aesNewCipher key) (\<lambda>encrypt. Inr (aesSequenceMask encrypt)))"

abbreviation unifiedHeaderFixed :: u8 where "unifiedHeaderFixed \<equiv> 0x20"
abbreviation unifiedHeaderCID :: u8 where "unifiedHeaderCID \<equiv> 0x10"
abbreviation unifiedHeaderSequence16 :: u8 where "unifiedHeaderSequence16 \<equiv> 0x08"
abbreviation unifiedHeaderLength :: u8 where "unifiedHeaderLength \<equiv> 0x04"
abbreviation unifiedHeaderLen16 :: nat where "unifiedHeaderLen16 \<equiv> 5"
abbreviation maxCiphertextLen :: nat where "maxCiphertextLen \<equiv> 16640"
abbreviation sequenceProtectionSampleSize :: nat where "sequenceProtectionSampleSize \<equiv> 16"
abbreviation maxTrafficKeyLen :: nat where "maxTrafficKeyLen \<equiv> 32"
abbreviation maxTrafficIVLen :: nat where "maxTrafficIVLen \<equiv> 16"
abbreviation maxSendingEpoch :: u64 where "maxSendingEpoch \<equiv> 2 ^ 48 - 1"

record recordCipher =
  rc_epoch :: u64
  rc_aead :: aead
  rc_iv :: bytes
  rc_sequenceMask :: sequenceMasker
  rc_nextSequence :: u64
  rc_lastOpened :: u64
  rc_replay :: replayWindow
  rc_authFailures :: u64
  rc_connectionID :: bytes
  rc_hasConnectionID :: bool
  rc_plaintextLimit :: u16
  rc_acceptedCIDs :: "bytes list"
  rc_lastConnectionID :: bytes
  rc_recordLimit :: u64
  rc_authFailureLimit :: u64

definition newRecordCipher ::
  "mac \<Rightarrow> (cipherSuite \<Rightarrow> bytes \<Rightarrow> aead result) \<Rightarrow> (cipherSuite \<Rightarrow> bytes \<Rightarrow> sequenceMasker result) \<Rightarrow>
   cipherSuite \<Rightarrow> bytes \<Rightarrow> u64 \<Rightarrow> int \<Rightarrow> recordCipher result" where
  "newRecordCipher hmac newAEAD newMask suite trafficSecret epoch replaySize =
     (if maxTrafficKeyLen < su_keyLen suite \<or> maxTrafficIVLen < su_ivLen suite
        then Inl (ConfigError ''cipher suite key material exceeds internal storage'')
      else
        rbind (deriveTrafficKeys hmac suite trafficSecret) (\<lambda>keys.
        rbind (newAEAD suite (tk_key keys)) (\<lambda>a.
        rbind (newMask suite (tk_sn keys)) (\<lambda>mask.
          Inr \<lparr>rc_epoch = epoch, rc_aead = a, rc_iv = tk_iv keys, rc_sequenceMask = mask,
               rc_nextSequence = 0, rc_lastOpened = 0, rc_replay = newReplayWindow replaySize,
               rc_authFailures = 0, rc_connectionID = [], rc_hasConnectionID = False,
               rc_plaintextLimit = 0, rc_acceptedCIDs = [], rc_lastConnectionID = [],
               rc_recordLimit = su_recordLimit suite, rc_authFailureLimit = su_authFailureLimit suite\<rparr>))))"

section \<open>Connection IDs of a cipher\<close>

definition setConnectionID :: "recordCipher \<Rightarrow> bytes \<Rightarrow> recordCipher result" where
  "setConnectionID c connectionID =
     (if 255 < length connectionID then Inl (ConfigError ''connection ID exceeds 255 bytes'')
      else Inr (c\<lparr>rc_connectionID := connectionID, rc_hasConnectionID := True,
                  rc_acceptedCIDs := [connectionID]\<rparr>))"

fun cidConflict :: "bytes list \<Rightarrow> bytes \<Rightarrow> bool result" where
  "cidConflict [] cid = Inr False"
| "cidConflict (current # merged) cid =
     (if current = cid then Inr True
      else let shorter = min (length cid) (length current) in
        if take shorter current = take shorter cid
          then Inl (ConfigError ''connection IDs must be prefix-free'')
        else cidConflict merged cid)"

fun mergeAdditions :: "bytes list \<Rightarrow> bytes list \<Rightarrow> bytes list result" where
  "mergeAdditions merged [] = Inr merged"
| "mergeAdditions merged (cid # additions) =
     (if 255 < length cid then Inl (ConfigError ''connection ID exceeds 255 bytes'')
      else rbind (cidConflict merged cid) (\<lambda>duplicate.
             mergeAdditions (if duplicate then merged else merged @ [cid]) additions))"

definition mergeConnectionIDs :: "bytes list \<Rightarrow> bytes list \<Rightarrow> bytes list result" where
  "mergeConnectionIDs existing additions = mergeAdditions existing additions"

definition addAcceptedConnectionIDs :: "recordCipher \<Rightarrow> bytes list \<Rightarrow> recordCipher result" where
  "addAcceptedConnectionIDs c connectionIDs =
     (if \<not> rc_hasConnectionID c then Inl (ProtocolError ''connection ID was not negotiated'')
      else rbind (mergeConnectionIDs (rc_acceptedCIDs c) connectionIDs)
             (\<lambda>merged. Inr (c\<lparr>rc_acceptedCIDs := merged\<rparr>)))"

definition matchConnectionID :: "recordCipher \<Rightarrow> bytes \<Rightarrow> bytes option" where
  "matchConnectionID c datagram =
     find (\<lambda>cid. length cid \<le> length datagram \<and> take (length cid) datagram = cid) (rc_acceptedCIDs c)"

definition headerLen16 :: "recordCipher \<Rightarrow> nat" where
  "headerLen16 c = unifiedHeaderLen16 + length (rc_connectionID c)"

definition shouldRequestKeyUpdateForAuthFailures :: "recordCipher \<Rightarrow> bool" where
  "shouldRequestKeyUpdateForAuthFailures c =
     (if rc_authFailureLimit c = 0 then False
      else let margin = max (min (rc_authFailureLimit c div 4) 1024) 1 in
        rc_authFailureLimit c - margin \<le> rc_authFailures c)"

definition setPlaintextLimit :: "recordCipher \<Rightarrow> u16 \<Rightarrow> recordCipher" where
  "setPlaintextLimit c limit =
     (let effective = effectiveRecordSizeLimit limit in
      c\<lparr>rc_plaintextLimit := if effective = defaultRecordSizeLimit then 0 else effective\<rparr>)"

definition maxContent :: "recordCipher \<Rightarrow> int" where
  "maxContent c = (if rc_plaintextLimit c = 0 then int maxRecordContent else int (unat (rc_plaintextLimit c)) - 1)"

section \<open>Sealing\<close>

definition nonceInto :: "recordCipher \<Rightarrow> u64 \<Rightarrow> bytes" where
  "nonceInto c sequence =
     fold (\<lambda>i nonce. nonce[length nonce - 1 - i := nonce ! (length nonce - 1 - i) XOR ucast (drop_bit (8 * i) sequence)])
       [0..<8] (rc_iv c)"

definition validInnerContentType :: "u8 \<Rightarrow> bool" where
  "validInnerContentType contentType \<longleftrightarrow>
     contentType = recordTypeAlert \<or> contentType = recordTypeHandshake \<or>
     contentType = recordTypeApplicationData \<or> contentType = recordTypeHeartbeat \<or>
     contentType = recordTypeACK \<or> contentType = recordTypeReturnRoutability"

definition unifiedFirst :: "recordCipher \<Rightarrow> bool \<Rightarrow> bool \<Rightarrow> u8" where
  "unifiedFirst c sequence16 lengthPresent =
     unifiedHeaderFixed OR ucast (rc_epoch c AND 3) OR
     (if rc_hasConnectionID c then unifiedHeaderCID else 0) OR
     (if sequence16 then unifiedHeaderSequence16 else 0) OR
     (if lengthPresent then unifiedHeaderLength else 0)"

text \<open>
  The header before sequence protection. Without a connection ID the identifier is empty
  (\<open>cid_ok\<close> below), so that no byte of a reused buffer is left in it.
\<close>

definition unifiedHeader :: "recordCipher \<Rightarrow> bool \<Rightarrow> bool \<Rightarrow> u64 \<Rightarrow> nat \<Rightarrow> bytes" where
  "unifiedHeader c sequence16 lengthPresent sequence ciphertextLen =
     [unifiedFirst c sequence16 lengthPresent] @
     (if rc_hasConnectionID c then rc_connectionID c else replicate (length (rc_connectionID c)) 0) @
     (if sequence16 then putUint16 (ucast sequence) else [ucast sequence]) @
     (if lengthPresent then putUint16 (of_nat ciphertextLen) else [])"

definition protectSequence :: "nat \<Rightarrow> nat \<Rightarrow> u8 \<times> u8 \<Rightarrow> bytes \<Rightarrow> bytes" where
  "protectSequence sequenceOffset sequenceBytes bs header =
     fold (\<lambda>i h. h[sequenceOffset + i := h ! (sequenceOffset + i) XOR (if i = 0 then fst bs else snd bs)])
       [0..<sequenceBytes] header"

definition sealWithHeader :: "recordCipher \<Rightarrow> u8 \<Rightarrow> bytes \<Rightarrow> bool \<Rightarrow> bool \<Rightarrow> recordCipher \<times> bytes result" where
  "sealWithHeader c contentType content sequence16 lengthPresent =
     (if maxSendingEpoch < rc_epoch c then (c, Inl (ProtocolError ''sending epoch exceeds 2^48-1''))
      else if 2 ^ 48 \<le> rc_nextSequence c then (c, Inl (ProtocolError ''record sequence number exhausted''))
      else if rc_recordLimit c \<le> rc_nextSequence c
        then (c, Inl (ProtocolError ''AEAD record usage limit reached; KeyUpdate required''))
      else if \<not> validInnerContentType contentType then (c, Inl (ProtocolError ''invalid protected content type''))
      else if length content = 0 \<and> (contentType = recordTypeHandshake \<or> contentType = recordTypeAlert)
        then (c, Inl (ProtocolError ''zero-length protected Handshake or Alert content''))
      else if maxRecordContent < length content \<or>
              rc_plaintextLimit c \<noteq> 0 \<and> unat (rc_plaintextLimit c) \<le> length content
        then (c, Inl (ProtocolError ''protected record content exceeds record_size_limit''))
      else
        let sequence = rc_nextSequence c;
            plain = content @ [contentType];
            ciphertextLen = length plain + ae_overhead (rc_aead c)
        in if maxCiphertextLen < ciphertextLen then (c, Inl (ProtocolError ''protected record is too large''))
        else
          let sequenceBytes = (if sequence16 then 2 else 1);
              sequenceOffset = 1 + length (rc_connectionID c);
              header = unifiedHeader c sequence16 lengthPresent sequence ciphertextLen;
              ciphertext = ae_seal (rc_aead c) (nonceInto c sequence) plain header
          in if length ciphertext < sequenceProtectionSampleSize
             then (c, Inl (ErrorString ''dtls13: ciphertext too short for sequence protection''))
          else case rc_sequenceMask c (take sequenceProtectionSampleSize ciphertext) of
                 Inl err \<Rightarrow> (c, Inl err)
               | Inr bs \<Rightarrow>
                   (c\<lparr>rc_nextSequence := rc_nextSequence c + 1\<rparr>,
                    Inr (protectSequence sequenceOffset sequenceBytes bs header @ ciphertext)))"

definition seal :: "recordCipher \<Rightarrow> u8 \<Rightarrow> bytes \<Rightarrow> recordCipher \<times> bytes result" where
  "seal c contentType content = sealWithHeader c contentType content True True"

definition sealHandshakeFragmentInto :: "recordCipher \<Rightarrow> handshakeFragment \<Rightarrow> recordCipher \<times> bytes result" where
  "sealHandshakeFragmentInto c fragment =
     (case validateHandshakeFragment fragment of
        Inl err \<Rightarrow> (c, Inl err)
      | Inr _ \<Rightarrow> sealWithHeader c recordTypeHandshake (putHandshakeFragment fragment) True True)"

section \<open>Opening\<close>

definition reconstructSequence :: "u64 \<Rightarrow> u64 \<Rightarrow> nat \<Rightarrow> u64" where
  "reconstructSequence expected truncated bits =
     (let window = push_bit bits 1; half = window div 2; msk = window - 1;
          candidate = (expected AND NOT msk) OR truncated in
      if candidate + half \<le> expected \<and> candidate + window < 2 ^ 48 then candidate + window
      else if expected + half < candidate \<and> window \<le> candidate then candidate - window
      else candidate)"

definition recordCipherMatchesUnifiedEpoch :: "recordCipher \<Rightarrow> u8 \<Rightarrow> bool" where
  "recordCipherMatchesUnifiedEpoch c first \<longleftrightarrow>
     first AND 0xe0 = unifiedHeaderFixed \<and> ucast (first AND 3) = rc_epoch c AND 3"

definition stripPadding :: "bytes \<Rightarrow> bytes" where
  "stripPadding plain = rev (dropWhile (\<lambda>b. b = 0) (rev plain))"

text \<open>The part of \<^verbatim>\<open>openRecord\<close> that runs once the record is authentic.\<close>

definition acceptPlaintext ::
  "recordCipher \<Rightarrow> u64 \<Rightarrow> bytes option \<Rightarrow> bytes \<Rightarrow> nat \<Rightarrow> recordCipher \<times> (bytes \<times> u8 \<times> nat) result" where
  "acceptPlaintext c sequence matchedCID plain consumed =
     (if maxRecordContent + 1 < length plain \<or> rc_plaintextLimit c \<noteq> 0 \<and> unat (rc_plaintextLimit c) < length plain
        then (c, Inl (authenticatedRecordAlert alertRecordOverflow
                (ProtocolError ''DTLSInnerPlaintext exceeds record_size_limit'')))
      else
        let inner = stripPadding plain in
        if inner = [] then (c, Inl (AuthenticatedRecord 0 (ProtocolError ''protected record has no inner content type'')))
        else let contentType = last inner; content = butlast inner in
        if \<not> validInnerContentType contentType
          then (c, Inl (AuthenticatedRecord 0 (ProtocolError ''invalid inner content type'')))
        else if content = [] \<and> (contentType = recordTypeHandshake \<or> contentType = recordTypeAlert)
          then (c, Inl (authenticatedRecordAlert alertUnexpectedMessage
                  (ProtocolError ''zero-length protected Handshake or Alert content'')))
        else if \<not> replayCheck (rc_replay c) sequence
          then (c, Inl (ProtocolError ''duplicate or stale protected record''))
        else
          (c\<lparr>rc_replay := replayAccept (rc_replay c) sequence, rc_lastOpened := sequence,
             rc_lastConnectionID := (case matchedCID of Some cid \<Rightarrow> cid | None \<Rightarrow> rc_lastConnectionID c)\<rparr>,
           Inr (content, contentType, consumed)))"

definition noteAuthFailure :: "recordCipher \<Rightarrow> recordCipher \<times> (bytes \<times> u8 \<times> nat) result" where
  "noteAuthFailure c =
     (let c1 = (if rc_authFailures c < NOT 0 then c\<lparr>rc_authFailures := rc_authFailures c + 1\<rparr> else c) in
      if rc_authFailureLimit c1 \<le> rc_authFailures c1 then (c1, Inl errAEADAuthenticationFailureLimit)
      else (c1, Inl (ProtocolError ''protected record authentication failed'')))"

definition openRecord :: "recordCipher \<Rightarrow> bytes \<Rightarrow> recordCipher \<times> (bytes \<times> u8 \<times> nat) result" where
  "openRecord c datagram =
     (if length datagram < 2
        then (c, Inl (alertError alertDecodeError (ProtocolError ''truncated unified record header'')))
      else let first = datagram ! 0 in
      if first AND 0xe0 \<noteq> unifiedHeaderFixed then (c, Inl (ProtocolError ''unsupported unified record header''))
      else if \<not> recordCipherMatchesUnifiedEpoch c first
        then (c, Inl (ProtocolError ''record epoch does not match cipher epoch''))
      else
        let sequenceBytes = (if first AND unifiedHeaderSequence16 \<noteq> 0 then 2 else 1);
            hasCID = (first AND unifiedHeaderCID \<noteq> 0);
            hasLength = (first AND unifiedHeaderLength \<noteq> 0);
            matched = (if hasCID then matchConnectionID c (drop 1 datagram) else None)
        in if hasCID \<noteq> rc_hasConnectionID c
             then (c, Inl (ProtocolError ''record connection ID presence does not match epoch''))
        else if hasCID \<and> matched = None then (c, Inl (ProtocolError ''record connection ID does not match''))
        else
          let cidLength = (case matched of Some cid \<Rightarrow> length cid | None \<Rightarrow> 0);
              sequenceOffset = 1 + cidLength;
              headerLen = sequenceOffset + sequenceBytes + (if hasLength then 2 else 0)
          in if length datagram < headerLen
               then (c, Inl (alertError alertDecodeError (ProtocolError ''truncated unified record header'')))
          else
            let n = (if hasLength then unat (getUint16 (slice (sequenceOffset + sequenceBytes) headerLen datagram))
                     else length datagram - headerLen)
            in if n < ae_overhead (rc_aead c) + 1 \<or> maxCiphertextLen < n \<or> length datagram < headerLen + n
                 then (c, Inl (ProtocolError ''invalid protected record length''))
            else
              let ciphertext = slice headerLen (headerLen + n) datagram in
              if length ciphertext < sequenceProtectionSampleSize
                then (c, Inl (ProtocolError ''ciphertext too short for sequence protection''))
              else case rc_sequenceMask c (take sequenceProtectionSampleSize ciphertext) of
                     Inl err \<Rightarrow> (c, Inl err)
                   | Inr bs \<Rightarrow>
                       let header = protectSequence sequenceOffset sequenceBytes bs (take headerLen datagram);
                           truncated = (if sequenceBytes = 2
                             then ucast (getUint16 (slice sequenceOffset (sequenceOffset + 2) header))
                             else ucast (header ! sequenceOffset));
                           sequence = reconstructSequence (nextExpected (rc_replay c)) truncated (sequenceBytes * 8)
                       in if 2 ^ 48 \<le> sequence
                            then (c, Inl (ProtocolError ''invalid protected record sequence number''))
                       else case ae_open (rc_aead c) (nonceInto c sequence) ciphertext header of
                              None \<Rightarrow> noteAuthFailure c
                            | Some plain \<Rightarrow> acceptPlaintext c sequence matched plain (headerLen + n))"

section \<open>Sequence reconstruction\<close>

lemma unat_take_bit_mod: "unat (take_bit n w) = unat w mod 2 ^ n"
  by (subst unsigned_take_bit_eq) (simp add: take_bit_eq_mod)

lemma unat_less_64: "unat (w :: u64) < 2 ^ 64"
  using unsigned_less [of w, where 'a = nat] by simp

lemma block_room:
  fixes e n :: nat
  assumes "n \<le> 64" and "e < 2 ^ 64"
  shows "e div 2 ^ n * 2 ^ n + 2 ^ n \<le> 2 ^ 64"
proof -
  have p: "(2 :: nat) ^ 64 = 2 ^ (64 - n) * 2 ^ n" using assms(1) by (simp flip: power_add)
  have "e div 2 ^ n < 2 ^ (64 - n)"
    by (rule less_mult_imp_div_less) (use assms(2) p in simp)
  then have "Suc (e div 2 ^ n) * 2 ^ n \<le> 2 ^ (64 - n) * 2 ^ n" by (intro mult_le_mono1) simp
  then show ?thesis using p by simp
qed

lemma clear_low_bits:
  fixes e t :: u64
  assumes n: "n < 64" and t: "unat t < 2 ^ n"
  shows "unat (e AND NOT (push_bit n 1 - 1) OR t) = unat e div 2 ^ n * 2 ^ n + unat t"
proof -
  let ?hi = "e AND NOT (mask n)"
  have m: "(push_bit n 1 - 1 :: u64) = mask n" by (simp add: mask_eq_exp_minus_1)
  have "unat (take_bit n t) = unat t" using t by (simp add: unat_take_bit_mod)
  then have "take_bit n t = t" using word_unat_eq_iff by blast
  then have tb: "b < n" if "bit t b" for b using that by (metis bit_take_bit_iff)
  have "?hi + t = ?hi OR t"
    by (rule disjunctive_add_eq_or, rule bit_word_eqI) (auto simp: bit_simps dest: tb)
  have "?hi + take_bit n e = ?hi OR take_bit n e"
    by (rule disjunctive_add_eq_or, rule bit_word_eqI) (auto simp: bit_simps)
  also have "\<dots> = e" by (rule bit_word_eqI) (auto simp: bit_simps)
  finally have "?hi = e - take_bit n e" by (metis add_diff_cancel_right')
  moreover have "take_bit n e \<le> e"
    by (simp add: word_le_nat_alt unat_take_bit_mod)
  ultimately have hi: "unat ?hi = unat e div 2 ^ n * 2 ^ n"
    by (simp add: unat_diff_le unat_take_bit_mod minus_mod_eq_div_mult)
  moreover have "unat ?hi + unat t < 2 ^ 64"
    using block_room [of n "unat e"] n t hi unat_less_64 [of e] by simp
  ultimately show ?thesis
    unfolding m \<open>?hi + t = ?hi OR t\<close> [symmetric] by (simp add: unat_word_ariths)
qed

text \<open>
  The arithmetic of the three candidates: \<open>s\<close> and \<open>e\<close> agree in their block of \<open>w\<close> numbers,
  or \<open>s\<close> lies in a neighbouring block.
\<close>

lemma near_block:
  fixes s e w :: nat
  assumes "e < s + w" and "s < e + w" and "0 < w"
  shows "e div w = s div w \<or> e div w = Suc (s div w) \<or> Suc (e div w) = s div w"
proof -
  have "e div w \<le> (s + w) div w" "s div w \<le> (e + w) div w" using assms by (auto intro: div_le_mono)
  then show ?thesis using assms(3) by (simp add: div_add_self2) linarith
qed

lemma block_cases:
  fixes c s q q' r w :: nat
  assumes "c = q * w + r" and "s = q' * w + r" and "q = q' \<or> q = Suc q' \<or> Suc q = q'"
  shows "c = s \<or> c = s + w \<or> c + w = s"
  using assms by auto

lemma reconstructSequence_correct:
  fixes e s :: u64
  assumes bits: "bits = 8 \<or> bits = 16"
    and e: "unat e \<le> 2 ^ 48" and s: "unat s < 2 ^ 48"
    and lo: "unat e < unat s + 2 ^ (bits - 1)" and hi: "unat s \<le> unat e + 2 ^ (bits - 1)"
  shows "reconstructSequence e (take_bit bits s) bits = s"
proof -
  define w :: u64 where "w = push_bit bits 1"
  define H where "H = (2 :: nat) ^ (bits - 1)"
  define t where "t = take_bit bits s"
  define c where "c = (e AND NOT (w - 1)) OR t"
  have W: "(2 :: nat) ^ bits = 2 * H" "unat w = 2 * H" "unat (w div 2) = H" "0 < H" "H \<le> 32768"
    using bits by (auto simp: H_def w_def unat_div push_bit_eq_mult)
  have lo': "unat e < unat s + H" and hi': "unat s \<le> unat e + H" using lo hi by (simp_all add: H_def)
  have t: "unat t = unat s mod (2 * H)" by (simp add: t_def unat_take_bit_mod W(1))
  have c: "unat c = unat e div (2 * H) * (2 * H) + unat s mod (2 * H)"
    using clear_low_bits [of bits t e] bits W(1,4) unfolding c_def w_def by (auto simp: t)
  have blocks: "unat e div (2 * H) = unat s div (2 * H) \<or> unat e div (2 * H) = Suc (unat s div (2 * H)) \<or>
      Suc (unat e div (2 * H)) = unat s div (2 * H)"
    using lo' hi' W(4) by (intro near_block) auto
  have sdiv: "unat s = unat s div (2 * H) * (2 * H) + unat s mod (2 * H)" by (rule div_mult_mod_eq [symmetric])
  have cb: "unat c \<le> unat e + unat s" using c by (simp add: add_mono)
  have add: "unat (c + w div 2) = unat c + H" "unat (c + w) = unat c + 2 * H" "unat (e + w div 2) = unat e + H"
    using cb e s W by (simp_all add: unat_word_ariths)
  have cond: "c + w div 2 \<le> e \<longleftrightarrow> unat c + H \<le> unat e" "c + w < 2 ^ 48 \<longleftrightarrow> unat c + 2 * H < 2 ^ 48"
    "e + w div 2 < c \<longleftrightarrow> unat e + H < unat c" "w \<le> c \<longleftrightarrow> 2 * H \<le> unat c"
    using add W by (simp_all add: word_le_nat_alt word_less_nat_alt)
  have rec: "reconstructSequence e (take_bit bits s) bits =
      (if c + w div 2 \<le> e \<and> c + w < 2 ^ 48 then c + w
       else if e + w div 2 < c \<and> w \<le> c then c - w else c)"
    unfolding reconstructSequence_def Let_def w_def [symmetric] t_def [symmetric] c_def [symmetric] ..
  consider "unat c = unat s" | "unat c = unat s + 2 * H" | "unat c + 2 * H = unat s"
    using block_cases [OF c sdiv blocks] by blast
  then show ?thesis
  proof cases
    case 1
    then have "c = s" using word_unat_eq_iff by blast
    with 1 lo' hi' cond show ?thesis by (simp add: rec)
  next
    case 2
    then have "c - w = s" using W(2) by (simp add: word_unat_eq_iff unat_diff_le word_le_nat_alt)
    moreover have "\<not> (c + w div 2 \<le> e)" "e + w div 2 < c" "w \<le> c" using 2 lo' cond by simp_all
    ultimately show ?thesis by (simp add: rec)
  next
    case 3
    then have "c + w = s" using add(2) by (simp add: word_unat_eq_iff)
    moreover have "c + w div 2 \<le> e" "c + w < 2 ^ 48" using 3 hi' s cond by simp_all
    ultimately show ?thesis by (simp add: rec)
  qed
qed

section \<open>Nonces\<close>

definition xorStep :: "u64 \<Rightarrow> nat \<Rightarrow> bytes \<Rightarrow> bytes" where
  "xorStep s i nonce = nonce[length nonce - 1 - i := nonce ! (length nonce - 1 - i) XOR ucast (drop_bit (8 * i) s)]"

lemma nonceInto_fold: "nonceInto c s = fold (xorStep s) [0..<8] (rc_iv c)"
  by (simp add: nonceInto_def xorStep_def [abs_def])

lemma length_xorStep [simp]: "length (xorStep s i nonce) = length nonce"
  by (simp add: xorStep_def)

lemma nth_xorStep:
  "i < length nonce \<Longrightarrow> j < length nonce \<Longrightarrow>
   xorStep s i nonce ! j =
     (if length nonce - 1 - i = j then nonce ! j XOR ucast (drop_bit (8 * i) s) else nonce ! j)"
  by (auto simp: xorStep_def nth_list_update)

lemma xor_left_cancel:
  fixes a b c :: "'a::len word"
  assumes "a XOR b = a XOR c"
  shows "b = c"
proof -
  have "a XOR (a XOR b) = a XOR (a XOR c)" using assms by simp
  then show ?thesis by (simp flip: xor.assoc)
qed

lemma length_fold_xorStep [simp]: "length (fold (xorStep s) [0..<n] iv) = length iv"
  by (induction n) simp_all

lemma nth_fold_xorStep:
  assumes "n \<le> length iv" and "j < length iv"
  shows "fold (xorStep s) [0..<n] iv ! j =
     (if length iv - n \<le> j then iv ! j XOR ucast (drop_bit (8 * (length iv - 1 - j)) s) else iv ! j)"
  using assms
proof (induction n)
  case (Suc n)
  have "length iv - 1 - n = j \<longleftrightarrow> n = length iv - 1 - j" using Suc.prems by auto
  moreover have "length iv - Suc n \<le> j \<longleftrightarrow> length iv - n \<le> j \<or> length iv - 1 - n = j" using Suc.prems by auto
  moreover have "\<not> (length iv - n \<le> j \<and> length iv - 1 - n = j)" using Suc.prems by auto
  ultimately show ?case
    using Suc by (auto simp: nth_xorStep)
qed simp

lemma word_from_bytes:
  assumes "\<And>k. k < 8 \<Longrightarrow> (ucast (drop_bit (8 * k) s) :: u8) = ucast (drop_bit (8 * k) t)"
  shows "s = (t :: u64)"
proof (rule bit_word_eqI)
  fix b assume "b < LENGTH(64)"
  then have k: "b div 8 < 8" by simp
  have "bit (ucast (drop_bit (8 * (b div 8)) s) :: u8) (b mod 8) = bit (ucast (drop_bit (8 * (b div 8)) t) :: u8) (b mod 8)"
    using assms [OF k] by simp
  then show "bit s b = bit t b" by (simp add: bit_simps)
qed

lemma nonceInto_injective:
  assumes iv: "8 \<le> length (rc_iv c)" and eq: "nonceInto c s = nonceInto c t"
  shows "s = t"
proof (rule word_from_bytes)
  fix k :: nat assume k: "k < 8"
  let ?L = "length (rc_iv c)" and ?j = "length (rc_iv c) - 1 - k"
  have j: "?j < ?L" "?L - 8 \<le> ?j" "?L - 1 - ?j = k" using k iv by auto
  have at: "nonceInto c u ! ?j = rc_iv c ! ?j XOR ucast (drop_bit (8 * k) u)" for u
    unfolding nonceInto_fold using nth_fold_xorStep [OF iv j(1), of u] j by simp
  show "(ucast (drop_bit (8 * k) s) :: u8) = ucast (drop_bit (8 * k) t)"
    by (rule xor_left_cancel [of "rc_iv c ! ?j"]) (simp only: eq flip: at)
qed

lemma length_nonceInto: "length (nonceInto c s) = length (rc_iv c)"
  by (simp add: nonceInto_fold)

section \<open>Headers\<close>

lemma and3_cases: "(e :: u64) AND 3 = 0 \<or> e AND 3 = 1 \<or> e AND 3 = 2 \<or> e AND 3 = 3"
proof -
  have "(3 :: u64) = mask 2" by (simp add: mask_eq_exp_minus_1)
  then have "unat (e AND 3) = unat e mod 4" using unat_take_bit_mod [of 2 e] by (simp add: take_bit_eq_mask)
  then have "unat (e AND 3) < 4" by simp
  then have "unat (e AND 3) = unat (0 :: u64) \<or> unat (e AND 3) = unat (1 :: u64) \<or>
      unat (e AND 3) = unat (2 :: u64) \<or> unat (e AND 3) = unat (3 :: u64)" by auto
  then show ?thesis unfolding word_unat_eq_iff by blast
qed

lemma first_byte_fields:
  fixes x :: u64 and cid wide lp :: bool
  assumes "x = 0 \<or> x = 1 \<or> x = 2 \<or> x = 3"
  defines "f \<equiv> (0x20 OR ucast x OR (if cid then 0x10 else 0) OR (if wide then 8 else 0) OR (if lp then 4 else 0)) :: u8"
  shows "f AND 0xe0 = 0x20 \<and> ucast (f AND 3) = x \<and> (f AND 8 = 0 \<longleftrightarrow> \<not> wide) \<and> (f AND 0x10 = 0 \<longleftrightarrow> \<not> cid) \<and>
    (f AND 4 = 0 \<longleftrightarrow> \<not> lp)"
  using assms(1) unfolding f_def by (elim disjE; cases cid; cases wide; cases lp; simp)

lemma unifiedFirst_fields:
  "unifiedFirst c wide lp AND 0xe0 = unifiedHeaderFixed"
  "ucast (unifiedFirst c wide lp AND 3) = rc_epoch c AND 3"
  "unifiedFirst c wide lp AND unifiedHeaderSequence16 = 0 \<longleftrightarrow> \<not> wide"
  "unifiedFirst c wide lp AND unifiedHeaderCID = 0 \<longleftrightarrow> \<not> rc_hasConnectionID c"
  "unifiedFirst c wide lp AND unifiedHeaderLength = 0 \<longleftrightarrow> \<not> lp"
  unfolding unifiedFirst_def
  using first_byte_fields [OF and3_cases [of "rc_epoch c"], of "rc_hasConnectionID c" wide lp] by blast+

lemma protectSequence_app:
  assumes "off = length a" and "n = length sq" and "n = 1 \<or> n = 2"
  shows "protectSequence off n bs (a @ sq @ b) = a @ map2 (XOR) sq [fst bs, snd bs] @ b"
proof -
  consider x where "sq = [x]" | x y where "sq = [x, y]"
    using assms(2,3) by (auto simp: numeral_2_eq_2 length_Suc_conv)
  then show ?thesis
    by cases (simp_all add: assms(1,2) protectSequence_def upt_rec list_update_append nth_append)
qed

lemma map2_xor_twice:
  "length sq = 1 \<or> length sq = 2 \<Longrightarrow> map2 (XOR) (map2 (XOR) sq [x, y]) [x, y] = (sq :: bytes)"
  by (auto simp: numeral_2_eq_2 length_Suc_conv xor.assoc)

section \<open>Connection IDs\<close>

definition prefix_free :: "bytes list \<Rightarrow> bool" where
  "prefix_free cids \<longleftrightarrow> (\<forall>a \<in> set cids. \<forall>b \<in> set cids. prefix a b \<longrightarrow> a = b)"

lemma prefix_iff_take: "prefix a b \<longleftrightarrow> length a \<le> length b \<and> take (length a) b = a"
proof
  assume "length a \<le> length b \<and> take (length a) b = a"
  then have "b = a @ drop (length a) b" by (metis append_take_drop_id)
  then show "prefix a b" by (rule prefixI)
qed (auto simp: prefix_def)

lemma take_min_prefix:
  "take (min (length b) (length a)) a = take (min (length b) (length a)) b \<longleftrightarrow> prefix a b \<or> prefix b a"
  by (cases "length a \<le> length b") (auto simp: prefix_iff_take min_def)

lemma cidConflict_cases:
  "prefix_free merged \<Longrightarrow>
   cidConflict merged cid =
     (if cid \<in> set merged then Inr True
      else if \<exists>a \<in> set merged. prefix a cid \<or> prefix cid a
        then Inl (ConfigError ''connection IDs must be prefix-free'') else Inr False)"
proof (induction merged)
  case (Cons a merged)
  have pf: "prefix_free merged" using Cons.prems by (simp add: prefix_free_def)
  show ?case
  proof (cases "a = cid")
    case False
    have "cid \<in> set merged \<Longrightarrow> \<not> (prefix a cid \<or> prefix cid a)"
      using Cons.prems False by (auto simp: prefix_free_def)
    with False Cons.IH [OF pf] show ?thesis by (auto simp: take_min_prefix Let_def)
  qed simp
qed simp

lemma prefix_free_snoc:
  "prefix_free (merged @ [cid]) \<longleftrightarrow>
     prefix_free merged \<and> (cid \<in> set merged \<or> \<not> (\<exists>a \<in> set merged. prefix a cid \<or> prefix cid a))"
  by (auto simp: prefix_free_def)

lemma mergeAdditions_iff:
  "prefix_free merged \<Longrightarrow>
   (\<exists>r. mergeAdditions merged additions = Inr r) \<longleftrightarrow>
     list_all (\<lambda>cid. length cid \<le> 255) additions \<and> prefix_free (merged @ additions)"
proof (induction additions arbitrary: merged)
  case (Cons cid additions)
  have sub: "prefix_free (merged @ cid # additions) \<Longrightarrow> prefix_free (merged @ [cid])"
    by (auto simp: prefix_free_def)
  have same: "cid \<in> set merged \<Longrightarrow> prefix_free (merged @ cid # additions) = prefix_free (merged @ additions)"
    by (auto simp: prefix_free_def)
  consider "255 < length cid" | "length cid \<le> 255" "cid \<in> set merged"
    | "length cid \<le> 255" "cid \<notin> set merged" "\<exists>a \<in> set merged. prefix a cid \<or> prefix cid a"
    | "length cid \<le> 255" "cid \<notin> set merged" "\<not> (\<exists>a \<in> set merged. prefix a cid \<or> prefix cid a)"
    by linarith
  then show ?case
  proof cases
    case 4
    then have "prefix_free (merged @ [cid])" using Cons.prems by (simp add: prefix_free_snoc)
    from Cons.IH [OF this] 4 Cons.prems show ?thesis by (simp add: cidConflict_cases)
  next
    case 3
    then have "\<not> prefix_free (merged @ cid # additions)" using sub by (auto simp: prefix_free_snoc)
    with 3 Cons.prems show ?thesis by (simp add: cidConflict_cases)
  qed (use Cons same in \<open>simp_all add: cidConflict_cases\<close>)
qed simp

lemma mergeAdditions_result:
  "mergeAdditions merged additions = Inr r \<Longrightarrow> prefix_free merged \<Longrightarrow> distinct merged \<Longrightarrow>
   prefix_free r \<and> distinct r \<and> set r = set merged \<union> set additions"
proof (induction additions arbitrary: merged)
  case (Cons cid additions)
  then show ?case
    by (auto simp: cidConflict_cases prefix_free_snoc split: if_splits)
qed simp

lemma find_unique:
  "x \<in> set xs \<Longrightarrow> P x \<Longrightarrow> \<forall>y \<in> set xs. P y \<longrightarrow> y = x \<Longrightarrow> find P xs = Some x"
proof (induction xs)
  case (Cons a xs)
  show ?case
  proof (cases "P a")
    case True
    have "a = x" using Cons.prems(3) True by (simp only: list.set ball_simps)
    with True show ?thesis by simp
  next
    case False
    have "x \<in> set xs" using Cons.prems(1,2) False by (metis set_ConsD)
    with False Cons show ?thesis by (metis find.simps(2) list.set_intros(2))
  qed
qed simp

lemma matchConnectionID_unique:
  assumes "prefix_free (rc_acceptedCIDs c)" and "cid \<in> set (rc_acceptedCIDs c)"
  shows "matchConnectionID c (cid @ r) = Some cid"
  unfolding matchConnectionID_def
proof (rule find_unique, simp_all add: assms(2), intro ballI impI)
  fix y assume y: "y \<in> set (rc_acceptedCIDs c)" "length y \<le> length cid + length r \<and> take (length y) cid @ take (length y - length cid) r = y"
  then have "prefix y (cid @ r)" by (simp add: prefix_iff_take)
  then have "prefix y cid \<or> prefix cid y" by (simp add: prefix_same_cases [of _ "cid @ r"])
  then show "y = cid" using assms y(1) by (auto simp: prefix_free_def)
qed

section \<open>Opening what was sealed\<close>

text \<open>
  \<open>paired s r\<close>: the two directions of one epoch. The keys agree, and the identifier the
  sender writes is one the receiver accepts.
\<close>

definition paired :: "recordCipher \<Rightarrow> recordCipher \<Rightarrow> bool" where
  "paired s r \<longleftrightarrow>
     rc_epoch r = rc_epoch s \<and> rc_aead r = rc_aead s \<and> rc_iv r = rc_iv s \<and>
     rc_sequenceMask r = rc_sequenceMask s \<and> rc_hasConnectionID r = rc_hasConnectionID s \<and>
     (if rc_hasConnectionID s
      then prefix_free (rc_acceptedCIDs r) \<and> rc_connectionID s \<in> set (rc_acceptedCIDs r)
      else rc_connectionID s = [])"

definition sealable :: "recordCipher \<Rightarrow> u8 \<Rightarrow> bytes \<Rightarrow> bool" where
  "sealable c ct content \<longleftrightarrow>
     rc_nextSequence c < 2 ^ 48 \<and> validInnerContentType ct \<and>
     (content = [] \<longrightarrow> ct \<noteq> recordTypeHandshake \<and> ct \<noteq> recordTypeAlert) \<and>
     length content \<le> maxRecordContent \<and> length content + 1 + ae_overhead (rc_aead c) \<le> maxCiphertextLen"

lemma sealWithHeader_Inr:
  assumes "sealWithHeader s ct content wide lp = (s', Inr packet)"
  defines "n \<equiv> length content + 1 + ae_overhead (rc_aead s)"
  defines "h \<equiv> unifiedHeader s wide lp (rc_nextSequence s) n"
  defines "x \<equiv> ae_seal (rc_aead s) (nonceInto s (rc_nextSequence s)) (content @ [ct]) h"
  shows "sealable s ct content \<and> 16 \<le> length x \<and> s' = s\<lparr>rc_nextSequence := rc_nextSequence s + 1\<rparr> \<and>
     (\<exists>bs. rc_sequenceMask s (take 16 x) = Inr bs \<and>
        packet = protectSequence (1 + length (rc_connectionID s)) (if wide then 2 else 1) bs h @ x)"
  using assms(1) unfolding sealWithHeader_def sealable_def x_def h_def n_def Let_def
  by (auto split: if_splits sum.splits simp: not_less not_le)

lemma ucast_ucast_take:
  "(ucast (ucast (s :: u64) :: u16) :: u64) = take_bit 16 s" "(ucast (ucast s :: u8) :: u64) = take_bit 8 s"
  by (rule bit_word_eqI; auto simp: bit_simps)+

lemma stripPadding_snoc: "ct \<noteq> 0 \<Longrightarrow> stripPadding (content @ [ct]) = content @ [ct]"
  by (simp add: stripPadding_def)

lemma validInner_nonzero: "validInnerContentType ct \<Longrightarrow> ct \<noteq> 0"
  by (auto simp: validInnerContentType_def)

lemma acceptPlaintext_sealed:
  assumes "sealable s ct content" and "rc_plaintextLimit r = 0 \<or> length content < unat (rc_plaintextLimit r)"
    and "replayCheck (rc_replay r) q"
  shows "acceptPlaintext r q m (content @ [ct]) k =
     (r\<lparr>rc_replay := replayAccept (rc_replay r) q, rc_lastOpened := q,
        rc_lastConnectionID := (case m of Some cid \<Rightarrow> cid | None \<Rightarrow> rc_lastConnectionID r)\<rparr>, Inr (content, ct, k))"
  using assms by (auto simp: acceptPlaintext_def sealable_def Let_def stripPadding_snoc validInner_nonzero)

definition reachable_sequence :: "bool \<Rightarrow> u64 \<Rightarrow> u64 \<Rightarrow> bool" where
  "reachable_sequence wide e q \<longleftrightarrow>
     (let half = (if wide then 2 ^ 15 else 2 ^ 7) in
      unat e \<le> 2 ^ 48 \<and> unat e < unat q + half \<and> unat q \<le> unat e + half)"

lemma truncated_reconstructs:
  assumes "reachable_sequence wide e q" and "unat q < 2 ^ 48"
  shows "reconstructSequence e (if wide then ucast (ucast q :: u16) else ucast (ucast q :: u8)) (if wide then 16 else 8) = q"
  using assms reconstructSequence_correct [of 16 e q] reconstructSequence_correct [of 8 e q]
  by (auto simp: reachable_sequence_def ucast_ucast_take Let_def)

text \<open>The datagram of a sealed record, field by field.\<close>

lemma openRecord_fields:
  assumes first: "d ! 0 = unifiedFirst s wide lp" and pair: "paired s r"
    and d: "d = [unifiedFirst s wide lp] @ rc_connectionID s @ sq' @ lenb @ x @ rest"
    and sq: "length sq' = (if wide then 2 else 1)" and lb: "lenb = (if lp then putUint16 (of_nat (length x)) else [])"
    and n: "ae_overhead (rc_aead r) + 1 \<le> length x" "length x \<le> maxCiphertextLen" "16 \<le> length x"
    and rest: "lp \<or> rest = []"
    and mask: "rc_sequenceMask r (take 16 x) = Inr bs"
    and sqd: "map2 (XOR) sq' [fst bs, snd bs] = (if wide then putUint16 (ucast q) else [ucast q])"
    and q: "reachable_sequence wide (nextExpected (rc_replay r)) q" "q < 2 ^ 48"
    and h: "h = [unifiedFirst s wide lp] @ rc_connectionID s @ map2 (XOR) sq' [fst bs, snd bs] @ lenb"
  shows "openRecord r d =
     (case ae_open (rc_aead r) (nonceInto r q) x h of
        None \<Rightarrow> noteAuthFailure r
      | Some plain \<Rightarrow> acceptPlaintext r q (if rc_hasConnectionID s then Some (rc_connectionID s) else None) plain
          (length h + length x))"
proof -
  let ?sb = "if wide then 2 else 1 :: nat" and ?off = "1 + length (rc_connectionID s)"
  let ?hl = "?off + ?sb + (if lp then 2 else 0)"
  have f: "d ! 0 AND 0xe0 = unifiedHeaderFixed" "recordCipherMatchesUnifiedEpoch r (d ! 0)"
    "(d ! 0 AND unifiedHeaderSequence16 \<noteq> 0) = wide" "(d ! 0 AND unifiedHeaderCID \<noteq> 0) = rc_hasConnectionID r"
    "(d ! 0 AND unifiedHeaderLength \<noteq> 0) = lp"
    using pair by (simp_all add: first unifiedFirst_fields recordCipherMatchesUnifiedEpoch_def paired_def)
  have m: "(if rc_hasConnectionID r then matchConnectionID r (drop 1 d) else None) =
      (if rc_hasConnectionID s then Some (rc_connectionID s) else None)"
    using pair matchConnectionID_unique [of r "rc_connectionID s" "sq' @ lenb @ x @ rest"]
    by (simp add: paired_def d split: if_splits)
  have cl: "(case (if rc_hasConnectionID s then Some (rc_connectionID s) else None) of
      Some cid \<Rightarrow> length cid | None \<Rightarrow> 0) = length (rc_connectionID s)"
    using pair by (simp add: paired_def split: if_splits)
  have lenb: "length lenb = (if lp then 2 else 0)" by (simp add: lb)
  have hl: "length h = ?hl" and hl': "length ([unifiedFirst s wide lp] @ rc_connectionID s @ sq' @ lenb) = ?hl"
    using sq lenb by (simp_all add: h)
  have dl: "length d = ?hl + length x + length rest" using sq lenb by (simp add: d)
  have nn: "(if lp then unat (getUint16 (slice (?off + ?sb) ?hl d)) else length d - ?hl) = length x"
  proof (cases lp)
    case True
    have "slice (?off + ?sb) ?hl d = lenb"
      using True lenb sq by (simp add: d slice_def)
    then show ?thesis using True n by (simp add: lb)
  qed (use rest dl in simp)
  have x: "slice ?hl (?hl + length x) d = x" using sq lenb by (simp add: d slice_def)
  have th: "take ?hl d = [unifiedFirst s wide lp] @ rc_connectionID s @ sq' @ lenb"
    using hl' sq lenb by (simp add: d)
  have ps: "protectSequence ?off ?sb bs (take ?hl d) = h"
    using protectSequence_app [of ?off "[unifiedFirst s wide lp] @ rc_connectionID s" ?sb sq' bs lenb] sq
    unfolding th h by simp
  have tr: "(if ?sb = 2 then ucast (getUint16 (slice ?off (?off + 2) h)) else ucast (h ! ?off)) =
      (if wide then ucast (ucast q :: u16) else ucast (ucast q :: u8) :: u64)"
    by (simp add: h sqd slice_def nth_append)
  have rs: "reconstructSequence (nextExpected (rc_replay r))
      (if wide then ucast (ucast q :: u16) else ucast (ucast q :: u8)) (?sb * 8) = q"
    using truncated_reconstructs [OF q(1)] q(2) by (simp add: word_less_nat_alt split: if_splits)
  have g: "(length d < 2) = False" "(length d < ?hl) = False" "(length x < 16) = False" "(2 ^ 48 \<le> q) = False"
    "(length x < ae_overhead (rc_aead r) + 1 \<or> maxCiphertextLen < length x \<or> length d < ?hl + length x) = False"
    "(rc_hasConnectionID r \<and> (if rc_hasConnectionID s then Some (rc_connectionID s) else None) = None) = False"
    using n dl q(2) pair by (auto simp: paired_def not_le)
  have g': "((d ! 0 AND unifiedHeaderCID = 0) = rc_hasConnectionID r) = False" using f(4) by auto
  show ?thesis
    by (simp only: openRecord_def Let_def f g' m cl nn x ps tr rs mask g hl sum.case if_True if_False simp_thms)
qed

lemma open_sealed:
  assumes a: "aead_ok (rc_aead s)" and pair: "paired s r"
    and sealed: "sealWithHeader s ct content wide lp = (s', Inr packet)" and rest: "lp \<or> rest = []"
    and seq: "reachable_sequence wide (nextExpected (rc_replay r)) (rc_nextSequence s)"
    and fresh: "replayCheck (rc_replay r) (rc_nextSequence s)"
    and limit: "rc_plaintextLimit r = 0 \<or> length content < unat (rc_plaintextLimit r)"
  shows "\<exists>cid. openRecord r (packet @ rest) =
     (r\<lparr>rc_replay := replayAccept (rc_replay r) (rc_nextSequence s), rc_lastOpened := rc_nextSequence s,
        rc_lastConnectionID := cid\<rparr>, Inr (content, ct, length packet))"
proof -
  define q where "q = rc_nextSequence s"
  define n where "n = length content + 1 + ae_overhead (rc_aead s)"
  define h where "h = unifiedHeader s wide lp q n"
  define x where "x = ae_seal (rc_aead s) (nonceInto s q) (content @ [ct]) h"
  define lenb where "lenb = (if lp then putUint16 (of_nat n) else [] :: bytes)"
  define sq where "sq = (if wide then putUint16 (ucast q) else [ucast q] :: bytes)"
  from sealWithHeader_Inr [OF sealed] obtain bs where able: "sealable s ct content" and x16: "16 \<le> length x"
    and mask: "rc_sequenceMask s (take 16 x) = Inr bs"
    and packet: "packet = protectSequence (1 + length (rc_connectionID s)) (if wide then 2 else 1) bs h @ x"
    unfolding x_def h_def n_def q_def by blast
  have xl: "length x = n" using a by (simp add: x_def n_def aead_ok_def)
  have sql: "length sq = (if wide then 2 else 1)" by (simp add: sq_def)
  have h: "h = [unifiedFirst s wide lp] @ rc_connectionID s @ sq @ lenb"
    using pair by (simp add: h_def unifiedHeader_def lenb_def sq_def paired_def split: if_splits)
  let ?sq' = "map2 (XOR) sq [fst bs, snd bs]"
  have ph: "packet = [unifiedFirst s wide lp] @ rc_connectionID s @ ?sq' @ lenb @ x"
    using protectSequence_app [of "1 + length (rc_connectionID s)" "[unifiedFirst s wide lp] @ rc_connectionID s"
        "if wide then 2 else 1" sq bs lenb] sql
    unfolding packet h by simp
  have un: "map2 (XOR) ?sq' [fst bs, snd bs] = sq" by (rule map2_xor_twice) (use sql in auto)
  have keys: "rc_aead r = rc_aead s" "nonceInto r q = nonceInto s q" "rc_sequenceMask r = rc_sequenceMask s"
    using pair by (simp_all add: paired_def nonceInto_def)
  have "openRecord r (packet @ rest) = (case ae_open (rc_aead r) (nonceInto r q) x h of
        None \<Rightarrow> noteAuthFailure r
      | Some plain \<Rightarrow> acceptPlaintext r q (if rc_hasConnectionID s then Some (rc_connectionID s) else None) plain
          (length h + length x))"
  proof (rule openRecord_fields [where s = s and wide = wide and lp = lp and sq' = ?sq' and lenb = lenb and rest = rest and bs = bs])
    show "ae_overhead (rc_aead r) + 1 \<le> length x" "length x \<le> maxCiphertextLen"
      using able keys xl by (simp_all add: n_def sealable_def)
    show "q < 2 ^ 48" using able by (simp add: q_def sealable_def)
  qed (use pair rest seq mask keys x16 xl sql un h in \<open>simp_all add: ph lenb_def sq_def q_def [symmetric]\<close>)
  also have "ae_open (rc_aead r) (nonceInto r q) x h = Some (content @ [ct])"
    using a keys by (simp add: x_def aead_ok_def)
  finally show ?thesis
    using acceptPlaintext_sealed [OF able limit] fresh h ph sql
    by (auto simp: q_def intro: exI [of _ "rc_lastConnectionID r"])
qed

section \<open>Runs of sealing and opening\<close>

text \<open>
  \<open>sealRun\<close> seals a list of contents and keeps, for every record that was emitted, the nonce
  it was encrypted under; \<open>openRun\<close> keeps the sequence number of every record accepted.
\<close>

fun sealRun :: "recordCipher \<Rightarrow> (u8 \<times> bytes) list \<Rightarrow> recordCipher \<times> (bytes \<times> bytes) list" where
  "sealRun c [] = (c, [])"
| "sealRun c ((ct, content) # xs) =
     (case seal c ct content of
        (c1, Inl err) \<Rightarrow> sealRun c1 xs
      | (c1, Inr packet) \<Rightarrow>
          (let (c2, out) = sealRun c1 xs in (c2, (nonceInto c (rc_nextSequence c), packet) # out)))"

fun openRun :: "recordCipher \<Rightarrow> bytes list \<Rightarrow> recordCipher \<times> u64 list" where
  "openRun c [] = (c, [])"
| "openRun c (d # ds) =
     (case openRecord c d of
        (c1, Inl err) \<Rightarrow> openRun c1 ds
      | (c1, Inr res) \<Rightarrow> (let (c2, accepted) = openRun c1 ds in (c2, rc_lastOpened c1 # accepted)))"

lemma sealWithHeader_Inl: "sealWithHeader c ct content wide lp = (c', Inl err) \<Longrightarrow> c' = c"
  by (auto simp: sealWithHeader_def Let_def split: if_splits sum.splits)

lemma sealWithHeader_success:
  assumes "sealWithHeader c ct content wide lp = (c', Inr packet)"
  shows "rc_nextSequence c < rc_recordLimit c \<and> rc_nextSequence c < 2 ^ 48 \<and>
     c' = c\<lparr>rc_nextSequence := rc_nextSequence c + 1\<rparr>"
  using assms by (auto simp: sealWithHeader_def Let_def not_le split: if_splits sum.splits)

lemma unat_Suc_below: "n < (m :: u64) \<Longrightarrow> unat (n + 1) = Suc (unat n)"
  using unat_less_64 [of m] by (simp add: unat_word_ariths word_less_nat_alt)

lemma sealRun_nonces:
  "\<exists>n. map fst (snd (sealRun c xs)) = map (\<lambda>i. nonceInto c (of_nat i)) [unat (rc_nextSequence c)..<n] \<and>
     (unat (rc_nextSequence c) < n \<longrightarrow> n \<le> unat (rc_recordLimit c))"
proof (induction c xs rule: sealRun.induct)
  case (1 c)
  then show ?case by (auto intro: exI [of _ 0])
next
  case (2 c ct content xs)
  obtain c1 res where s: "seal c ct content = (c1, res)" by (cases "seal c ct content")
  show ?case
  proof (cases res)
    case (Inl err)
    with s have "c1 = c" by (auto simp: seal_def dest: sealWithHeader_Inl)
    with 2(1) [OF s [symmetric]] Inl s show ?thesis by simp
  next
    case (Inr packet)
    with s sealWithHeader_success have lim: "rc_nextSequence c < rc_recordLimit c"
      and c1: "c1 = c\<lparr>rc_nextSequence := rc_nextSequence c + 1\<rparr>" by (auto simp: seal_def)
    let ?q = "unat (rc_nextSequence c)"
    have q1: "unat (rc_nextSequence c1) = Suc ?q" using unat_Suc_below [OF lim] c1 by simp
    have nn: "nonceInto c1 = nonceInto c" by (rule ext) (simp add: nonceInto_def c1)
    from 2(2) [OF s [symmetric] Inr] obtain n where
      n: "map fst (snd (sealRun c1 xs)) = map (\<lambda>i. nonceInto c (of_nat i)) [Suc ?q..<n]" "Suc ?q < n \<longrightarrow> n \<le> unat (rc_recordLimit c)"
      unfolding q1 nn by (auto simp: c1)
    have "?q < unat (rc_recordLimit c)" using lim by (simp add: word_less_nat_alt)
    with n s Inr show ?thesis
      by (intro exI [of _ "max (Suc ?q) n"]) (auto simp: case_prod_unfold Let_def upt_rec [of ?q] max_def)
  qed
qed

text \<open>
  \<open>open_shape\<close> lists the ways \<open>openRecord\<close> can end: an early error that leaves the cipher
  alone, a failed authentication, or an authenticated plaintext.
\<close>

definition open_shape :: "recordCipher \<Rightarrow> bytes \<Rightarrow> recordCipher \<times> (bytes \<times> u8 \<times> nat) result \<Rightarrow> bool" where
  "open_shape c d res \<longleftrightarrow>
     (\<exists>err. res = (c, Inl err)) \<or> res = noteAuthFailure c \<or>
     (\<exists>q m plain k. res = acceptPlaintext c q m plain k \<and> q < 2 ^ 48 \<and> k \<le> length d)"

lemma open_shape_intros:
  "open_shape c d (c, Inl err)"
  "open_shape c d (noteAuthFailure c)"
  "q < 2 ^ 48 \<Longrightarrow> k \<le> length d \<Longrightarrow> open_shape c d (acceptPlaintext c q m plain k)"
  by (auto simp: open_shape_def)

lemma open_shape_splits:
  "(b \<Longrightarrow> open_shape c d x) \<Longrightarrow> (\<not> b \<Longrightarrow> open_shape c d y) \<Longrightarrow> open_shape c d (if b then x else y)"
  "(\<And>v. open_shape c d (f v)) \<Longrightarrow> open_shape c d (Let t f)"
  "(\<And>e. open_shape c d (l e)) \<Longrightarrow> (\<And>v. open_shape c d (r v)) \<Longrightarrow> open_shape c d (case sm of Inl e \<Rightarrow> l e | Inr v \<Rightarrow> r v)"
  "open_shape c d no \<Longrightarrow> (\<And>v. open_shape c d (g v)) \<Longrightarrow> open_shape c d (case opt of None \<Rightarrow> no | Some v \<Rightarrow> g v)"
  by (auto split: sum.split option.split)

lemma openRecord_shape: "open_shape c d (openRecord c d)"
  unfolding openRecord_def
  by (intro open_shape_splits open_shape_intros) auto

lemma noteAuthFailure_cases:
  "\<exists>c' err. noteAuthFailure c = (c', Inl err) \<and> (c' = c \<or> c' = c\<lparr>rc_authFailures := rc_authFailures c + 1\<rparr>)"
  by (auto simp: noteAuthFailure_def Let_def)

lemma acceptPlaintext_cases:
  "(\<exists>err. acceptPlaintext c q m plain k = (c, Inl err)) \<or>
   (\<exists>cid content ct. acceptPlaintext c q m plain k =
      (c\<lparr>rc_replay := replayAccept (rc_replay c) q, rc_lastOpened := q, rc_lastConnectionID := cid\<rparr>,
       Inr (content, ct, k)) \<and>
      replayCheck (rc_replay c) q \<and> validInnerContentType ct \<and> content @ [ct] = stripPadding plain)"
  by (auto simp: acceptPlaintext_def Let_def)

lemma openRecord_Inl:
  assumes "openRecord c d = (c', Inl err)"
  shows "c' = c \<or> c' = c\<lparr>rc_authFailures := rc_authFailures c + 1\<rparr>"
  using assms openRecord_shape [of c d] noteAuthFailure_cases [of c] acceptPlaintext_cases [of c]
  unfolding open_shape_def by (metis Inl_Inr_False prod.inject)

lemma openRecord_Inr:
  assumes "openRecord c d = (c', Inr (content, ct, n))"
  shows "\<exists>q cid. replayCheck (rc_replay c) q \<and> q < 2 ^ 48 \<and> validInnerContentType ct \<and> n \<le> length d \<and>
     c' = c\<lparr>rc_replay := replayAccept (rc_replay c) q, rc_lastOpened := q, rc_lastConnectionID := cid\<rparr>"
proof -
  obtain q m plain k where "openRecord c d = acceptPlaintext c q m plain k" and qk: "q < 2 ^ 48" "k \<le> length d"
    using openRecord_shape [of c d] assms noteAuthFailure_cases [of c] by (auto simp: open_shape_def)
  with acceptPlaintext_cases [of c q m plain k] assms show ?thesis by auto
qed

lemma openRun_distinct:
  assumes "rw_size (rc_replay c) \<le> 64" and "replay_rel (rc_replay c) H"
  shows "distinct (snd (openRun c ds)) \<and> set (snd (openRun c ds)) \<inter> H = {}"
  using assms
proof (induction c ds arbitrary: H rule: openRun.induct)
  case (1 c)
  then show ?case by simp
next
  case (2 c d ds)
  obtain c1 res where o: "openRecord c d = (c1, res)" by (cases "openRecord c d")
  show ?case
  proof (cases res)
    case (Inl err)
    with o openRecord_Inl have "rc_replay c1 = rc_replay c" by fastforce
    with 2(1) [OF o [symmetric] Inl] 2(3,4) o Inl show ?thesis by simp
  next
    case (Inr v)
    obtain content ct n where v: "v = (content, ct, n)" by (cases v)
    from openRecord_Inr [of c d c1 content ct n] o Inr v obtain q cid where q: "replayCheck (rc_replay c) q"
      and c1: "c1 = c\<lparr>rc_replay := replayAccept (rc_replay c) q, rc_lastOpened := q, rc_lastConnectionID := cid\<rparr>"
      by blast
    have ok: "rw_size (rc_replay c) \<le> 64 \<and> replay_rel (rc_replay c) H" using 2(3,4) by simp
    have "q \<notin> H" using replay.check_fresh [OF ok q] .
    moreover have "distinct (snd (openRun c1 ds)) \<and> set (snd (openRun c1 ds)) \<inter> insert q H = {}"
      using replay.accept_rel [OF ok, of q] by (intro 2(2) [OF o [symmetric] Inr]) (simp_all add: c1)
    moreover have "snd (openRun c (d # ds)) = q # snd (openRun c1 ds)"
      using o Inr by (simp add: case_prod_unfold Let_def) (simp add: c1)
    ultimately show ?thesis by auto
  qed
qed

section \<open>Properties\<close>

text \<open>A concrete AEAD that satisfies \<open>aead_ok\<close>, and a cipher over it, for concrete inputs.\<close>

definition sampleTag :: "bytes \<Rightarrow> bytes \<Rightarrow> bytes" where
  "sampleTag nonce ad = replicate 16 (sum_list nonce + sum_list ad)"

definition sampleAead :: aead where
  "sampleAead = \<lparr>ae_overhead = 16, ae_seal = (\<lambda>nonce plain ad. plain @ sampleTag nonce ad),
     ae_open = (\<lambda>nonce x ad. if drop (length x - 16) x = sampleTag nonce ad then Some (take (length x - 16) x) else None)\<rparr>"

definition sampleCipher :: recordCipher where
  "sampleCipher = \<lparr>rc_epoch = 3, rc_aead = sampleAead, rc_iv = replicate 12 0,
     rc_sequenceMask = (\<lambda>sample. Inr (sample ! 0, sample ! 1)), rc_nextSequence = 0, rc_lastOpened = 0,
     rc_replay = newReplayWindow 64, rc_authFailures = 0, rc_connectionID = [9], rc_hasConnectionID = True,
     rc_plaintextLimit = 0, rc_acceptedCIDs = [[9]], rc_lastConnectionID = [],
     rc_recordLimit = 2 ^ 24, rc_authFailureLimit = 2 ^ 36\<rparr>"

lemma aead_ok_sample: "aead_ok sampleAead"
  by (simp add: aead_ok_def sampleAead_def sampleTag_def)

lemma sampleCipher_seal:
  "\<exists>packet. seal sampleCipher 23 [1, 2] = (sampleCipher\<lparr>rc_nextSequence := 1\<rparr>, Inr packet)"
  by (simp add: seal_def sealWithHeader_def sampleCipher_def sampleAead_def sampleTag_def validInnerContentType_def Let_def)

text \<open>
  C2. What one side seals the other side opens. For an epoch's two ciphers over a correct AEAD,
  every record the sender emits, with either header format, followed by further records when the
  header carries a length, is opened to the same content and type, with exactly its own bytes
  consumed, whenever its sequence number is within half a window of the expected one and has not
  been seen; the receiver then commits that number to its replay window.
\<close>

theorem protected_record_roundtrip:
  assumes "aead_ok (rc_aead s)" and "paired s r"
    and "sealWithHeader s ct content wide lp = (s', Inr packet)" and "lp \<or> rest = []"
    and "reachable_sequence wide (nextExpected (rc_replay r)) (rc_nextSequence s)"
    and "replayCheck (rc_replay r) (rc_nextSequence s)"
    and "rc_plaintextLimit r = 0 \<or> length content < unat (rc_plaintextLimit r)"
  shows "\<exists>cid. openRecord r (packet @ rest) =
     (r\<lparr>rc_replay := replayAccept (rc_replay r) (rc_nextSequence s), rc_lastOpened := rc_nextSequence s,
        rc_lastConnectionID := cid\<rparr>, Inr (content, ct, length packet))"
  using assms by (rule open_sealed)

theorem protected_record_roundtrip_witness:
  "\<exists>packet r'. seal sampleCipher 23 [1, 2] = (sampleCipher\<lparr>rc_nextSequence := 1\<rparr>, Inr packet) \<and>
     openRecord sampleCipher (packet @ [7, 7]) = (r', Inr ([1, 2], 23, length packet))"
proof -
  obtain packet where p: "seal sampleCipher 23 [1, 2] = (sampleCipher\<lparr>rc_nextSequence := 1\<rparr>, Inr packet)"
    using sampleCipher_seal by blast
  have "\<exists>cid. openRecord sampleCipher (packet @ [7, 7]) =
     (sampleCipher\<lparr>rc_replay := replayAccept (rc_replay sampleCipher) (rc_nextSequence sampleCipher),
        rc_lastOpened := rc_nextSequence sampleCipher, rc_lastConnectionID := cid\<rparr>, Inr ([1, 2], 23, length packet))"
    by (rule protected_record_roundtrip [where wide = True and lp = True])
      (use p aead_ok_sample in \<open>simp_all add: seal_def paired_def prefix_free_def sampleCipher_def
          newReplayWindow_def nextExpected_def replayCheck_def reachable_sequence_def\<close>)
  with p show ?thesis by blast
qed



text \<open>
  C16. Over any sequence of datagrams, genuine, forged, repeated or reordered, the sequence
  numbers of the protected records a receiving cipher accepts are pairwise different: a captured
  record is never delivered twice.
\<close>

theorem accepted_sequences_distinct:
  assumes "rc_replay c = newReplayWindow sz" and "0 \<le> sz" and "sz \<le> 64"
  shows "distinct (snd (openRun c ds))"
proof -
  have "rw_size (rc_replay c) \<le> 64"
    using assms by (simp add: newReplayWindow_def word_le_nat_alt unat_of_int_u64)
  then show ?thesis using openRun_distinct [of c "{}"] assms(1) replay_rel_init by auto
qed

theorem accepted_sequences_distinct_witness:
  "distinct (snd (openRun sampleCipher [[0x2f, 9, 1, 2], [0x2f], []]))"
  by (rule accepted_sequences_distinct [where sz = 64]) (simp_all add: sampleCipher_def)

text \<open>
  C17. A datagram that is refused leaves no trace but the counter of authentication failures: on
  every error path the keys, the replay window, the highest record opened and the peer's
  connection ID are unchanged, so unauthenticated input cannot move the receiver's state.
\<close>

theorem refused_record_keeps_state:
  assumes "openRecord c d = (c', Inl err)"
  shows "c' = c \<or> c' = c\<lparr>rc_authFailures := rc_authFailures c + 1\<rparr>"
  using assms by (rule openRecord_Inl)

theorem refused_record_keeps_state_witness:
  "openRecord sampleCipher [0x2f] =
     (sampleCipher, Inl (alertError alertDecodeError (ProtocolError ''truncated unified record header''))) \<and>
   (sampleCipher = sampleCipher \<or> sampleCipher = sampleCipher\<lparr>rc_authFailures := rc_authFailures sampleCipher + 1\<rparr>)"
proof -
  have e: "openRecord sampleCipher [0x2f] =
     (sampleCipher, Inl (alertError alertDecodeError (ProtocolError ''truncated unified record header'')))"
    by (simp add: openRecord_def)
  from refused_record_keeps_state [OF e] e show ?thesis by blast
qed

text \<open>
  Accepted connection IDs stay prefix-free. Merging succeeds exactly when every new
  identifier has at most 255 bytes and the old and new ones together are prefix-free; the result
  then holds exactly both sets without duplicates.
\<close>

lemma merge_connection_ids_exact:
  assumes "prefix_free existing" and "distinct existing"
  shows "case mergeConnectionIDs existing additions of
       Inl err \<Rightarrow> \<not> (list_all (\<lambda>cid. length cid \<le> 255) additions \<and> prefix_free (existing @ additions))
     | Inr merged \<Rightarrow> list_all (\<lambda>cid. length cid \<le> 255) additions \<and> prefix_free merged \<and> distinct merged \<and>
         set merged = set existing \<union> set additions"
proof (cases "mergeAdditions existing additions")
  case (Inl err)
  then show ?thesis using mergeAdditions_iff [OF assms(1), of additions] by (auto simp: mergeConnectionIDs_def)
next
  case (Inr merged)
  then show ?thesis
    using mergeAdditions_iff [OF assms(1), of additions] mergeAdditions_result [OF Inr assms]
    by (auto simp: mergeConnectionIDs_def)
qed

end
