(* ===== verification/Epoch_Set.thy ===== *)
theory Epoch_Set
  imports Protected_Record "HOL-Library.AList"
begin

text \<open>
  \<^verbatim>\<open>src/epoch.go\<close>: the receive ciphers by epoch. The Go map is an association list with
  distinct keys; the source iterates over it in no particular order, and the selection is
  shown to depend on the set of entries only. Opening a record updates the selected cipher
  through its pointer, which is a write back under its epoch here.
\<close>

record epochSet =
  es_current :: u64
  es_ciphers :: "(u64 \<times> recordCipher) list"

definition newEpochSet :: epochSet where
  "newEpochSet = \<lparr>es_current = 0, es_ciphers = []\<rparr>"

definition epochInstall :: "epochSet \<Rightarrow> recordCipher option \<Rightarrow> epochSet result" where
  "epochInstall s cipher =
     (case cipher of
        None \<Rightarrow> Inl (ErrorString ''dtls13: cannot install nil epoch cipher'')
      | Some c \<Rightarrow>
          if map_of (es_ciphers s) (rc_epoch c) \<noteq> None
            then Inl (ErrorString ''dtls13: epoch cipher already installed'')
          else Inr (s\<lparr>es_ciphers := AList.update (rc_epoch c) c (es_ciphers s)\<rparr>))"

definition epochSetCurrent :: "epochSet \<Rightarrow> u64 \<Rightarrow> epochSet result" where
  "epochSetCurrent s epoch =
     (if epoch < es_current s then Inl (ErrorString ''dtls13: epoch cannot move backwards'')
      else if map_of (es_ciphers s) epoch = None
        then Inl (ErrorString ''dtls13: current epoch cipher is not installed'')
      else Inr (s\<lparr>es_current := epoch\<rparr>))"

definition selectStep :: "u64 \<Rightarrow> u64 \<Rightarrow> u64 \<times> recordCipher \<Rightarrow> (u64 \<times> recordCipher) option \<Rightarrow> (u64 \<times> recordCipher) option" where
  "selectStep current bits entry selected =
     (let (epoch, cipher) = entry in
      if current \<le> epoch \<or> epoch AND 3 \<noteq> bits then selected
      else case selected of
             None \<Rightarrow> Some (epoch, cipher)
           | Some (selectedEpoch, c) \<Rightarrow> if selectedEpoch < epoch then Some (epoch, cipher) else selected)"

definition selectCipherLocked :: "epochSet \<Rightarrow> u8 \<Rightarrow> recordCipher result" where
  "selectCipherLocked s first =
     (let bits = ucast (first AND 3);
          past = (case fold (selectStep (es_current s) bits) (es_ciphers s) None of
                    None \<Rightarrow> Inl (ProtocolError ''no receive keys for record epoch'')
                  | Some (epoch, cipher) \<Rightarrow> Inr cipher)
      in case map_of (es_ciphers s) (es_current s) of
           Some cipher \<Rightarrow> if es_current s AND 3 = bits then Inr cipher else past
         | None \<Rightarrow> past)"

definition epochOpenRecord :: "epochSet \<Rightarrow> bytes \<Rightarrow> epochSet \<times> (bytes \<times> u8 \<times> u64 \<times> nat) result" where
  "epochOpenRecord s datagram =
     (if datagram = [] then (s, Inl (ProtocolError ''empty datagram''))
      else case selectCipherLocked s (datagram ! 0) of
             Inl err \<Rightarrow> (s, Inl err)
           | Inr cipher \<Rightarrow>
               (let (cipher', res) = openRecord cipher datagram;
                    s' = s\<lparr>es_ciphers := AList.update (rc_epoch cipher) cipher' (es_ciphers s)\<rparr>
                in case res of
                     Inl err \<Rightarrow> (s', Inl err)
                   | Inr (content, contentType, consumed) \<Rightarrow>
                       (s', Inr (content, contentType, rc_epoch cipher, consumed))))"

definition epochShouldRequestKeyUpdate :: "epochSet \<Rightarrow> u8 \<Rightarrow> bool" where
  "epochShouldRequestKeyUpdate s first =
     (case selectCipherLocked s first of
        Inl err \<Rightarrow> False
      | Inr cipher \<Rightarrow> shouldRequestKeyUpdateForAuthFailures cipher)"

definition discardBefore :: "epochSet \<Rightarrow> u64 \<Rightarrow> u64 \<Rightarrow> epochSet" where
  "discardBefore s epoch retained =
     s\<lparr>es_ciphers := filter (\<lambda>(candidate, c). \<not> (candidate < epoch \<and> candidate \<noteq> retained)) (es_ciphers s)\<rparr>"

definition epochClear :: "epochSet \<Rightarrow> epochSet" where
  "epochClear s = s\<lparr>es_current := 0, es_ciphers := []\<rparr>"

section \<open>Invariant\<close>

definition epochs_ok :: "epochSet \<Rightarrow> bool" where
  "epochs_ok s \<longleftrightarrow> distinct (map fst (es_ciphers s)) \<and> list_all (\<lambda>p. rc_epoch (snd p) = fst p) (es_ciphers s)"

lemma openRecord_epoch: "rc_epoch (fst (openRecord c d)) = rc_epoch c"
proof (cases "openRecord c d")
  case (Pair c' res)
  then show ?thesis
  proof (cases res)
    case (Inl e)
    with Pair openRecord_Inl [of c d c' e] show ?thesis by auto
  next
    case (Inr v)
    obtain x y z where "v = (x, y, z)" by (cases v)
    with Pair Inr openRecord_Inr [of c d c' x y z] show ?thesis by auto
  qed
qed

lemma list_all_update:
  "list_all (\<lambda>p. rc_epoch (snd p) = fst p) al \<Longrightarrow> rc_epoch v = k \<Longrightarrow>
   list_all (\<lambda>p. rc_epoch (snd p) = fst p) (AList.update k v al)"
  by (induction al) auto

lemma epochs_ok_new: "epochs_ok newEpochSet" "epochs_ok (epochClear s)"
  by (simp_all add: epochs_ok_def newEpochSet_def epochClear_def)

lemma epochs_ok_install: "epochs_ok s \<Longrightarrow> epochInstall s c = Inr s' \<Longrightarrow> epochs_ok s'"
  by (cases c) (auto simp: epochs_ok_def epochInstall_def distinct_update list_all_update split: if_splits)

lemma epochs_ok_setCurrent: "epochs_ok s \<Longrightarrow> epochSetCurrent s e = Inr s' \<Longrightarrow> epochs_ok s'"
  by (auto simp: epochs_ok_def epochSetCurrent_def split: if_splits)

lemma epochs_ok_discard: "epochs_ok s \<Longrightarrow> epochs_ok (discardBefore s e r)"
  by (simp add: epochs_ok_def discardBefore_def distinct_map_filter list_all_iff)

lemma epochs_ok_update:
  "epochs_ok s \<Longrightarrow> rc_epoch c' = rc_epoch c \<Longrightarrow>
   epochs_ok (s\<lparr>es_ciphers := AList.update (rc_epoch c) c' (es_ciphers s)\<rparr>)"
  by (simp add: epochs_ok_def distinct_update list_all_update)

lemma epochs_ok_open: "epochs_ok s \<Longrightarrow> epochs_ok (fst (epochOpenRecord s d))"
proof (cases "d = []")
  case False
  assume ok: "epochs_ok s"
  show ?thesis
  proof (cases "selectCipherLocked s (d ! 0)")
    case (Inr c)
    have "epochs_ok (s\<lparr>es_ciphers := AList.update (rc_epoch c) (fst (openRecord c d)) (es_ciphers s)\<rparr>)"
      by (rule epochs_ok_update [OF ok openRecord_epoch])
    with False Inr show ?thesis
      by (simp add: epochOpenRecord_def case_prod_unfold Let_def split: sum.split)
  qed (use False ok in \<open>simp add: epochOpenRecord_def\<close>)
qed (simp add: epochOpenRecord_def)

section \<open>Selection\<close>

definition eligible :: "u64 \<Rightarrow> u64 \<Rightarrow> u64 \<Rightarrow> bool" where
  "eligible current bits epoch \<longleftrightarrow> epoch < current \<and> epoch AND 3 = bits"

lemma selectStep_eligible:
  "selectStep current bits (e, c) selected =
     (if \<not> eligible current bits e then selected
      else case selected of None \<Rightarrow> Some (e, c) | Some (e', c') \<Rightarrow> if e' < e then Some (e, c) else selected)"
  by (auto simp: selectStep_def eligible_def)

lemma fold_selectStep:
  "case fold (selectStep current bits) al selected of
     None \<Rightarrow> selected = None \<and> (\<forall>e c. (e, c) \<in> set al \<longrightarrow> \<not> eligible current bits e)
   | Some (e, c) \<Rightarrow>
       (selected = Some (e, c) \<or> (e, c) \<in> set al \<and> eligible current bits e) \<and>
       (\<forall>e' c'. (e', c') \<in> set al \<longrightarrow> eligible current bits e' \<longrightarrow> e' \<le> e) \<and>
       (\<forall>e' c'. selected = Some (e', c') \<longrightarrow> e' \<le> e)"
proof (induction al arbitrary: selected)
  case Nil
  then show ?case by (auto split: option.split)
next
  case (Cons a al)
  obtain e c where a: "a = (e, c)" by (cases a)
  from Cons.IH [of "selectStep current bits a selected"] show ?case
    by (auto simp: a selectStep_eligible split: option.splits if_splits)
qed

lemma epochs_ok_map_of: "epochs_ok s \<Longrightarrow> (e, c) \<in> set (es_ciphers s) \<longleftrightarrow> map_of (es_ciphers s) e = Some c"
  by (simp add: epochs_ok_def)

definition candidates :: "epochSet \<Rightarrow> u8 \<Rightarrow> u64 set" where
  "candidates s first = {e. map_of (es_ciphers s) e \<noteq> None \<and> e \<le> es_current s \<and> e AND 3 = ucast (first AND 3)}"

lemma finite_candidates [simp]: "finite (candidates s first)"
  by (rule finite_subset [OF _ finite_dom_map_of [of "es_ciphers s"]]) (auto simp: candidates_def)

lemma selectCipherLocked_Max:
  assumes ok: "epochs_ok s"
  shows "selectCipherLocked s first =
     (if candidates s first = {} then Inl (ProtocolError ''no receive keys for record epoch'')
      else Inr (the (map_of (es_ciphers s) (Max (candidates s first)))))"
proof (cases "es_current s \<in> candidates s first")
  case True
  then have "Max (candidates s first) = es_current s"
    by (intro Max_eqI) (auto simp: candidates_def)
  with True show ?thesis by (auto simp: selectCipherLocked_def candidates_def Let_def)
next
  case False
  let ?f = "fold (selectStep (es_current s) (ucast (first AND 3))) (es_ciphers s) None"
  have cand: "e \<in> candidates s first \<longleftrightarrow>
      (\<exists>c. map_of (es_ciphers s) e = Some c \<and> eligible (es_current s) (ucast (first AND 3)) e)" for e
    using False by (auto simp: candidates_def eligible_def order.order_iff_strict)
  have sel: "selectCipherLocked s first = (case ?f of
      None \<Rightarrow> Inl (ProtocolError ''no receive keys for record epoch'') | Some (epoch, cipher) \<Rightarrow> Inr cipher)"
    using False by (auto simp: selectCipherLocked_def candidates_def Let_def split: option.split)
  show ?thesis
  proof (cases ?f)
    case None
    then have "candidates s first = {}"
      using fold_selectStep [where current = "es_current s" and bits = "ucast (first AND 3)" and al = "es_ciphers s" and selected = None] cand
      by (auto simp: epochs_ok_map_of [OF ok])
    with None sel show ?thesis by simp
  next
    case (Some ec)
    obtain e c where ec: "ec = (e, c)" by (cases ec)
    have m: "map_of (es_ciphers s) e = Some c" and el: "eligible (es_current s) (ucast (first AND 3)) e"
      and up: "\<And>e' c'. map_of (es_ciphers s) e' = Some c' \<Longrightarrow> eligible (es_current s) (ucast (first AND 3)) e' \<Longrightarrow> e' \<le> e"
      using fold_selectStep [where current = "es_current s" and bits = "ucast (first AND 3)" and al = "es_ciphers s" and selected = None] Some ec
      by (auto simp: epochs_ok_map_of [OF ok])
    have "Max (candidates s first) = e"
      using m el up by (intro Max_eqI) (auto simp: cand)
    moreover have "candidates s first \<noteq> {}" using m el cand by blast
    ultimately show ?thesis using Some ec sel m by simp
  qed
qed

section \<open>Properties\<close>



end
