(* ===== verification/Ack.thy ===== *)
theory Ack
  imports Protected_Record
begin

text \<open>
  \<^verbatim>\<open>src/ack.go\<close>: canonical lists of record numbers, the ACK message codec and the splitting
  of an acknowledgement into records that fit the MTU. \<^verbatim>\<open>slices.SortFunc\<close> sorts by the
  order of record numbers, in which equal elements are identical, so it is \<open>sort\<close> here.
\<close>

section \<open>Canonical record numbers\<close>

fun isCanonical :: "recordNumber list \<Rightarrow> bool" where
  "isCanonical (a # b # ns) = (if \<not> recordNumberLess a b then False else isCanonical (b # ns))"
| "isCanonical ns = True"

definition dedupStep :: "recordNumber \<Rightarrow> recordNumber list \<Rightarrow> recordNumber list" where
  "dedupStep number dedup = (if dedup = [] \<or> last dedup \<noteq> number then dedup @ [number] else dedup)"

definition canonicalRecordNumbers :: "recordNumber list \<Rightarrow> recordNumber list" where
  "canonicalRecordNumbers numbers =
     (if isCanonical numbers then numbers else fold dedupStep (sort numbers) [])"

section \<open>The message\<close>

definition canonicalACKPayloadLen :: "recordNumber list \<Rightarrow> nat result" where
  "canonicalACKPayloadLen numbers =
     (if 4095 < length numbers then Inl (ProtocolError ''too many record numbers in ACK'')
      else Inr (2 + 16 * length numbers))"

definition marshalCanonicalACKInto :: "recordNumber list \<Rightarrow> bytes" where
  "marshalCanonicalACKInto numbers =
     putUint16 (of_nat (16 * length numbers)) @
     concat (map (\<lambda>n. putUint64 (rn_epoch n) @ putUint64 (rn_sequence n)) numbers)"

definition marshalCanonicalACK :: "recordNumber list \<Rightarrow> bytes result" where
  "marshalCanonicalACK numbers =
     rbind (canonicalACKPayloadLen numbers) (\<lambda>n. Inr (marshalCanonicalACKInto numbers))"

definition marshalACK :: "recordNumber list \<Rightarrow> bytes result" where
  "marshalACK numbers = marshalCanonicalACK (canonicalRecordNumbers numbers)"

text \<open>The loop of \<^verbatim>\<open>parseACKInto\<close>: \<open>prev\<close> is the last number read.\<close>

fun parseNumbers :: "nat \<Rightarrow> recordNumber option \<Rightarrow> bytes \<Rightarrow> recordNumber list result" where
  "parseNumbers 0 prev b = Inr []"
| "parseNumbers (Suc count) prev b =
     (let number = RecordNumber (getUint64 (slice 0 8 b)) (getUint64 (slice 8 16 b)) in
      if (case prev of None \<Rightarrow> False | Some p \<Rightarrow> \<not> recordNumberLess p number)
        then Inl (ProtocolError ''ACK record numbers are not in increasing order'')
      else rbind (parseNumbers count (Some number) (drop 16 b)) (\<lambda>ns. Inr (number # ns)))"

definition parseACK :: "bytes \<Rightarrow> recordNumber list result" where
  "parseACK b =
     (if length b < 2 then Inl (alertError alertDecodeError (ProtocolError ''truncated ACK''))
      else let n = unat (getUint16 (slice 0 2 b)) in
        if n mod 16 \<noteq> 0 \<or> n \<noteq> length b - 2
          then Inl (alertError alertDecodeError (ProtocolError ''malformed ACK vector length''))
        else parseNumbers (n div 16) None (drop 2 b))"

definition validateACKEpoch :: "recordNumber list \<Rightarrow> u64 \<Rightarrow> unit result" where
  "validateACKEpoch numbers ackEpoch =
     (if list_ex (\<lambda>number. ackEpoch < rn_epoch number) numbers
      then Inl (alertError alertIllegalParameter
             (ProtocolError ''ACK epoch is lower than an acknowledged record epoch''))
      else Inr ())"

section \<open>Records\<close>

definition marshalPlainACKRecord :: "recordNumber list \<Rightarrow> u64 \<Rightarrow> bytes result" where
  "marshalPlainACKRecord numbers sequence =
     rbind (canonicalACKPayloadLen numbers) (\<lambda>payloadLen.
     rbind (allocatePlainRecordWire recordTypeACK 0 sequence (int payloadLen)) (\<lambda>wire.
       Inr (copy_at plainRecordHeaderLen (marshalCanonicalACKInto numbers) wire)))"

function buildChunks ::
  "nat \<Rightarrow> int \<Rightarrow> recordNumber list \<Rightarrow> u64 \<Rightarrow> recordCipher option \<Rightarrow>
   recordCipher option \<times> u64 \<times> bytes list result" where
  "buildChunks maxEntries mtu numbers plainSequence cipher =
     (if numbers = [] \<or> maxEntries = 0 then (cipher, plainSequence, Inr [])
      else
        let chunk = take maxEntries numbers;
            (cipher1, sequence1, wire) =
              (case cipher of
                 None \<Rightarrow> (None, plainSequence + 1, marshalPlainACKRecord chunk plainSequence)
               | Some c \<Rightarrow> (case seal c recordTypeACK (marshalCanonicalACKInto chunk) of
                     (c1, w) \<Rightarrow> (Some c1, plainSequence, w)))
        in case wire of
             Inl err \<Rightarrow> (cipher1, sequence1, Inl err)
           | Inr w \<Rightarrow>
               if mtu < int (length w) then (cipher1, sequence1, Inl (ProtocolError ''ACK record exceeds MTU''))
               else (case buildChunks maxEntries mtu (drop maxEntries numbers) sequence1 cipher1 of
                       (cipher2, sequence2, rest) \<Rightarrow> (cipher2, sequence2, rbind rest (\<lambda>ws. Inr (w # ws)))))"
  by pat_completeness auto
termination
  by (relation "measure (\<lambda>(maxEntries, mtu, numbers, plainSequence, cipher). length numbers)") auto

declare buildChunks.simps [simp del]

text \<open>
  The quotient is negative when the MTU is below the overhead and is refused in either
  rounding.
\<close>

definition ackMaxEntries :: "int \<Rightarrow> recordCipher option \<Rightarrow> int" where
  "ackMaxEntries mtu cipher =
     (let overhead = (case cipher of
            None \<Rightarrow> int plainRecordHeaderLen + 2
          | Some c \<Rightarrow> int (headerLen16 c) + int (ae_overhead (rc_aead c)) + 1 + 2);
          contentMaximum = (case cipher of None \<Rightarrow> int maxRecordContent | Some c \<Rightarrow> maxContent c)
      in min ((mtu - overhead) div 16) ((contentMaximum - 2) div 16))"

definition buildACKRecords ::
  "recordNumber list \<Rightarrow> int \<Rightarrow> u64 \<Rightarrow> recordCipher option \<Rightarrow> recordCipher option \<times> u64 \<times> bytes list result" where
  "buildACKRecords numbers mtu plainSequence cipher =
     (let maxEntries = ackMaxEntries mtu cipher in
      if maxEntries < 1 then (cipher, plainSequence, Inl (ConfigError ''MTU is too small for an ACK record''))
      else
        let canonical = canonicalRecordNumbers numbers in
        if canonical = [] then
          (case cipher of
             None \<Rightarrow> (case marshalPlainACKRecord [] plainSequence of
                 Inl err \<Rightarrow> (None, plainSequence, Inl err)
               | Inr wire \<Rightarrow> (None, plainSequence + 1, Inr [wire]))
           | Some c \<Rightarrow> (case seal c recordTypeACK (marshalCanonicalACKInto []) of
                 (c1, Inl err) \<Rightarrow> (Some c1, plainSequence, Inl err)
               | (c1, Inr wire) \<Rightarrow> (Some c1, plainSequence, Inr [wire])))
        else buildChunks (nat maxEntries) mtu canonical plainSequence cipher)"

section \<open>Canonical lists\<close>

lemma isCanonical_iff: "isCanonical ns \<longleftrightarrow> sorted_wrt (<) ns"
proof (induction ns rule: isCanonical.induct)
  case (1 a b ns)
  then show ?case by (auto simp flip: less_recordNumber_def)
qed auto

lemma fold_dedup:
  "sorted (ds @ ns) \<Longrightarrow> sorted_wrt (<) ds \<Longrightarrow>
   sorted_wrt (<) (fold dedupStep ns ds) \<and> set (fold dedupStep ns ds) = set ds \<union> set ns"
proof (induction ns arbitrary: ds)
  case (Cons n ns)
  show ?case
  proof (cases "ds = [] \<or> last ds \<noteq> n")
    case False
    then have "n \<in> set ds" using last_in_set by metis
    moreover have "sorted (ds @ ns)" using Cons.prems(1) by (auto simp: sorted_append)
    ultimately show ?thesis using Cons False by (auto simp: dedupStep_def)
  next
    case True
    have "x < n" if x: "x \<in> set ds" for x
    proof -
      obtain ys y where ds: "ds = ys @ [y]" using x by (cases ds rule: rev_cases) auto
      then have "y \<le> n" "x \<le> y" "y \<noteq> n" using Cons.prems(1) True x by (auto simp: sorted_append)
      then show ?thesis by simp
    qed
    then have "sorted_wrt (<) (ds @ [n])" using Cons.prems(2) by (simp add: sorted_wrt_append)
    with Cons True show ?thesis by (simp add: dedupStep_def)
  qed
qed simp

lemma canonicalRecordNumbers_set:
  "canonicalRecordNumbers ns = sorted_list_of_set (set ns)"
proof -
  have "sorted_wrt (<) (canonicalRecordNumbers ns) \<and> set (canonicalRecordNumbers ns) = set ns"
    using fold_dedup [of "[]" "sort ns"] by (simp add: canonicalRecordNumbers_def isCanonical_iff)
  then show ?thesis
    by (metis strict_sorted_iff sorted_list_of_set.idem_if_sorted_distinct)
qed

lemma canonical_sorted: "sorted_wrt (<) (canonicalRecordNumbers ns)"
  by (simp add: canonicalRecordNumbers_set)

section \<open>The codec\<close>

lemma length_entries:
  "length (concat (map (\<lambda>n. putUint64 (rn_epoch n) @ putUint64 (rn_sequence n)) ns)) = 16 * length ns"
  by (induction ns) simp_all

lemma length_marshalCanonicalACKInto [simp]: "length (marshalCanonicalACKInto ns) = 2 + 16 * length ns"
  by (simp add: marshalCanonicalACKInto_def length_entries)

definition ack_ok :: "recordNumber list \<Rightarrow> bool" where
  "ack_ok ns \<longleftrightarrow> sorted_wrt (<) ns \<and> length ns \<le> 4095"

definition above :: "recordNumber option \<Rightarrow> recordNumber list \<Rightarrow> bool" where
  "above prev ns \<longleftrightarrow> (case prev of None \<Rightarrow> True | Some p \<Rightarrow> \<forall>n \<in> set ns. p < n)"

lemma parseNumbers_entries:
  "sorted_wrt (<) ns \<Longrightarrow> above prev ns \<Longrightarrow>
   parseNumbers (length ns) prev (concat (map (\<lambda>n. putUint64 (rn_epoch n) @ putUint64 (rn_sequence n)) ns)) = Inr ns"
proof (induction ns arbitrary: prev)
  case (Cons n ns)
  have "above (Some n) ns" using Cons.prems by (simp add: above_def)
  with Cons show ?case
    by (auto simp: slice_def above_def less_recordNumber_def split: option.splits)
qed simp

lemma parseNumbers_sound:
  "parseNumbers k prev b = Inr ns \<Longrightarrow> length b = 16 * k \<Longrightarrow>
   length ns = k \<and> sorted_wrt (<) ns \<and> above prev ns \<and>
   b = concat (map (\<lambda>n. putUint64 (rn_epoch n) @ putUint64 (rn_sequence n)) ns)"
proof (induction k prev b arbitrary: ns rule: parseNumbers.induct)
  case (1 prev b)
  then show ?case by (simp add: above_def split: option.split)
next
  case (2 count prev b)
  let ?n = "RecordNumber (getUint64 (slice 0 8 b)) (getUint64 (slice 8 16 b))"
  from 2(2) obtain ms where ns: "ns = ?n # ms" and rest: "parseNumbers count (Some ?n) (drop 16 b) = Inr ms"
    and fresh: "\<not> (case prev of None \<Rightarrow> False | Some p \<Rightarrow> \<not> recordNumberLess p ?n)"
    by (auto simp: Let_def split: if_splits)
  have IH: "length ms = count \<and> sorted_wrt (<) ms \<and> above (Some ?n) ms \<and>
      drop 16 b = concat (map (\<lambda>n. putUint64 (rn_epoch n) @ putUint64 (rn_sequence n)) ms)"
    using 2(1) [OF refl fresh rest] 2(3) by simp
  have "putUint64 (getUint64 (slice 0 8 b)) @ putUint64 (getUint64 (slice 8 16 b)) = take 16 b"
    using 2(3) by (simp add: put_getUint slice_def flip: take_add)
  with IH fresh ns append_take_drop_id [of 16 b] show ?case
    by (auto simp: above_def less_recordNumber_def [symmetric] split: option.splits)
qed

interpretation ack_codec: canonical_codec marshalCanonicalACK parseACK ack_ok
proof
  fix ns assume ok: "ack_ok ns"
  then show "\<exists>b. marshalCanonicalACK ns = Inr b"
    by (simp add: marshalCanonicalACK_def canonicalACKPayloadLen_def ack_ok_def)
next
  fix ns b assume ok: "ack_ok ns" and "marshalCanonicalACK ns = Inr b"
  then have b: "b = marshalCanonicalACKInto ns"
    by (simp add: marshalCanonicalACK_def canonicalACKPayloadLen_def ack_ok_def)
  have "unat (getUint16 (slice 0 2 b)) = 16 * length ns"
    using ok by (simp add: b marshalCanonicalACKInto_def slice_def ack_ok_def del: of_nat_mult)
  moreover have "parseNumbers (length ns) None (drop 2 b) = Inr ns"
    using ok by (simp add: b marshalCanonicalACKInto_def parseNumbers_entries above_def ack_ok_def)
  moreover have "length b = 2 + 16 * length ns" by (simp add: b)
  ultimately show "parseACK b = Inr ns" by (simp add: parseACK_def Let_def)
next
  fix b ns assume p: "parseACK b = Inr ns"
  let ?n = "unat (getUint16 (slice 0 2 b))"
  from p have len: "2 \<le> length b" "?n mod 16 = 0" "?n = length b - 2"
    and pn: "parseNumbers (?n div 16) None (drop 2 b) = Inr ns"
    by (auto simp: parseACK_def Let_def split: if_splits)
  have "length (drop 2 b) = 16 * (?n div 16)" using len mult_div_mod_eq [of 16 ?n] by simp
  from parseNumbers_sound [OF pn this]
  have ns: "length ns = ?n div 16" "sorted_wrt (<) ns"
    "drop 2 b = concat (map (\<lambda>n. putUint64 (rn_epoch n) @ putUint64 (rn_sequence n)) ns)" by auto
  have n16: "16 * length ns = ?n" using ns(1) len(2) mult_div_mod_eq [of 16 ?n] by simp
  have lt: "?n < 65536" using unsigned_less [of "getUint16 (slice 0 2 b)", where 'a = nat] by simp
  have "of_nat (16 * length ns) = getUint16 (slice 0 2 b)" unfolding n16 by simp
  then have "marshalCanonicalACKInto ns = take 2 b @ drop 2 b"
    using len(1) by (simp only: marshalCanonicalACKInto_def ns(3)) (simp add: put_getUint slice_def)
  then show "ack_ok ns \<and> marshalCanonicalACK ns = Inr b"
    using n16 lt ns(2) by (simp add: marshalCanonicalACK_def canonicalACKPayloadLen_def ack_ok_def)
qed

section \<open>Splitting into records\<close>

text \<open>What the receiver of plaintext ACK records reads from them.\<close>

fun ackedNumbers :: "bytes list \<Rightarrow> recordNumber list result" where
  "ackedNumbers [] = Inr []"
| "ackedNumbers (w # ws) =
     rbind (parsePlainRecordView w) (\<lambda>(r, n).
     rbind (parseACK (pr_payload r)) (\<lambda>acked.
     rbind (ackedNumbers ws) (\<lambda>more. Inr (acked @ more))))"

lemma parseACK_marshal: "ack_ok ns \<Longrightarrow> parseACK (marshalCanonicalACKInto ns) = Inr ns"
  using ack_codec.dec_enc [of ns] by (simp add: marshalCanonicalACK_def canonicalACKPayloadLen_def ack_ok_def)

lemma marshalPlainACKRecord_ok:
  assumes ok: "ack_ok ns" "length ns \<le> 1023" and seq: "sequence < 2 ^ 48"
  shows "\<exists>w. marshalPlainACKRecord ns sequence = Inr w \<and> length w = 15 + 16 * length ns \<and>
     parsePlainRecordView w =
       Inr (\<lparr>pr_typ = recordTypeACK, pr_epoch = 0, pr_sequence = sequence,
             pr_payload = marshalCanonicalACKInto ns\<rparr>, length w)"
proof -
  let ?r = "\<lparr>pr_typ = recordTypeACK, pr_epoch = 0, pr_sequence = sequence, pr_payload = marshalCanonicalACKInto ns\<rparr>"
  have r: "plain_record_ok ?r"
    using ok seq by (simp add: plain_record_ok_def validPlainContentType_def)
  have "marshalPlainRecord ?r = marshalPlainACKRecord ns sequence"
    using ok by (simp add: marshalPlainRecord_def marshalPlainACKRecord_def canonicalACKPayloadLen_def)
  with marshalPlainRecord_ok [OF r] parsePlainRecordView_marshal [OF r, where rest = "[]"] show ?thesis by simp
qed

lemma buildChunks_plain:
  assumes k: "0 < k" "k \<le> 1023" "15 + 16 * int k \<le> mtu"
  shows "sorted_wrt (<) ns \<Longrightarrow> unat sequence + length ns \<le> 2 ^ 48 \<Longrightarrow>
    \<exists>ws. buildChunks k mtu ns sequence None = (None, sequence + of_nat (length ws), Inr ws) \<and>
      ackedNumbers ws = Inr ns \<and> list_all (\<lambda>w. int (length w) \<le> mtu) ws"
proof (induction "length ns" arbitrary: ns sequence rule: less_induct)
  case less
  show ?case
  proof (cases "ns = []")
    case True
    then show ?thesis by (simp add: buildChunks.simps)
  next
    case False
    let ?chunk = "take k ns"
    have pos: "0 < length ns" using False by simp
    have seq: "unat sequence < 2 ^ 48" using less.prems(2) pos by linarith
    have ok: "ack_ok ?chunk" "length ?chunk \<le> 1023"
      using less.prems(1) k by (auto simp: ack_ok_def sorted_wrt_take)
    have "sequence < 2 ^ 48" using seq by (simp add: word_less_nat_alt)
    from marshalPlainACKRecord_ok [OF ok this] obtain w where w: "marshalPlainACKRecord ?chunk sequence = Inr w"
      "length w = 15 + 16 * length ?chunk" and pw: "parsePlainRecordView w =
       Inr (\<lparr>pr_typ = recordTypeACK, pr_epoch = 0, pr_sequence = sequence, pr_payload = marshalCanonicalACKInto ?chunk\<rparr>, length w)"
      by blast
    have fit: "int (length w) \<le> mtu" using w(2) k(3) by (simp add: min_def split: if_splits)
    have s1: "unat (sequence + 1) = Suc (unat sequence)" using seq by (simp add: unat_word_ariths)
    have "length (drop k ns) < length ns" using pos k by simp
    moreover have "unat (sequence + 1) + length (drop k ns) \<le> 2 ^ 48"
      using s1 less.prems(2) pos k(1) by (simp only: length_drop)
    moreover have "sorted_wrt (<) (drop k ns)" using less.prems(1) by (rule sorted_wrt_drop)
    ultimately obtain ws where ws: "buildChunks k mtu (drop k ns) (sequence + 1) None =
        (None, sequence + 1 + of_nat (length ws), Inr ws)" "ackedNumbers ws = Inr (drop k ns)"
        "list_all (\<lambda>w. int (length w) \<le> mtu) ws"
      using less.hyps [of "drop k ns" "sequence + 1"] by blast
    have "buildChunks k mtu ns sequence None = (None, sequence + of_nat (length (w # ws)), Inr (w # ws))"
      using False k w(1) fit ws(1) by (subst buildChunks.simps) (simp add: Let_def add.assoc)
    moreover have "ackedNumbers (w # ws) = Inr ns"
      using pw ws(2) parseACK_marshal [OF ok(1)] by simp
    ultimately show ?thesis using fit ws(3) by (intro exI [of _ "w # ws"]) simp
  qed
qed

section \<open>Properties\<close>

text \<open>
  C32. The ACK message is canonical: a byte string parses to a list of record numbers if and only
  if the list is strictly increasing, has at most 4095 entries and the bytes are its encoding.
\<close>

theorem ack_parse_iff_canonical:
  "parseACK b = Inr ns \<longleftrightarrow>
     sorted_wrt (<) ns \<and> length ns \<le> 4095 \<and> marshalCanonicalACK ns = Inr b"
  using ack_codec.dec_iff [of b ns] by (simp add: ack_ok_def)

text \<open>
  C33. Acknowledgements are never lost by splitting. For an MTU of at least 31 bytes, and as long as
  plaintext sequence numbers remain, building plaintext ACK records always succeeds; every record
  fits the MTU, the sequence counter advances by their number, and together they acknowledge
  exactly the record numbers given, each once and in order.
\<close>

theorem plain_ack_records_complete:
  assumes mtu: "31 \<le> mtu" and seq: "unat sequence + card (set ns) < 2 ^ 48"
  shows "\<exists>ws. buildACKRecords ns mtu sequence None = (None, sequence + of_nat (length ws), Inr ws) \<and>
     ackedNumbers ws = Inr (sorted_list_of_set (set ns)) \<and> list_all (\<lambda>w. int (length w) \<le> mtu) ws"
proof -
  define k where "k = ackMaxEntries mtu None"
  have k: "1 \<le> k" "k \<le> 1023" "15 + 16 * k \<le> mtu"
    using mtu by (auto simp: k_def ackMaxEntries_def Let_def)
  let ?ns = "canonicalRecordNumbers ns"
  have len: "length ?ns = card (set ns)" by (simp add: canonicalRecordNumbers_set)
  show ?thesis
  proof (cases "?ns = []")
    case True
    have "sequence < 2 ^ 48" using seq by (simp add: word_less_nat_alt)
    from marshalPlainACKRecord_ok [of "[]", OF _ _ this] obtain w where
      w: "marshalPlainACKRecord [] sequence = Inr w" "length w = 15"
      "parsePlainRecordView w = Inr (\<lparr>pr_typ = recordTypeACK, pr_epoch = 0, pr_sequence = sequence,
             pr_payload = marshalCanonicalACKInto []\<rparr>, length w)" by (auto simp: ack_ok_def)
    have "set ns = {}" using True by (simp add: canonicalRecordNumbers_set)
    with w True k mtu parseACK_marshal [of "[]"] show ?thesis
      by (intro exI [of _ "[w]"]) (simp add: buildACKRecords_def Let_def k_def [symmetric] ack_ok_def)
  next
    case False
    have "0 < nat k" "nat k \<le> 1023" "15 + 16 * int (nat k) \<le> mtu" using k by auto
    from buildChunks_plain [OF this canonical_sorted, of sequence ns] len seq
    obtain ws where "buildChunks (nat k) mtu ?ns sequence None = (None, sequence + of_nat (length ws), Inr ws)"
      "ackedNumbers ws = Inr ?ns" "list_all (\<lambda>w. int (length w) \<le> mtu) ws" by auto
    with False k show ?thesis
      by (intro exI [of _ ws]) (simp add: buildACKRecords_def Let_def k_def [symmetric] canonicalRecordNumbers_set)
  qed
qed

theorem plain_ack_records_complete_witness:
  "\<exists>ws. buildACKRecords [RecordNumber 0 7, RecordNumber 0 2, RecordNumber 0 7] 31 5 None =
     (None, 5 + of_nat (length ws), Inr ws) \<and>
     ackedNumbers ws = Inr (sorted_list_of_set (set [RecordNumber 0 7, RecordNumber 0 2, RecordNumber 0 7]))"
  using plain_ack_records_complete [of 31 5 "[RecordNumber 0 7, RecordNumber 0 2, RecordNumber 0 7]"]
  by (auto simp: card_insert_if)

end
