(* ===== verification/Reassembly.thy ===== *)
theory Reassembly
  imports Handshake_Fragment "HOL-Library.AList"
begin

text \<open>
  The reassembler of \<^verbatim>\<open>src/handshake.go\<close>. Received bytes are tracked in a bitmap of
  64-bit words; \<open>bitmap_bit\<close> reads it as a set of byte positions. A Go map is an
  association list with distinct keys, so that its size is the length of the list. The
  partial message is updated through its pointer in the source, so every exit of
  \<open>addToPartial\<close> stores it back.
\<close>

section \<open>Bitmaps\<close>

definition bitmap_bit :: "u64 list \<Rightarrow> nat \<Rightarrow> bool" where
  "bitmap_bit bitmap i = bit (bitmap ! (i div 64)) (i mod 64)"

definition rangeMask :: "nat \<Rightarrow> nat \<Rightarrow> u64" where
  "rangeMask start wordEnd =
     (let mask = push_bit (start mod 64) (NOT 0); high = wordEnd mod 64 in
      if high \<noteq> 0 then mask AND (push_bit high 1 - 1) else mask)"

lemma wordEnd_gt: "start < stop \<Longrightarrow> start < min ((start div 64 + 1) * 64) (stop :: nat)"
  by (simp add: min_def) linarith

lemma wordEnd_decreases:
  "start < stop \<Longrightarrow> stop - min ((start div 64 + 1) * 64) stop < stop - (start :: nat)"
  using wordEnd_gt diff_less_mono2 by blast

function bitmapRangeClear :: "u64 list \<Rightarrow> nat \<Rightarrow> nat \<Rightarrow> bool" where
  "bitmapRangeClear bitmap start stop =
     (if start < stop then
        let word = start div 64; wordEnd = min ((word + 1) * 64) stop in
        if bitmap ! word AND rangeMask start wordEnd \<noteq> 0 then False
        else bitmapRangeClear bitmap wordEnd stop
      else True)"
  by pat_completeness auto
termination
  by (relation "measure (\<lambda>(bitmap, start, stop). stop - start)")
    (simp, simp only: in_measure prod.case, blast intro: wordEnd_decreases)

function setBitmapRange :: "u64 list \<Rightarrow> nat \<Rightarrow> nat \<Rightarrow> u64 list" where
  "setBitmapRange bitmap start stop =
     (if start < stop then
        let word = start div 64; wordEnd = min ((word + 1) * 64) stop in
        setBitmapRange (bitmap[word := bitmap ! word OR rangeMask start wordEnd]) wordEnd stop
      else bitmap)"
  by pat_completeness auto
termination
  by (relation "measure (\<lambda>(bitmap, start, stop). stop - start)")
    (simp, simp only: in_measure prod.case, blast intro: wordEnd_decreases)

declare bitmapRangeClear.simps [simp del] setBitmapRange.simps [simp del]

section \<open>State\<close>

record partialMessage =
  pm_typ :: u8
  pm_epoch :: u64
  pm_hasEpoch :: bool
  pm_firstRecord :: recordNumber
  pm_lastRecord :: recordNumber
  pm_hasRecord :: bool
  pm_data :: bytes
  pm_received :: "u64 list"
  pm_count :: nat

record reassembler =
  ra_messages :: "(u16 \<times> partialMessage) list"
  ra_maxSize :: int
  ra_maxMessages :: int
  ra_maxBytes :: int
  ra_allocated :: int
  ra_completedFirstRecord :: recordNumber
  ra_completedLastRecord :: recordNumber

definition newReassemblerWithLimits :: "int \<Rightarrow> int \<Rightarrow> int \<Rightarrow> reassembler" where
  "newReassemblerWithLimits maxSize maxMessages maxBytes =
     \<lparr>ra_messages = [], ra_maxSize = maxSize, ra_maxMessages = maxMessages, ra_maxBytes = maxBytes,
      ra_allocated = 0, ra_completedFirstRecord = RecordNumber 0 0,
      ra_completedLastRecord = RecordNumber 0 0\<rparr>"

definition newPartialMessage :: "handshakeFragment \<Rightarrow> u64 \<Rightarrow> bool \<Rightarrow> partialMessage" where
  "newPartialMessage f epoch protected =
     \<lparr>pm_typ = hf_typ f, pm_epoch = epoch, pm_hasEpoch = protected,
      pm_firstRecord = RecordNumber 0 0, pm_lastRecord = RecordNumber 0 0, pm_hasRecord = False,
      pm_data = replicate (unat (hf_length f)) 0,
      pm_received = replicate ((unat (hf_length f) + 63) div 64) 0, pm_count = 0\<rparr>"

section \<open>Adding a fragment\<close>

definition noteRecord :: "partialMessage \<Rightarrow> recordNumber \<Rightarrow> bool \<Rightarrow> partialMessage" where
  "noteRecord p number hasRecord =
     (if hasRecord then
        if \<not> pm_hasRecord p
        then p\<lparr>pm_firstRecord := number, pm_lastRecord := number, pm_hasRecord := True\<rparr>
        else
          let p1 = (if recordNumberLess number (pm_firstRecord p) then p\<lparr>pm_firstRecord := number\<rparr> else p)
          in if recordNumberLess (pm_lastRecord p1) number then p1\<lparr>pm_lastRecord := number\<rparr> else p1
      else p)"

text \<open>The byte loop for a fragment that overlaps bytes already received; \<open>False\<close> is a conflict.\<close>

fun mergeOverlap :: "partialMessage \<Rightarrow> nat \<Rightarrow> bytes \<Rightarrow> partialMessage \<times> bool" where
  "mergeOverlap p at [] = (p, True)"
| "mergeOverlap p at (v # vs) =
     (let word = at div 64; mask = push_bit (at mod 64) 1;
          seen = (pm_received p ! word AND mask \<noteq> 0) in
      if seen \<and> pm_data p ! at \<noteq> v then (p, False)
      else
        let p1 = (if \<not> seen
                  then p\<lparr>pm_received := (pm_received p)[word := pm_received p ! word OR mask],
                         pm_count := pm_count p + 1\<rparr> else p)
        in mergeOverlap (p1\<lparr>pm_data := (pm_data p1)[at := v]\<rparr>) (at + 1) vs)"

definition storeFragment :: "partialMessage \<Rightarrow> handshakeFragment \<Rightarrow> partialMessage \<times> bool" where
  "storeFragment p f =
     (let start = unat (hf_offset f); stop = start + length (hf_body f) in
      if bitmapRangeClear (pm_received p) start stop
      then (p\<lparr>pm_data := copy_at start (hf_body f) (pm_data p),
              pm_received := setBitmapRange (pm_received p) start stop,
              pm_count := pm_count p + length (hf_body f)\<rparr>, True)
      else mergeOverlap p start (hf_body f))"

definition addToPartial ::
  "reassembler \<Rightarrow> partialMessage \<Rightarrow> handshakeFragment \<Rightarrow> u64 \<Rightarrow> bool \<Rightarrow> recordNumber \<Rightarrow> bool \<Rightarrow>
   reassembler \<times> bytes option result" where
  "addToPartial r p f epoch protected number hasRecord =
     (if pm_typ p \<noteq> hf_typ f \<or> length (pm_data p) \<noteq> unat (hf_length f)
        then (r, Inl (ProtocolError ''inconsistent handshake fragments''))
      else if pm_hasEpoch p \<noteq> protected \<or> protected \<and> pm_epoch p \<noteq> epoch
        then (r, Inl (alertError alertUnexpectedMessage
                (ProtocolError ''handshake message fragments span a key change'')))
      else
        let (p', ok) = storeFragment (noteRecord p number hasRecord) f in
        if \<not> ok
          then (r\<lparr>ra_messages := AList.update (hf_messageSequence f) p' (ra_messages r)\<rparr>,
                Inl (ProtocolError ''overlapping handshake fragments differ''))
        else if pm_count p' = length (pm_data p')
          then (r\<lparr>ra_messages := AList.delete (hf_messageSequence f) (ra_messages r),
                 ra_allocated := ra_allocated r - int (length (pm_data p')),
                 ra_completedFirstRecord := pm_firstRecord p',
                 ra_completedLastRecord := pm_lastRecord p'\<rparr>, Inr (Some (pm_data p')))
        else (r\<lparr>ra_messages := AList.update (hf_messageSequence f) p' (ra_messages r)\<rparr>, Inr None))"

definition addAtEpochAndRecord ::
  "reassembler \<Rightarrow> handshakeFragment \<Rightarrow> u64 \<Rightarrow> bool \<Rightarrow> recordNumber \<Rightarrow> bool \<Rightarrow>
   reassembler \<times> bytes option result" where
  "addAtEpochAndRecord r f epoch protected number hasRecord =
     (if ra_maxSize r < int (unat (hf_length f))
        then (r, Inl (ProtocolError ''handshake message exceeds configured limit''))
      else case map_of (ra_messages r) (hf_messageSequence f) of
        Some p \<Rightarrow> addToPartial r p f epoch protected number hasRecord
      | None \<Rightarrow>
          if ra_maxMessages r \<le> int (length (ra_messages r))
            then (r, Inl (ProtocolError ''too many incomplete handshake messages''))
          else if ra_maxBytes r < ra_allocated r + int (unat (hf_length f))
            then (r, Inl (ProtocolError ''handshake reassembly memory limit exceeded''))
          else if hf_offset f = 0 \<and> length (hf_body f) = unat (hf_length f)
            then (r\<lparr>ra_completedFirstRecord := number, ra_completedLastRecord := number\<rparr>,
                  Inr (Some (hf_body f)))
          else
            let p = newPartialMessage f epoch protected;
                r1 = r\<lparr>ra_messages := AList.update (hf_messageSequence f) p (ra_messages r),
                       ra_allocated := ra_allocated r + int (unat (hf_length f))\<rparr>
            in addToPartial r1 p f epoch protected number hasRecord)"

definition reassemblerAdd :: "reassembler \<Rightarrow> handshakeFragment \<Rightarrow> reassembler \<times> bytes option result" where
  "reassemblerAdd r f = addAtEpochAndRecord r f 0 False (RecordNumber 0 0) False"

definition addProtected :: "reassembler \<Rightarrow> handshakeFragment \<Rightarrow> u64 \<Rightarrow> reassembler \<times> bytes option result" where
  "addProtected r f epoch = addAtEpochAndRecord r f epoch True (RecordNumber 0 0) False"

definition addProtectedRecord ::
  "reassembler \<Rightarrow> handshakeFragment \<Rightarrow> recordNumber \<Rightarrow>
   reassembler \<times> (bytes \<times> recordNumber \<times> recordNumber) option result" where
  "addProtectedRecord r f number =
     (let (r', res) = addAtEpochAndRecord r f (rn_epoch number) True number True in
      case res of
        Inl err \<Rightarrow> (r', Inl err)
      | Inr None \<Rightarrow> (r', Inr None)
      | Inr (Some body) \<Rightarrow>
          (r', Inr (Some (body, ra_completedFirstRecord r', ra_completedLastRecord r'))))"

definition reassemblerHasIncompleteProtected :: "reassembler \<Rightarrow> bool" where
  "reassemblerHasIncompleteProtected r = list_ex (\<lambda>(k, message). pm_hasEpoch message) (ra_messages r)"

section \<open>Bitmaps as sets of positions\<close>

lemma same_word:
  fixes q s e d r :: nat
  assumes "64 * q \<le> s" "s < e" "e \<le> 64 * q + 64" "64 * d + r = e" "r < 64" "0 < r"
  shows "d = q"
proof (rule antisym)
  show "d \<le> q" using assms by (intro leI notI) linarith
  show "q \<le> d" using assms by (intro leI notI) linarith
qed

lemma bit_rangeMask:
  assumes lt: "start < wordEnd" and le: "wordEnd \<le> (start div 64 + 1) * 64" and b: "b < 64"
  shows "bit (rangeMask start wordEnd) b \<longleftrightarrow>
     start \<le> 64 * (start div 64) + b \<and> 64 * (start div 64) + b < wordEnd"
proof -
  have lo: "start mod 64 \<le> b \<longleftrightarrow> start \<le> 64 * (start div 64) + b"
    using div_mult_mod_eq [of start 64] by linarith
  have hi0: "64 * (start div 64) + b < wordEnd" if z: "wordEnd mod 64 = 0"
  proof -
    obtain k where k: "wordEnd = 64 * k" using z by (auto simp: mod_eq_0_iff_dvd dvd_def)
    have "64 * (start div 64) \<le> start" by simp
    with lt k have "start div 64 < k" by linarith
    with k b show ?thesis by linarith
  qed
  have hi: "b < wordEnd mod 64 \<longleftrightarrow> 64 * (start div 64) + b < wordEnd" if "wordEnd mod 64 \<noteq> 0"
  proof -
    have "wordEnd div 64 = start div 64"
      by (rule same_word [of _ start wordEnd _ "wordEnd mod 64"]) (use that lt le in simp_all)
    then show ?thesis by (metis mult_div_mod_eq nat_add_left_cancel_less)
  qed
  have m: "(push_bit h 1 - 1 :: u64) = mask h" for h by (simp add: mask_eq_exp_minus_1)
  show ?thesis
    using lo hi0 hi b unfolding rangeMask_def Let_def m
    by (auto simp: bit_simps)
qed

lemma word_and_eq_0: "(x :: 'a::len word) AND y = 0 \<longleftrightarrow> (\<forall>b < LENGTH('a). \<not> (bit x b \<and> bit y b))"
proof
  assume "x AND y = 0"
  then have "\<not> bit (x AND y) b" for b by simp
  then show "\<forall>b < LENGTH('a). \<not> (bit x b \<and> bit y b)" by (simp add: bit_and_iff)
next
  assume "\<forall>b < LENGTH('a). \<not> (bit x b \<and> bit y b)"
  then show "x AND y = 0" by (intro bit_word_eqI) (simp add: bit_and_iff)
qed

lemma bitmap_positions_split:
  assumes "start < (stop :: nat)"
  shows "(\<forall>i. start \<le> i \<and> i < stop \<longrightarrow> P i) \<longleftrightarrow>
     (\<forall>b < 64. start \<le> 64 * (start div 64) + b \<and> 64 * (start div 64) + b < min ((start div 64 + 1) * 64) stop \<longrightarrow>
        P (64 * (start div 64) + b)) \<and>
     (\<forall>i. min ((start div 64 + 1) * 64) stop \<le> i \<and> i < stop \<longrightarrow> P i)" (is "?L \<longleftrightarrow> ?R1 \<and> ?R2")
proof
  assume ?L
  then show "?R1 \<and> ?R2" using wordEnd_gt [OF assms] by auto
next
  assume R: "?R1 \<and> ?R2"
  show ?L
  proof (intro allI impI)
    fix i assume i: "start \<le> i \<and> i < stop"
    show "P i"
    proof (cases "i < min ((start div 64 + 1) * 64) stop")
      case True
      have "64 * (start div 64) \<le> start" by simp
      with i True R [THEN conjunct1, rule_format, of "i - 64 * (start div 64)"] show ?thesis by auto
    qed (use i R in auto)
  qed
qed

lemma bitmapRangeClear_iff:
  "stop \<le> 64 * length bm \<Longrightarrow>
   bitmapRangeClear bm start stop \<longleftrightarrow> (\<forall>i. start \<le> i \<and> i < stop \<longrightarrow> \<not> bitmap_bit bm i)"
proof (induction bm start stop rule: bitmapRangeClear.induct)
  case (1 bm start stop)
  show ?case
  proof (cases "start < stop")
    case True
    let ?w = "start div 64" and ?e = "min ((start div 64 + 1) * 64) stop"
    have mask: "bm ! ?w AND rangeMask start ?e = 0 \<longleftrightarrow>
        (\<forall>b < 64. start \<le> 64 * ?w + b \<and> 64 * ?w + b < ?e \<longrightarrow> \<not> bitmap_bit bm (64 * ?w + b))"
      using wordEnd_gt [OF True]
      by (auto simp: word_and_eq_0 bit_rangeMask bitmap_bit_def)
    show ?thesis
      using "1.IH" [OF True refl refl] "1.prems" True
      unfolding bitmapRangeClear.simps [of bm start stop] bitmap_positions_split [OF True, of "\<lambda>i. \<not> bitmap_bit bm i"] mask [symmetric]
      by (simp add: Let_def)
  qed (auto simp: bitmapRangeClear.simps)
qed

lemma length_setBitmapRange [simp]: "length (setBitmapRange bm start stop) = length bm"
proof (induction bm start stop rule: setBitmapRange.induct)
  case (1 bm start stop)
  then show ?case by (subst setBitmapRange.simps) (simp add: Let_def)
qed

lemma bitmap_bit_update:
  assumes "w < length bm"
  shows "bitmap_bit (bm[w := x]) i = (if i div 64 = w then bit x (i mod 64) else bitmap_bit bm i)"
  using assms by (auto simp: bitmap_bit_def nth_list_update)

lemma bitmap_bit_setBitmapRange:
  "stop \<le> 64 * length bm \<Longrightarrow> i < 64 * length bm \<Longrightarrow>
   bitmap_bit (setBitmapRange bm start stop) i \<longleftrightarrow> bitmap_bit bm i \<or> (start \<le> i \<and> i < stop)"
proof (induction bm start stop rule: setBitmapRange.induct)
  case (1 bm start stop)
  show ?case
  proof (cases "start < stop")
    case True
    let ?w = "start div 64" and ?e = "min ((start div 64 + 1) * 64) stop"
    have w: "?w < length bm" using True "1.prems" by linarith
    have "bitmap_bit (bm[?w := bm ! ?w OR rangeMask start ?e]) i \<longleftrightarrow>
        bitmap_bit bm i \<or> (start \<le> i \<and> i < ?e)"
    proof (cases "i div 64 = ?w")
      case eq: True
      then have "64 * ?w + i mod 64 = i" by (metis mult_div_mod_eq)
      with wordEnd_gt [OF True] w eq show ?thesis
        by (auto simp: bitmap_bit_update bit_simps bit_rangeMask bitmap_bit_def)
    next
      case False
      then have "\<not> (start \<le> i \<and> i < ?e)" by (auto simp: min_def split: if_splits)
      with False w show ?thesis by (auto simp: bitmap_bit_update)
    qed
    with "1.IH" [OF True refl refl] "1.prems" wordEnd_gt [OF True] True show ?thesis
      by (subst setBitmapRange.simps) (auto simp: Let_def)
  qed (auto simp: setBitmapRange.simps)
qed

section \<open>Partial messages\<close>

text \<open>
  \<open>received_set p\<close> is the set of byte positions the partial message holds; \<open>partial_ok\<close>
  says the bitmap has the right size and the counter counts the set.
\<close>

definition received_set :: "partialMessage \<Rightarrow> nat set" where
  "received_set p = {i. i < length (pm_data p) \<and> bitmap_bit (pm_received p) i}"

definition partial_ok :: "partialMessage \<Rightarrow> bool" where
  "partial_ok p \<longleftrightarrow>
     length (pm_received p) = (length (pm_data p) + 63) div 64 \<and> pm_count p = card (received_set p)"

lemma received_set_bound: "received_set p \<subseteq> {..<length (pm_data p)}"
  by (auto simp: received_set_def)

lemma finite_received_set [simp]: "finite (received_set p)"
  by (rule finite_subset [OF received_set_bound]) simp

lemma partial_ok_count_le: "partial_ok p \<Longrightarrow> pm_count p \<le> length (pm_data p)"
  using card_mono [OF finite_lessThan received_set_bound [of p]] by (simp add: partial_ok_def)

lemma partial_ok_full_iff:
  "partial_ok p \<Longrightarrow> pm_count p = length (pm_data p) \<longleftrightarrow> received_set p = {..<length (pm_data p)}"
  by (metis card_lessThan card_subset_eq finite_lessThan partial_ok_def received_set_bound)

lemma bitmap_word_in_range: "i < n \<Longrightarrow> i div 64 < (n + 63) div (64 :: nat)"
proof -
  assume "i < n"
  then have "(i + 64) div 64 \<le> (n + 63) div 64" by (intro div_le_mono) simp
  then show ?thesis by simp
qed

lemma bitmap_size_enough: "n \<le> 64 * ((n + 63) div (64 :: nat))"
proof -
  have *: "n \<le> 64 * d" if "64 * d + r = n + 63" "r < 64" for d r :: nat
    using that by linarith
  show ?thesis by (rule * [OF mult_div_mod_eq]) simp
qed

lemma partial_ok_new: "partial_ok (newPartialMessage f epoch protected)"
proof -
  have "received_set (newPartialMessage f epoch protected) = {}"
    by (auto simp: received_set_def newPartialMessage_def bitmap_bit_def bitmap_word_in_range)
  then show ?thesis by (simp add: partial_ok_def) (simp add: newPartialMessage_def)
qed

lemma received_set_noteRecord [simp]: "received_set (noteRecord p number h) = received_set p"
  and data_noteRecord [simp]: "pm_data (noteRecord p number h) = pm_data p"
  and partial_ok_noteRecord [simp]: "partial_ok (noteRecord p number h) = partial_ok p"
  and fields_noteRecord [simp]: "pm_typ (noteRecord p number h) = pm_typ p"
    "pm_epoch (noteRecord p number h) = pm_epoch p" "pm_hasEpoch (noteRecord p number h) = pm_hasEpoch p"
  by (auto simp: noteRecord_def received_set_def partial_ok_def Let_def)

text \<open>One step of the byte loop on an unseen byte.\<close>

definition setByte :: "partialMessage \<Rightarrow> nat \<Rightarrow> u8 \<Rightarrow> partialMessage" where
  "setByte p at v =
     (let p1 = (if bitmap_bit (pm_received p) at then p
                else p\<lparr>pm_received := (pm_received p)[at div 64 := pm_received p ! (at div 64) OR push_bit (at mod 64) 1],
                       pm_count := pm_count p + 1\<rparr>)
      in p1\<lparr>pm_data := (pm_data p1)[at := v]\<rparr>)"

lemma mergeOverlap_Cons:
  "mergeOverlap p at (v # vs) =
     (if bitmap_bit (pm_received p) at \<and> pm_data p ! at \<noteq> v then (p, False)
      else mergeOverlap (setByte p at v) (at + 1) vs)"
  by (simp add: setByte_def Let_def bitmap_bit_def and_exp_zero)

declare mergeOverlap.simps(2) [simp del]

lemma setByte_fields [simp]:
  "length (pm_data (setByte p at v)) = length (pm_data p)"
  "pm_data (setByte p at v) = (pm_data p)[at := v]"
  "length (pm_received (setByte p at v)) = length (pm_received p)"
  "pm_typ (setByte p at v) = pm_typ p" "pm_epoch (setByte p at v) = pm_epoch p"
  "pm_hasEpoch (setByte p at v) = pm_hasEpoch p"
  "pm_firstRecord (setByte p at v) = pm_firstRecord p" "pm_lastRecord (setByte p at v) = pm_lastRecord p"
  "pm_hasRecord (setByte p at v) = pm_hasRecord p"
  by (simp_all add: setByte_def Let_def)

lemma bitmap_bit_setByte:
  assumes "at div 64 < length (pm_received p)"
  shows "bitmap_bit (pm_received (setByte p at v)) i \<longleftrightarrow> bitmap_bit (pm_received p) i \<or> i = at"
proof -
  have "i = at" if "i div 64 = at div 64" "i mod 64 = at mod 64"
    using that by (metis mult_div_mod_eq)
  then show ?thesis
    using assms by (auto simp: setByte_def Let_def bitmap_bit_update bit_simps) (auto simp: bitmap_bit_def)
qed

lemma setByte_received:
  assumes ok: "partial_ok p" and at: "at < length (pm_data p)"
  shows "received_set (setByte p at v) = insert at (received_set p)" and "partial_ok (setByte p at v)"
proof -
  have w: "at div 64 < length (pm_received p)"
    using ok at bitmap_word_in_range by (simp add: partial_ok_def)
  show rs: "received_set (setByte p at v) = insert at (received_set p)"
    using at by (auto simp: received_set_def bitmap_bit_setByte [OF w])
  have "at \<in> received_set p \<longleftrightarrow> bitmap_bit (pm_received p) at"
    using at by (simp add: received_set_def)
  then have "pm_count (setByte p at v) = card (insert at (received_set p))"
    using ok by (auto simp: setByte_def Let_def partial_ok_def insert_absorb)
  then show "partial_ok (setByte p at v)"
    using ok rs by (simp add: partial_ok_def)
qed

text \<open>
  \<open>overlay p at vs\<close> is what storing \<open>vs\<close> at position \<open>at\<close> means, whichever of the two
  paths of the source does it; \<open>conflict\<close> says that a byte received earlier differs.
\<close>

definition overlay :: "partialMessage \<Rightarrow> nat \<Rightarrow> bytes \<Rightarrow> partialMessage" where
  "overlay p at vs =
     p\<lparr>pm_data := copy_at at vs (pm_data p),
       pm_received := setBitmapRange (pm_received p) at (at + length vs),
       pm_count := card (received_set p \<union> {at..<at + length vs})\<rparr>"

definition conflict :: "partialMessage \<Rightarrow> nat \<Rightarrow> bytes \<Rightarrow> bool" where
  "conflict p at vs \<longleftrightarrow> (\<exists>i < length vs. at + i \<in> received_set p \<and> pm_data p ! (at + i) \<noteq> vs ! i)"

lemma bitmap_ext:
  assumes len: "length bm = length bm'"
    and eq: "\<And>i. i < 64 * length bm \<Longrightarrow> bitmap_bit bm i = bitmap_bit bm' i"
  shows "bm = bm'"
proof (rule nth_equalityI)
  fix w assume w: "w < length bm"
  show "bm ! w = bm' ! w"
  proof (rule bit_word_eqI)
    fix b assume "b < LENGTH(64)"
    then have b: "b < 64" by simp
    with w have "64 * w + b < 64 * length bm" by linarith
    from eq [OF this] b show "bit (bm ! w) b = bit (bm' ! w) b"
      by (simp add: bitmap_bit_def)
  qed
qed (rule len)

lemma partial_ok_bitmap: "partial_ok p \<Longrightarrow> length (pm_data p) \<le> 64 * length (pm_received p)"
  using bitmap_size_enough by (simp add: partial_ok_def)

lemma received_set_overlay:
  assumes "partial_ok p" and "at + length vs \<le> length (pm_data p)"
  shows "received_set (overlay p at vs) = received_set p \<union> {at..<at + length vs}"
  using assms partial_ok_bitmap [OF assms(1)]
  by (auto simp: received_set_def overlay_def bitmap_bit_setBitmapRange)

lemma overlay_fields [simp]:
  "pm_typ (overlay p at vs) = pm_typ p" "pm_epoch (overlay p at vs) = pm_epoch p"
  "pm_hasEpoch (overlay p at vs) = pm_hasEpoch p"
  "at \<le> length (pm_data p) \<Longrightarrow> length (pm_data (overlay p at vs)) = length (pm_data p)"
  by (simp_all add: overlay_def)

lemma partial_ok_overlay:
  assumes "partial_ok p" and "at + length vs \<le> length (pm_data p)"
  shows "partial_ok (overlay p at vs)"
  using received_set_overlay [OF assms] assms
  by (simp add: partial_ok_def) (simp add: overlay_def)

lemma overlay_Nil: "partial_ok p \<Longrightarrow> overlay p at [] = p"
  by (simp add: overlay_def copy_at_def setBitmapRange.simps partial_ok_def)

lemma copy_at_Cons:
  assumes "at < length dst"
  shows "copy_at at (v # vs) dst = copy_at (Suc at) vs (dst[at := v])"
  using assms by (simp add: copy_at_def take_update_swap take_Suc_conv_app_nth
      list_update_append min_def Suc_diff_Suc)
    (metis Suc_diff_Suc take_Suc_Cons)

lemma overlay_setByte:
  assumes ok: "partial_ok p" and at: "at + length (v # vs) \<le> length (pm_data p)"
  shows "overlay (setByte p at v) (Suc at) vs = overlay p at (v # vs)"
proof -
  have at1: "at < length (pm_data p)" using at by simp
  have w: "at div 64 < length (pm_received p)"
    using ok at1 bitmap_word_in_range by (simp add: partial_ok_def)
  have bm: "setBitmapRange (pm_received (setByte p at v)) (Suc at) (Suc (at + length vs)) =
      setBitmapRange (pm_received p) at (Suc (at + length vs))"
    using at partial_ok_bitmap [OF ok]
    by (intro bitmap_ext) (auto simp: bitmap_bit_setBitmapRange bitmap_bit_setByte [OF w])
  have "insert at (received_set p) \<union> {Suc at..<Suc (at + length vs)} =
      received_set p \<union> {at..<Suc (at + length vs)}" by auto
  with bm at1 setByte_received [OF ok at1, of v] show ?thesis
    by (simp add: overlay_def copy_at_Cons setByte_def Let_def)
qed

lemma conflict_Cons:
  assumes ok: "partial_ok p" and at: "at < length (pm_data p)"
    and no: "at \<in> received_set p \<longrightarrow> pm_data p ! at = v"
  shows "conflict p at (v # vs) \<longleftrightarrow> conflict (setByte p at v) (Suc at) vs"
  using no setByte_received(1) [OF ok at, of v] at
  by (auto simp: conflict_def less_Suc_eq_0_disj)

lemma mergeOverlap_spec:
  "partial_ok p \<Longrightarrow> at + length vs \<le> length (pm_data p) \<Longrightarrow> \<not> conflict p at vs \<Longrightarrow>
   mergeOverlap p at vs = (overlay p at vs, True)"
proof (induction vs arbitrary: p at)
  case Nil
  then show ?case by (simp add: overlay_Nil)
next
  case (Cons v vs)
  have at: "at < length (pm_data p)" using Cons.prems by simp
  have no: "at \<in> received_set p \<longrightarrow> pm_data p ! at = v"
    using Cons.prems(3) by (force simp: conflict_def)
  with Cons at conflict_Cons [OF Cons.prems(1) at no, of vs] setByte_received [OF Cons.prems(1) at]
  show ?case
    by (simp add: mergeOverlap_Cons overlay_setByte) (simp add: received_set_def)
qed

lemma mergeOverlap_conflict:
  "partial_ok p \<Longrightarrow> at + length vs \<le> length (pm_data p) \<Longrightarrow> conflict p at vs \<Longrightarrow>
   \<exists>p'. mergeOverlap p at vs = (p', False) \<and> partial_ok p' \<and> length (pm_data p') = length (pm_data p) \<and>
     pm_typ p' = pm_typ p \<and> pm_epoch p' = pm_epoch p \<and> pm_hasEpoch p' = pm_hasEpoch p"
proof (induction vs arbitrary: p at)
  case Nil
  then show ?case by (simp add: conflict_def)
next
  case (Cons v vs)
  have at: "at < length (pm_data p)" using Cons.prems by simp
  show ?case
  proof (cases "at \<in> received_set p \<longrightarrow> pm_data p ! at = v")
    case True
    with Cons.IH [of "setByte p at v" "Suc at"] Cons.prems at setByte_received [OF Cons.prems(1) at]
    show ?thesis
      by (simp add: mergeOverlap_Cons conflict_Cons received_set_def)
  next
    case False
    with at Cons.prems show ?thesis by (simp add: mergeOverlap_Cons received_set_def)
  qed
qed

lemma clear_no_overlap:
  assumes ok: "partial_ok p" and le: "stop \<le> length (pm_data p)"
  shows "bitmapRangeClear (pm_received p) start stop \<longleftrightarrow> received_set p \<inter> {start..<stop} = {}"
  using le partial_ok_bitmap [OF ok]
  by (auto simp: bitmapRangeClear_iff received_set_def disjoint_iff) (meson leD le_trans not_le)

lemma storeFragment_merge:
  assumes ok: "partial_ok p" and le: "unat (hf_offset f) + length (hf_body f) \<le> length (pm_data p)"
  shows "storeFragment p f = mergeOverlap p (unat (hf_offset f)) (hf_body f)"
proof (cases "bitmapRangeClear (pm_received p) (unat (hf_offset f)) (unat (hf_offset f) + length (hf_body f))")
  case True
  then have dis: "received_set p \<inter> {unat (hf_offset f)..<unat (hf_offset f) + length (hf_body f)} = {}"
    using clear_no_overlap [OF ok le] by simp
  then have "\<not> conflict p (unat (hf_offset f)) (hf_body f)"
    by (fastforce simp: conflict_def)
  moreover have "card (received_set p \<union> {unat (hf_offset f)..<unat (hf_offset f) + length (hf_body f)}) =
      pm_count p + length (hf_body f)"
    using ok dis by (subst card_Un_disjoint) (simp_all add: partial_ok_def)
  ultimately show ?thesis
    using True ok le by (simp add: storeFragment_def mergeOverlap_spec overlay_def Let_def)
qed (simp add: storeFragment_def Let_def)

lemma storeFragment_cases:
  assumes ok: "partial_ok p" and le: "unat (hf_offset f) + length (hf_body f) \<le> length (pm_data p)"
  shows "partial_ok (fst (storeFragment p f))"
    and "length (pm_data (fst (storeFragment p f))) = length (pm_data p)"
  using mergeOverlap_conflict [OF ok le] mergeOverlap_spec [OF ok le] storeFragment_merge [OF ok le]
    partial_ok_overlay [OF ok le] le
  by (cases "conflict p (unat (hf_offset f)) (hf_body f)"; force)+

section \<open>The reassembler's invariant\<close>

definition reassembler_ok :: "reassembler \<Rightarrow> bool" where
  "reassembler_ok r \<longleftrightarrow>
     distinct (map fst (ra_messages r)) \<and>
     (\<forall>(k, p) \<in> set (ra_messages r). partial_ok p \<and> int (length (pm_data p)) \<le> ra_maxSize r) \<and>
     ra_allocated r = (\<Sum>(k, p) \<leftarrow> ra_messages r. int (length (pm_data p))) \<and>
     ra_allocated r \<le> ra_maxBytes r \<and>
     int (length (ra_messages r)) \<le> ra_maxMessages r"

lemma sum_list_update:
  fixes g :: "'b \<Rightarrow> int"
  shows "distinct (map fst al) \<Longrightarrow>
   (\<Sum>(k, p) \<leftarrow> AList.update k0 v al. g p) =
     (\<Sum>(k, p) \<leftarrow> al. g p) + g v - (case map_of al k0 of None \<Rightarrow> 0 | Some q \<Rightarrow> g q)"
  by (induction al) auto

lemma sum_list_delete:
  fixes g :: "'b \<Rightarrow> int"
  shows "distinct (map fst al) \<Longrightarrow>
   (\<Sum>(k, p) \<leftarrow> AList.delete k0 al. g p) =
     (\<Sum>(k, p) \<leftarrow> al. g p) - (case map_of al k0 of None \<Rightarrow> 0 | Some q \<Rightarrow> g q)"
proof (induction al)
  case (Cons a al)
  then show ?case
    by (cases a) (auto simp: delete_idem split: option.splits)
qed simp

lemma length_update_alist:
  "length (AList.update k v al) = (if k \<in> fst ` set al then length al else Suc (length al))"
  by (induction al) auto

lemma set_update_subset: "set (AList.update k v al) \<subseteq> insert (k, v) (set al)"
  by (induction al) auto

lemma reassembler_ok_new:
  "0 \<le> maxMessages \<Longrightarrow> 0 \<le> maxBytes \<Longrightarrow> reassembler_ok (newReassemblerWithLimits maxSize maxMessages maxBytes)"
  by (simp add: reassembler_ok_def newReassemblerWithLimits_def)

lemma reassembler_ok_store:
  assumes "reassembler_ok r" and "map_of (ra_messages r) k = Some p"
    and "partial_ok q" and "length (pm_data q) = length (pm_data p)"
  shows "reassembler_ok (r\<lparr>ra_messages := AList.update k q (ra_messages r)\<rparr>)"
proof -
  have "(k, p) \<in> set (ra_messages r)" using assms(2) by (rule map_of_SomeD)
  then have "k \<in> fst ` set (ra_messages r)" and "int (length (pm_data p)) \<le> ra_maxSize r"
    using assms(1) by (force simp: reassembler_ok_def)+
  with assms set_update_subset [of k q "ra_messages r"] show ?thesis
    by (auto simp: reassembler_ok_def distinct_update sum_list_update length_update_alist)
qed

lemma reassembler_ok_remove:
  assumes "reassembler_ok r" and "map_of (ra_messages r) k = Some p"
    and "n = length (pm_data p)"
  shows "reassembler_ok (r\<lparr>ra_messages := AList.delete k (ra_messages r),
            ra_allocated := ra_allocated r - int n,
            ra_completedFirstRecord := a, ra_completedLastRecord := b\<rparr>)"
proof -
  have "length (AList.delete k (ra_messages r)) \<le> length (ra_messages r)"
    by (rule length_delete_le)
  moreover have "set (AList.delete k (ra_messages r)) \<subseteq> set (ra_messages r)"
    by (auto simp: AList.delete_eq)
  ultimately show ?thesis
    using assms by (auto simp: reassembler_ok_def distinct_delete sum_list_delete)
qed

lemma reassembler_ok_create:
  assumes "reassembler_ok r" and "map_of (ra_messages r) k = None" and "partial_ok p"
    and "int (length (ra_messages r)) < ra_maxMessages r"
    and "ra_allocated r + int n \<le> ra_maxBytes r" and "int n \<le> ra_maxSize r" and "n = length (pm_data p)"
  shows "reassembler_ok (r\<lparr>ra_messages := AList.update k p (ra_messages r),
            ra_allocated := ra_allocated r + int n\<rparr>)"
proof -
  have "k \<notin> fst ` set (ra_messages r)" using assms(2) by (simp add: map_of_eq_None_iff)
  with assms set_update_subset [of k p "ra_messages r"] show ?thesis
    by (auto simp: reassembler_ok_def distinct_update sum_list_update length_update_alist)
qed

lemma reassembler_ok_addToPartial:
  assumes r: "reassembler_ok r" and p: "map_of (ra_messages r) (hf_messageSequence f) = Some p"
    and f: "fragment_ok f"
  shows "reassembler_ok (fst (addToPartial r p f epoch protected number hasRecord))"
proof (cases "pm_typ p \<noteq> hf_typ f \<or> length (pm_data p) \<noteq> unat (hf_length f) \<or>
    pm_hasEpoch p \<noteq> protected \<or> protected \<and> pm_epoch p \<noteq> epoch")
  case True
  with r show ?thesis by (auto simp: addToPartial_def)
next
  case False
  let ?p = "noteRecord p number hasRecord"
  have ok: "partial_ok p" using r map_of_SomeD [OF p] by (auto simp: reassembler_ok_def)
  have le: "unat (hf_offset f) + length (hf_body f) \<le> length (pm_data ?p)"
    using f False by (simp add: fragment_ok_def)
  note cases = storeFragment_cases [of ?p, OF _ le]
  show ?thesis
    using False reassembler_ok_store [OF r p] reassembler_ok_remove [OF r p] cases ok
    by (auto simp: addToPartial_def Let_def split: prod.splits)
qed

lemma reassembler_ok_add:
  assumes r: "reassembler_ok r" and f: "fragment_ok f"
  shows "reassembler_ok (fst (addAtEpochAndRecord r f epoch protected number hasRecord))"
proof (cases "map_of (ra_messages r) (hf_messageSequence f)")
  case None
  let ?p = "newPartialMessage f epoch protected" and ?k = "hf_messageSequence f"
  let ?r = "r\<lparr>ra_messages := AList.update ?k ?p (ra_messages r),
              ra_allocated := ra_allocated r + int (unat (hf_length f))\<rparr>"
  have len: "length (pm_data ?p) = unat (hf_length f)" by (simp add: newPartialMessage_def)
  have create: "reassembler_ok (fst (addToPartial ?r ?p f epoch protected number hasRecord))"
    if "int (length (ra_messages r)) < ra_maxMessages r" "int (unat (hf_length f)) \<le> ra_maxSize r"
      "ra_allocated r + int (unat (hf_length f)) \<le> ra_maxBytes r"
  proof (rule reassembler_ok_addToPartial [OF _ _ f])
    show "reassembler_ok ?r" using that len by (intro reassembler_ok_create [OF r None partial_ok_new]) simp_all
    show "map_of (ra_messages ?r) ?k = Some ?p" by (simp add: update_conv)
  qed
  have "reassembler_ok (r\<lparr>ra_completedFirstRecord := number, ra_completedLastRecord := number\<rparr>)"
    using r by (simp add: reassembler_ok_def)
  with None create r show ?thesis
    by (simp add: addAtEpochAndRecord_def Let_def)
next
  case (Some p)
  with reassembler_ok_addToPartial [OF r Some f] r show ?thesis
    by (simp add: addAtEpochAndRecord_def)
qed

section \<open>Reassembly returns the message\<close>

text \<open>
  \<open>holds_of m p\<close>: every byte the partial message holds is the message's byte.
  \<open>firstBody\<close> feeds fragments of any messages, in arrival order and with the record that
  carried each, and returns the first body completed for one message sequence.
\<close>

definition holds_of :: "handshakeMessage \<Rightarrow> partialMessage \<Rightarrow> bool" where
  "holds_of m p \<longleftrightarrow>
     partial_ok p \<and> pm_typ p = hm_typ m \<and> length (pm_data p) = length (hm_body m) \<and>
     (\<forall>i \<in> received_set p. pm_data p ! i = hm_body m ! i)"

fun firstBody :: "reassembler \<Rightarrow> u16 \<Rightarrow> (handshakeFragment \<times> recordNumber) list \<Rightarrow> bytes option" where
  "firstBody r s [] = None"
| "firstBody r s ((f, number) # fs) =
     (let (r', res) = addProtectedRecord r f number in
      case res of
        Inr (Some (body, fst_rec, lst_rec)) \<Rightarrow>
          if hf_messageSequence f = s then Some body else firstBody r' s fs
      | _ \<Rightarrow> firstBody r' s fs)"

lemma holds_of_noteRecord [simp]: "holds_of m (noteRecord p number h) = holds_of m p"
  by (simp add: holds_of_def)

lemma holds_of_store:
  assumes h: "holds_of m p" and f: "fragment_of m f"
  shows "\<exists>q. storeFragment p f = (q, True) \<and> holds_of m q \<and>
     received_set q = received_set p \<union> {i. covers f i} \<and>
     pm_epoch q = pm_epoch p \<and> pm_hasEpoch q = pm_hasEpoch p"
proof -
  let ?at = "unat (hf_offset f)" and ?q = "overlay p (unat (hf_offset f)) (hf_body f)"
  have ok: "partial_ok p" and le: "?at + length (hf_body f) \<le> length (pm_data p)"
    using h f by (simp_all add: holds_of_def fragment_of_def)
  have "\<not> conflict p ?at (hf_body f)"
    using h f unfolding conflict_def holds_of_def fragment_of_def by metis
  then have st: "storeFragment p f = (?q, True)"
    using mergeOverlap_spec [OF ok le] storeFragment_merge [OF ok le] by simp
  have cov: "{i. covers f i} = {?at..<?at + length (hf_body f)}" by (auto simp: covers_def)
  have "pm_data ?q ! i = hm_body m ! i" if "i \<in> received_set ?q" for i
  proof -
    have i: "i < length (pm_data p)" "i \<in> received_set p \<or> ?at \<le> i \<and> i < ?at + length (hf_body f)"
      using that received_set_overlay [OF ok le] le received_set_bound [of p] by auto
    have new: "hf_body f ! (i - ?at) = hm_body m ! i" if "?at \<le> i" "i < ?at + length (hf_body f)"
      using f that unfolding fragment_of_def by (metis le_add_diff_inverse less_diff_conv2 add.commute)
    have old: "pm_data p ! i = hm_body m ! i" if "i \<in> received_set p"
      using h that by (simp add: holds_of_def)
    show ?thesis
      using i(2) new old nth_copy_at [OF le i(1)] by (auto simp: overlay_def)
  qed
  moreover have "length (pm_data ?q) = length (pm_data p)" using le by simp
  ultimately have "holds_of m ?q"
    using partial_ok_overlay [OF ok le] h by (simp add: holds_of_def)
  with st cov received_set_overlay [OF ok le] show ?thesis by simp
qed

lemma holds_of_complete:
  assumes h: "holds_of m p"
  shows "pm_count p = length (pm_data p) \<longleftrightarrow> received_set p = {..<length (hm_body m)}"
    and "pm_count p = length (pm_data p) \<Longrightarrow> pm_data p = hm_body m"
  using h partial_ok_full_iff [of p]
  by (auto simp: holds_of_def intro!: nth_equalityI)

lemma addToPartial_holds:
  assumes h: "holds_of m p" and f: "fragment_of m f" and e: "pm_hasEpoch p" "pm_epoch p = epoch"
  shows "if {..<length (hm_body m)} \<subseteq> received_set p \<union> {i. covers f i}
     then snd (addToPartial r p f epoch True number hasRecord) = Inr (Some (hm_body m))
     else \<exists>q. addToPartial r p f epoch True number hasRecord =
             (r\<lparr>ra_messages := AList.update (hm_sequence m) q (ra_messages r)\<rparr>, Inr None) \<and>
           holds_of m q \<and> received_set q = received_set p \<union> {i. covers f i} \<and>
           pm_hasEpoch q \<and> pm_epoch q = epoch"
proof -
  have h': "holds_of m (noteRecord p number hasRecord)" using h by simp
  from holds_of_store [OF h' f] obtain q where st: "storeFragment (noteRecord p number hasRecord) f = (q, True)"
    and q: "holds_of m q" and rq: "received_set q = received_set p \<union> {i. covers f i}"
    and qe: "pm_epoch q = pm_epoch p" "pm_hasEpoch q = pm_hasEpoch p" by auto
  have sub: "received_set q \<subseteq> {..<length (hm_body m)}"
    using received_set_bound [of q] q by (simp add: holds_of_def)
  have full: "pm_count q = length (pm_data q) \<longleftrightarrow> {..<length (hm_body m)} \<subseteq> received_set p \<union> {i. covers f i}"
    using holds_of_complete(1) [OF q] rq sub by auto
  have "pm_typ p = hf_typ f" "length (pm_data p) = unat (hf_length f)" "hf_messageSequence f = hm_sequence m"
    using h f by (auto simp: holds_of_def fragment_of_def)
  then show ?thesis
    using st q rq qe e full holds_of_complete(2) [OF q] by (auto simp: addToPartial_def Let_def)
qed

lemma holds_of_new:
  assumes "fragment_of m f"
  shows "holds_of m (newPartialMessage f epoch protected)"
    and "received_set (newPartialMessage f epoch protected) = {}"
proof -
  show rs: "received_set (newPartialMessage f epoch protected) = {}"
    by (auto simp: received_set_def newPartialMessage_def bitmap_bit_def bitmap_word_in_range)
  show "holds_of m (newPartialMessage f epoch protected)"
    using assms partial_ok_new [of f epoch protected] rs
    by (simp add: holds_of_def fragment_of_def) (simp add: newPartialMessage_def)
qed

text \<open>Fragments of other messages leave a partial message alone.\<close>

lemma addToPartial_frame:
  "hf_messageSequence f \<noteq> s \<Longrightarrow>
   map_of (ra_messages (fst (addToPartial r p f epoch protected number hasRecord))) s =
     map_of (ra_messages r) s"
  by (simp add: addToPartial_def case_prod_unfold Let_def update_conv delete_conv)

lemma addAtEpochAndRecord_frame:
  "hf_messageSequence f \<noteq> s \<Longrightarrow>
   map_of (ra_messages (fst (addAtEpochAndRecord r f epoch protected number hasRecord))) s =
     map_of (ra_messages r) s"
  by (cases "map_of (ra_messages r) (hf_messageSequence f)")
    (simp_all add: addAtEpochAndRecord_def addToPartial_frame update_conv Let_def)

lemma addToPartial_maxSize [simp]:
  "ra_maxSize (fst (addToPartial r p f epoch protected number hasRecord)) = ra_maxSize r"
  by (simp add: addToPartial_def case_prod_unfold Let_def)

lemma addAtEpochAndRecord_maxSize [simp]:
  "ra_maxSize (fst (addAtEpochAndRecord r f epoch protected number hasRecord)) = ra_maxSize r"
  by (cases "map_of (ra_messages r) (hf_messageSequence f)")
    (simp_all add: addAtEpochAndRecord_def Let_def)

lemma firstBody_step:
  "firstBody r s ((f, number) # fs) =
     (let (r', res) = addAtEpochAndRecord r f (rn_epoch number) True number True in
      case res of
        Inr (Some body) \<Rightarrow> if hf_messageSequence f = s then Some body else firstBody r' s fs
      | _ \<Rightarrow> firstBody r' s fs)"
  by (simp add: addProtectedRecord_def case_prod_unfold Let_def split: sum.split option.split)

declare firstBody.simps(2) [simp del]

lemma firstBody_in_progress:
  assumes "\<forall>(f, n) \<in> set fs. hf_messageSequence f = hm_sequence m \<longrightarrow> fragment_of m f \<and> rn_epoch n = e"
    and "map_of (ra_messages r) (hm_sequence m) = Some p" and "holds_of m p"
    and "pm_hasEpoch p" and "pm_epoch p = e" and "int (length (hm_body m)) \<le> ra_maxSize r"
    and "\<not> {..<length (hm_body m)} \<subseteq> received_set p"
    and "\<forall>i < length (hm_body m). i \<in> received_set p \<or>
           (\<exists>(f, n) \<in> set fs. hf_messageSequence f = hm_sequence m \<and> covers f i)"
  shows "firstBody r (hm_sequence m) fs = Some (hm_body m)"
  using assms
proof (induction fs arbitrary: r p)
  case Nil
  then show ?case by auto
next
  case (Cons fn fs)
  obtain f n where fn: "fn = (f, n)" by (cases fn)
  let ?add = "addAtEpochAndRecord r f (rn_epoch n) True n True"
  show ?case
  proof (cases "hf_messageSequence f = hm_sequence m")
    case False
    have "map_of (ra_messages (fst ?add)) (hm_sequence m) = Some p"
      using addAtEpochAndRecord_frame [OF False] Cons.prems(2) by simp
    then have "firstBody (fst ?add) (hm_sequence m) fs = Some (hm_body m)"
      using Cons.prems fn False by (intro Cons.IH [of _ p]) auto
    with False fn show ?thesis
      by (simp add: firstBody_step case_prod_unfold Let_def split: sum.split option.split)
  next
    case True
    have f: "fragment_of m f" and e: "rn_epoch n = e" using Cons.prems(1) True fn by auto
    have add: "?add = addToPartial r p f e True n True"
      using True e f Cons.prems(2,6) by (simp add: addAtEpochAndRecord_def fragment_of_def)
    note step = addToPartial_holds [OF Cons.prems(3) f Cons.prems(4,5), of r n True]
    show ?thesis
    proof (cases "{..<length (hm_body m)} \<subseteq> received_set p \<union> {i. covers f i}")
      case full: True
      with step add True fn show ?thesis
        by (simp add: firstBody_step case_prod_unfold Let_def)
    next
      case more: False
      with step obtain q where st: "addToPartial r p f e True n True =
          (r\<lparr>ra_messages := AList.update (hm_sequence m) q (ra_messages r)\<rparr>, Inr None)"
        and q: "holds_of m q" "received_set q = received_set p \<union> {i. covers f i}" "pm_hasEpoch q" "pm_epoch q = e"
        by auto
      have "firstBody (r\<lparr>ra_messages := AList.update (hm_sequence m) q (ra_messages r)\<rparr>) (hm_sequence m) fs =
          Some (hm_body m)"
        using Cons.prems(1,6,8) fn q more by (intro Cons.IH [of _ q]) (auto simp: update_conv)
      with st add fn show ?thesis by (simp add: firstBody_step)
    qed
  qed
qed

lemma firstBody_start:
  assumes fs: "\<forall>(f, n) \<in> set ((f0, n0) # fs). hf_messageSequence f = hm_sequence m \<longrightarrow>
      fragment_of m f \<and> rn_epoch n = e"
    and s0: "hf_messageSequence f0 = hm_sequence m"
    and fresh: "map_of (ra_messages r) (hm_sequence m) = None"
    and room: "int (length (hm_body m)) \<le> ra_maxSize r" "int (length (ra_messages r)) < ra_maxMessages r"
      "ra_allocated r + int (length (hm_body m)) \<le> ra_maxBytes r"
    and cov: "\<forall>i < length (hm_body m). \<exists>(f, n) \<in> set ((f0, n0) # fs).
      hf_messageSequence f = hm_sequence m \<and> covers f i"
  shows "firstBody r (hm_sequence m) ((f0, n0) # fs) = Some (hm_body m)"
proof -
  have f0: "fragment_of m f0" and e0: "rn_epoch n0 = e" using fs s0 by auto
  have len: "unat (hf_length f0) = length (hm_body m)" using f0 by (simp add: fragment_of_def)
  have room': "\<not> ra_maxSize r < int (length (hm_body m))" "\<not> ra_maxMessages r \<le> int (length (ra_messages r))"
    "\<not> ra_maxBytes r < ra_allocated r + int (length (hm_body m))" using room by auto
  let ?add = "addAtEpochAndRecord r f0 (rn_epoch n0) True n0 True"
  show ?thesis
  proof (cases "hf_offset f0 = 0 \<and> length (hf_body f0) = unat (hf_length f0)")
    case True
    then have "hf_body f0 = hm_body m"
      using f0 by (auto simp: fragment_of_def intro!: nth_equalityI)
    then have "snd ?add = Inr (Some (hm_body m))"
      using True unfolding addAtEpochAndRecord_def len s0 fresh by (simp add: room' room)
    with s0 show ?thesis by (simp add: firstBody_step case_prod_unfold Let_def)
  next
    case False
    let ?p = "newPartialMessage f0 e True"
    let ?r = "r\<lparr>ra_messages := AList.update (hm_sequence m) ?p (ra_messages r),
              ra_allocated := ra_allocated r + int (length (hm_body m))\<rparr>"
    have add: "?add = addToPartial ?r ?p f0 e True n0 True"
      using False e0 unfolding addAtEpochAndRecord_def len s0 fresh
      by (auto simp: room' room Let_def)
    have pe: "pm_hasEpoch ?p" "pm_epoch ?p = e" by (simp_all add: newPartialMessage_def)
    note step = addToPartial_holds [OF holds_of_new(1) [OF f0] f0 pe, of ?r n0 True]
    show ?thesis
    proof (cases "{..<length (hm_body m)} \<subseteq> {i. covers f0 i}")
      case full: True
      with step add s0 holds_of_new(2) [OF f0] show ?thesis
        by (simp add: firstBody_step case_prod_unfold Let_def)
    next
      case more: False
      with step holds_of_new(2) [OF f0] obtain q where st: "addToPartial ?r ?p f0 e True n0 True =
          (?r\<lparr>ra_messages := AList.update (hm_sequence m) q (ra_messages ?r)\<rparr>, Inr None)"
        and q: "holds_of m q" "received_set q = {i. covers f0 i}" "pm_hasEpoch q" "pm_epoch q = e"
        by auto
      have "firstBody (?r\<lparr>ra_messages := AList.update (hm_sequence m) q (ra_messages ?r)\<rparr>) (hm_sequence m) fs =
          Some (hm_body m)"
        using fs cov room q more
        by (intro firstBody_in_progress [where p = q and e = e]) (auto simp: update_conv)
      with st add show ?thesis by (simp add: firstBody_step)
    qed
  qed
qed

lemma firstBody_fragmented:
  assumes len: "length (hm_body m) < 2 ^ 24" and k: "0 < k"
    and fs: "fst ` set fs = set (fragmentHandshakeMessageInto m k)"
    and e: "\<forall>(f, n) \<in> set fs. rn_epoch n = e"
    and room: "int (length (hm_body m)) \<le> maxSize" "0 < maxMessages" "int (length (hm_body m)) \<le> maxBytes"
  shows "firstBody (newReassemblerWithLimits maxSize maxMessages maxBytes) (hm_sequence m) fs = Some (hm_body m)"
proof -
  have "set (fragmentHandshakeMessageInto m k) \<noteq> {}"
    using k by (auto simp: fragmentHandshakeMessageInto_def fragmentFrom.simps [of m k 0])
  with fs obtain f0 n0 fs' where fs': "fs = (f0, n0) # fs'" by (cases fs) auto
  have of: "fragment_of m f" if "(f, n) \<in> set fs" for f n
  proof (rule fragmentHandshakeMessageInto_of(1) [OF len])
    show "f \<in> set (fragmentHandshakeMessageInto m k)" using that fs by force
  qed
  then have sq: "hf_messageSequence f = hm_sequence m" if "(f, n) \<in> set fs" for f n
    using that by (auto simp: fragment_of_def)
  have cov: "\<exists>(f, n) \<in> set fs. hf_messageSequence f = hm_sequence m \<and> covers f i"
    if "i < length (hm_body m)" for i
    using fragmentHandshakeMessageInto_covers [OF len k that] fs sq by force
  show ?thesis
    unfolding fs'
  proof (rule firstBody_start [where e = e])
    show "\<forall>(f, n) \<in> set ((f0, n0) # fs'). hf_messageSequence f = hm_sequence m \<longrightarrow>
        fragment_of m f \<and> rn_epoch n = e"
      using of e fs' by blast
    show "hf_messageSequence f0 = hm_sequence m" using sq [of f0 n0] fs' by simp
    show "\<forall>i < length (hm_body m). \<exists>(f, n) \<in> set ((f0, n0) # fs').
        hf_messageSequence f = hm_sequence m \<and> covers f i"
      using cov fs' by simp
  qed (use room in \<open>simp_all add: newReassemblerWithLimits_def\<close>)
qed

section \<open>Properties\<close>

text \<open>
  C1. Reassembly is independent of the order in which fragments arrive. Once the first
  fragment of a message finds room, the fragments of the message may arrive in any order, repeated
  and overlapping, and interleaved with arbitrary fragments of other messages (also ones that are
  refused): as soon as they cover the message, the first body completed for its sequence number is
  the message body, byte for byte.
\<close>

theorem reassembly_returns_message:
  assumes "\<forall>(f, n) \<in> set ((f0, n0) # fs). hf_messageSequence f = hm_sequence m \<longrightarrow>
      fragment_of m f \<and> rn_epoch n = e"
    and "hf_messageSequence f0 = hm_sequence m"
    and "map_of (ra_messages r) (hm_sequence m) = None"
    and "int (length (hm_body m)) \<le> ra_maxSize r" and "int (length (ra_messages r)) < ra_maxMessages r"
    and "ra_allocated r + int (length (hm_body m)) \<le> ra_maxBytes r"
    and "\<forall>i < length (hm_body m). \<exists>(f, n) \<in> set ((f0, n0) # fs).
      hf_messageSequence f = hm_sequence m \<and> covers f i"
  shows "firstBody r (hm_sequence m) ((f0, n0) # fs) = Some (hm_body m)"
  using assms by (rule firstBody_start)

theorem reassembly_returns_message_witness:
  "let m = \<lparr>hm_typ = 11, hm_sequence = 5, hm_body = [1, 2, 3]\<rparr>;
       f0 = \<lparr>hf_typ = 11, hf_messageSequence = 5, hf_length = 3, hf_offset = 1, hf_body = [2, 3]\<rparr>;
       other = \<lparr>hf_typ = 8, hf_messageSequence = 6, hf_length = 9, hf_offset = 4, hf_body = [7]\<rparr>;
       f1 = \<lparr>hf_typ = 11, hf_messageSequence = 5, hf_length = 3, hf_offset = 0, hf_body = [1, 2]\<rparr>
   in firstBody (newReassemblerWithLimits 100 8 400) 5
        [(f0, RecordNumber 2 4), (other, RecordNumber 3 1), (f1, RecordNumber 2 0)] = Some (hm_body m)"
proof -
  let ?m = "\<lparr>hm_typ = 11, hm_sequence = 5, hm_body = [1, 2, 3]\<rparr>"
  let ?f0 = "\<lparr>hf_typ = 11, hf_messageSequence = 5, hf_length = 3, hf_offset = 1, hf_body = [2, 3]\<rparr>"
  let ?other = "\<lparr>hf_typ = 8, hf_messageSequence = 6, hf_length = 9, hf_offset = 4, hf_body = [7]\<rparr>"
  let ?f1 = "\<lparr>hf_typ = 11, hf_messageSequence = 5, hf_length = 3, hf_offset = 0, hf_body = [1, 2]\<rparr>"
  have of: "fragment_of ?m ?f0" "fragment_of ?m ?f1"
    by (simp_all add: fragment_of_def All_less_Suc)
  have cov: "covers ?f0 i \<or> covers ?f1 i" if "i < 3" for i
    using that by (simp add: covers_def) linarith
  have "firstBody (newReassemblerWithLimits 100 8 400) (hm_sequence ?m)
      ((?f0, RecordNumber 2 4) # [(?other, RecordNumber 3 1), (?f1, RecordNumber 2 0)]) = Some (hm_body ?m)"
    by (rule reassembly_returns_message [where e = 2])
      (use of cov in \<open>simp_all add: newReassemblerWithLimits_def\<close>)
  then show ?thesis by (simp only: Let_def handshakeMessage.simps)
qed

text \<open>
  C15. Sender and receiver agree end to end: a message split by \<open>fragmentHandshakeMessageInto\<close>
  with any fragment limit and delivered in any order, with any repetitions, to a new reassembler
  whose limits admit the message is returned unchanged.
\<close>

theorem fragmentation_reassembly_roundtrip:
  assumes "length (hm_body m) < 2 ^ 24" and "0 < k"
    and "fst ` set fs = set (fragmentHandshakeMessageInto m k)"
    and "\<forall>(f, n) \<in> set fs. rn_epoch n = e"
    and "int (length (hm_body m)) \<le> maxSize" and "0 < maxMessages" and "int (length (hm_body m)) \<le> maxBytes"
  shows "firstBody (newReassemblerWithLimits maxSize maxMessages maxBytes) (hm_sequence m) fs = Some (hm_body m)"
  using assms by (rule firstBody_fragmented)

theorem fragmentation_reassembly_roundtrip_witness:
  "let m = \<lparr>hm_typ = 11, hm_sequence = 5, hm_body = [1, 2, 3]\<rparr>;
       fs = map (\<lambda>f. (f, RecordNumber 2 0)) (rev (fragmentHandshakeMessageInto m 2) @ fragmentHandshakeMessageInto m 2)
   in firstBody (newReassemblerWithLimits 3 1 3) 5 fs = Some [1, 2, 3]"
proof -
  let ?m = "\<lparr>hm_typ = 11, hm_sequence = 5, hm_body = [1, 2, 3]\<rparr>"
  let ?fs = "map (\<lambda>f. (f, RecordNumber 2 0)) (rev (fragmentHandshakeMessageInto ?m 2) @ fragmentHandshakeMessageInto ?m 2)"
  have "fst ` set ?fs = set (fragmentHandshakeMessageInto ?m 2)"
    by (simp add: image_image image_Un)
  then have "firstBody (newReassemblerWithLimits 3 1 3) (hm_sequence ?m) ?fs = Some (hm_body ?m)"
    by (intro fragmentation_reassembly_roundtrip [where k = 2 and e = 2]) auto
  then show ?thesis by (simp only: Let_def handshakeMessage.simps)
qed

text \<open>
  C18. The memory bound holds on every path: adding any well-formed fragment, whether it is
  stored, completes a message, conflicts with earlier bytes or is refused by a limit, keeps the
  message table free of duplicates, every byte counter equal to the number of bytes marked in its
  bitmap, the allocation counter equal to the total size of the incomplete messages, and the
  message, size and allocation limits respected.
\<close>

theorem reassembler_invariant_kept:
  assumes "reassembler_ok r" and "fragment_ok f"
  shows "reassembler_ok (fst (addAtEpochAndRecord r f epoch protected number hasRecord))"
  using assms by (rule reassembler_ok_add)

theorem reassembler_invariant_kept_witness:
  "let f = \<lparr>hf_typ = 11, hf_messageSequence = 5, hf_length = 3, hf_offset = 1, hf_body = [2, 3]\<rparr> in
   reassembler_ok (fst (addAtEpochAndRecord (newReassemblerWithLimits 3 1 3) f 2 True (RecordNumber 2 0) True))"
proof -
  let ?f = "\<lparr>hf_typ = 11, hf_messageSequence = 5, hf_length = 3, hf_offset = 1, hf_body = [2, 3]\<rparr>"
  have "fragment_ok ?f" by (simp add: fragment_ok_def)
  moreover have "reassembler_ok (newReassemblerWithLimits 3 1 3)" by (rule reassembler_ok_new) simp_all
  ultimately show ?thesis unfolding Let_def by (intro reassembler_invariant_kept)
qed

text \<open>
  C22. The word-at-a-time fast path is equivalent to the byte loop: on a consistent partial
  message the range test, the block copy and the range marking together do exactly what the
  loop over single bytes does, so the choice between them is unobservable.
\<close>

theorem store_fast_path_equals_byte_loop:
  assumes "partial_ok p" and "unat (hf_offset f) + length (hf_body f) \<le> length (pm_data p)"
  shows "storeFragment p f = mergeOverlap p (unat (hf_offset f)) (hf_body f)"
  using assms by (rule storeFragment_merge)

theorem store_fast_path_equals_byte_loop_witness:
  "let f = \<lparr>hf_typ = 11, hf_messageSequence = 5, hf_length = 70, hf_offset = 62, hf_body = [2, 3, 4, 5]\<rparr>;
       p = newPartialMessage f 2 True in
   storeFragment p f = mergeOverlap p 62 [2, 3, 4, 5]"
proof -
  let ?f = "\<lparr>hf_typ = 11, hf_messageSequence = 5, hf_length = 70, hf_offset = 62, hf_body = [2, 3, 4, 5]\<rparr>"
  show ?thesis
    using store_fast_path_equals_byte_loop [OF partial_ok_new, of ?f ?f 2 True]
    by (simp add: newPartialMessage_def)
qed

end
