(* ===== verification/Handshake_Inbox.thy ===== *)
theory Handshake_Inbox
  imports Reassembly
begin

text \<open>
  \<^verbatim>\<open>src/handshake_inbox.go\<close>: delivery of reassembled messages in the order of their
  sequence numbers. A batch stores its first message inline; \<open>batch_list\<close> reads it as a
  list. The drain loop runs as long as the next expected message is buffered and ends
  because each round takes one message out of the buffer.
\<close>

section \<open>Batches\<close>

record completedHandshake =
  ch_typ :: u8
  ch_sequence :: u16
  ch_body :: bytes

record completedHandshakeBatch =
  cb_inline :: "completedHandshake list"
  cb_values :: "completedHandshake list option"
  cb_count :: nat

definition completedHandshakeBatchFor :: "completedHandshake list option \<Rightarrow> completedHandshakeBatch" where
  "completedHandshakeBatchFor dst =
     \<lparr>cb_inline = [], cb_values = dst, cb_count = (case dst of None \<Rightarrow> 0 | Some xs \<Rightarrow> length xs)\<rparr>"

definition batchAdd :: "completedHandshakeBatch \<Rightarrow> completedHandshake \<Rightarrow> completedHandshakeBatch" where
  "batchAdd b message =
     (case cb_values b of
        Some vs \<Rightarrow> b\<lparr>cb_values := Some (vs @ [message]), cb_count := cb_count b + 1\<rparr>
      | None \<Rightarrow>
          if cb_count b = 0 then b\<lparr>cb_inline := [message], cb_count := 1\<rparr>
          else b\<lparr>cb_values := Some ([cb_inline b ! 0] @ [message]), cb_count := cb_count b + 1\<rparr>)"

definition batchAt :: "completedHandshakeBatch \<Rightarrow> nat \<Rightarrow> completedHandshake" where
  "batchAt b index = (case cb_values b of Some vs \<Rightarrow> vs ! index | None \<Rightarrow> cb_inline b ! index)"

section \<open>The inbox\<close>

record handshakeInbox =
  hi_expected :: u16
  hi_reassembler :: reassembler
  hi_ready :: "(u16 \<times> completedHandshake) list"
  hi_maxReady :: int
  hi_maxBytes :: int
  hi_readyBytes :: int

definition newHandshakeInbox :: "u16 \<Rightarrow> int \<Rightarrow> int \<Rightarrow> int \<Rightarrow> handshakeInbox" where
  "newHandshakeInbox expected maxMessage maxMessages maxBytes =
     \<lparr>hi_expected = expected, hi_reassembler = newReassemblerWithLimits maxMessage maxMessages maxBytes,
      hi_ready = [], hi_maxReady = maxMessages, hi_maxBytes = maxBytes, hi_readyBytes = 0\<rparr>"

lemma length_delete_less: "map_of al k = Some v \<Longrightarrow> length (AList.delete k al) < length al"
  by (induction al) (auto simp: le_imp_less_Suc length_delete_le)

function drainReady :: "handshakeInbox \<Rightarrow> completedHandshakeBatch \<Rightarrow> handshakeInbox \<times> completedHandshakeBatch" where
  "drainReady i dst =
     (case map_of (hi_ready i) (hi_expected i) of
        None \<Rightarrow> (i, dst)
      | Some message \<Rightarrow>
          drainReady
            (i\<lparr>hi_ready := AList.delete (hi_expected i) (hi_ready i),
               hi_readyBytes := hi_readyBytes i - int (length (ch_body message)),
               hi_expected := hi_expected i + 1\<rparr>)
            (batchAdd dst message))"
  by pat_completeness auto
termination
  by (relation "measure (\<lambda>(i, dst). length (hi_ready i))") (auto simp: length_delete_less)

declare drainReady.simps [simp del]

definition deliverCompleted ::
  "handshakeInbox \<Rightarrow> completedHandshakeBatch \<Rightarrow> completedHandshake \<Rightarrow>
   handshakeInbox \<times> completedHandshakeBatch \<times> unit result" where
  "deliverCompleted i dst message =
     (if hi_maxReady i \<le> int (length (hi_ready i))
        then (i, dst, Inl (ProtocolError ''too many completed out-of-order handshake messages''))
      else if hi_maxBytes i < hi_readyBytes i + int (length (ch_body message))
        then (i, dst, Inl (ProtocolError ''completed handshake message memory limit exceeded''))
      else if ch_sequence message \<noteq> hi_expected i
        then (i\<lparr>hi_ready := AList.update (ch_sequence message) message (hi_ready i),
                hi_readyBytes := hi_readyBytes i + int (length (ch_body message))\<rparr>, dst, Inr ())
      else
        let (i1, dst1) = drainReady (i\<lparr>hi_expected := hi_expected i + 1\<rparr>) (batchAdd dst message)
        in (i1, dst1, Inr ()))"

definition addAtEpochBatch ::
  "handshakeInbox \<Rightarrow> completedHandshakeBatch \<Rightarrow> handshakeFragment \<Rightarrow> u64 \<Rightarrow> bool \<Rightarrow>
   handshakeInbox \<times> completedHandshakeBatch \<times> unit result" where
  "addAtEpochBatch i dst fragment epoch protected =
     (if hf_messageSequence fragment < hi_expected i then (i, dst, Inr ())
      else if map_of (hi_ready i) (hf_messageSequence fragment) \<noteq> None then (i, dst, Inr ())
      else
        let (r, res) = (if protected then addProtected (hi_reassembler i) fragment epoch
                        else reassemblerAdd (hi_reassembler i) fragment);
            i1 = i\<lparr>hi_reassembler := r\<rparr>
        in case res of
             Inl err \<Rightarrow> (i1, dst, Inl err)
           | Inr None \<Rightarrow> (i1, dst, Inr ())
           | Inr (Some body) \<Rightarrow>
               deliverCompleted i1 dst
                 \<lparr>ch_typ = hf_typ fragment, ch_sequence = hf_messageSequence fragment, ch_body = body\<rparr>)"

definition addAtEpochInto ::
  "handshakeInbox \<Rightarrow> completedHandshake list \<Rightarrow> handshakeFragment \<Rightarrow> u64 \<Rightarrow> bool \<Rightarrow>
   handshakeInbox \<times> completedHandshake list result" where
  "addAtEpochInto i dst fragment epoch protected =
     (case addAtEpochBatch i (completedHandshakeBatchFor (Some dst)) fragment epoch protected of
        (i1, batch, Inl err) \<Rightarrow> (i1, Inl err)
      | (i1, batch, Inr _) \<Rightarrow> (i1, Inr (case cb_values batch of Some vs \<Rightarrow> vs | None \<Rightarrow> [])))"

definition inboxAdd :: "handshakeInbox \<Rightarrow> handshakeFragment \<Rightarrow> handshakeInbox \<times> completedHandshake list result" where
  "inboxAdd i fragment = addAtEpochInto i [] fragment 0 False"

definition inboxAddProtected ::
  "handshakeInbox \<Rightarrow> handshakeFragment \<Rightarrow> u64 \<Rightarrow> handshakeInbox \<times> completedHandshake list result" where
  "inboxAddProtected i fragment epoch = addAtEpochInto i [] fragment epoch True"

definition inboxAddInto ::
  "handshakeInbox \<Rightarrow> completedHandshake list \<Rightarrow> handshakeFragment \<Rightarrow> handshakeInbox \<times> completedHandshake list result" where
  "inboxAddInto i dst fragment = addAtEpochInto i dst fragment 0 False"

definition inboxAddBatch ::
  "handshakeInbox \<Rightarrow> completedHandshakeBatch \<Rightarrow> handshakeFragment \<Rightarrow>
   handshakeInbox \<times> completedHandshakeBatch \<times> unit result" where
  "inboxAddBatch i dst fragment = addAtEpochBatch i dst fragment 0 False"

definition inboxAddProtectedBatch ::
  "handshakeInbox \<Rightarrow> completedHandshakeBatch \<Rightarrow> handshakeFragment \<Rightarrow> u64 \<Rightarrow>
   handshakeInbox \<times> completedHandshakeBatch \<times> unit result" where
  "inboxAddProtectedBatch i dst fragment epoch = addAtEpochBatch i dst fragment epoch True"

definition inboxHasIncompleteProtected :: "handshakeInbox option \<Rightarrow> bool" where
  "inboxHasIncompleteProtected i =
     (case i of None \<Rightarrow> False | Some x \<Rightarrow> reassemblerHasIncompleteProtected (hi_reassembler x))"

text \<open>Everything an inbox delivers for a sequence of fragments; refused fragments deliver nothing.\<close>

fun inboxRun ::
  "handshakeInbox \<Rightarrow> (handshakeFragment \<times> u64 \<times> bool) list \<Rightarrow> handshakeInbox \<times> completedHandshake list" where
  "inboxRun i [] = (i, [])"
| "inboxRun i ((f, epoch, protected) # fs) =
     (case addAtEpochInto i [] f epoch protected of
        (i1, Inl err) \<Rightarrow> inboxRun i1 fs
      | (i1, Inr out) \<Rightarrow> (let (i2, more) = inboxRun i1 fs in (i2, out @ more)))"

section \<open>Batches as lists\<close>

definition batch_ok :: "completedHandshakeBatch \<Rightarrow> bool" where
  "batch_ok b \<longleftrightarrow>
     (case cb_values b of Some vs \<Rightarrow> cb_count b = length vs | None \<Rightarrow> cb_count b \<le> 1 \<and> length (cb_inline b) = cb_count b)"

definition batch_list :: "completedHandshakeBatch \<Rightarrow> completedHandshake list" where
  "batch_list b = (case cb_values b of Some vs \<Rightarrow> vs | None \<Rightarrow> cb_inline b)"

lemma batch_new: "batch_ok (completedHandshakeBatchFor dst) \<and>
    batch_list (completedHandshakeBatchFor dst) = (case dst of None \<Rightarrow> [] | Some xs \<Rightarrow> xs)"
  by (simp add: batch_ok_def batch_list_def completedHandshakeBatchFor_def split: option.split)

lemma batch_add: "batch_ok b \<Longrightarrow> batch_ok (batchAdd b x) \<and> batch_list (batchAdd b x) = batch_list b @ [x]"
proof (cases "cb_values b")
  case None
  assume ok: "batch_ok b"
  have "cb_count b = 0 \<and> cb_inline b = [] \<or> (\<exists>y. cb_count b = 1 \<and> cb_inline b = [y])"
    using ok None by (cases "cb_inline b"; cases "tl (cb_inline b)") (auto simp: batch_ok_def)
  then show ?thesis using None by (auto simp: batch_ok_def batch_list_def batchAdd_def)
qed (simp add: batch_ok_def batch_list_def batchAdd_def)

lemma batch_at: "batch_ok b \<Longrightarrow> k < cb_count b \<Longrightarrow> batchAt b k = batch_list b ! k"
  by (auto simp: batch_ok_def batch_list_def batchAt_def split: option.splits)

lemma batchAdd_values: "cb_values b = Some vs \<Longrightarrow> cb_values (batchAdd b x) = Some (vs @ [x])"
  by (simp add: batchAdd_def)

section \<open>Ordered delivery\<close>

text \<open>
  \<open>inbox_ok\<close>: the buffer holds messages under their own sequence numbers, never the next
  expected one, within its limits, and the reassembler is consistent.
\<close>

definition ready_ok :: "handshakeInbox \<Rightarrow> bool" where
  "ready_ok i \<longleftrightarrow>
     distinct (map fst (hi_ready i)) \<and> (\<forall>(k, m) \<in> set (hi_ready i). ch_sequence m = k) \<and>
     hi_readyBytes i = (\<Sum>(k, m) \<leftarrow> hi_ready i. int (length (ch_body m))) \<and>
     hi_readyBytes i \<le> hi_maxBytes i \<and> int (length (hi_ready i)) \<le> hi_maxReady i"

definition inbox_ok :: "handshakeInbox \<Rightarrow> bool" where
  "inbox_ok i \<longleftrightarrow> ready_ok i \<and> reassembler_ok (hi_reassembler i) \<and> map_of (hi_ready i) (hi_expected i) = None"

lemma ready_ok_take:
  assumes ok: "ready_ok i" and m: "map_of (hi_ready i) k = Some message"
  shows "ready_ok (i\<lparr>hi_ready := AList.delete k (hi_ready i),
      hi_readyBytes := hi_readyBytes i - int (length (ch_body message)), hi_expected := e\<rparr>)"
    and "ch_sequence message = k"
proof -
  have mem: "(k, message) \<in> set (hi_ready i)" using m by (rule map_of_SomeD)
  then show "ch_sequence message = k" using ok by (auto simp: ready_ok_def)
  have "length (AList.delete k (hi_ready i)) \<le> length (hi_ready i)" by (rule length_delete_le)
  moreover have "set (AList.delete k (hi_ready i)) \<subseteq> set (hi_ready i)" by (auto simp: AList.delete_eq)
  ultimately show "ready_ok (i\<lparr>hi_ready := AList.delete k (hi_ready i),
      hi_readyBytes := hi_readyBytes i - int (length (ch_body message)), hi_expected := e\<rparr>)"
    using ok m sum_list_delete [of "hi_ready i" "\<lambda>m. int (length (ch_body m))" k]
    by (auto simp: ready_ok_def distinct_delete)
qed

lemma ready_ok_put:
  assumes ok: "ready_ok i" and none: "map_of (hi_ready i) (ch_sequence m) = None"
    and room: "hi_readyBytes i + int (length (ch_body m)) \<le> hi_maxBytes i" "int (length (hi_ready i)) < hi_maxReady i"
  shows "ready_ok (i\<lparr>hi_ready := AList.update (ch_sequence m) m (hi_ready i),
      hi_readyBytes := hi_readyBytes i + int (length (ch_body m))\<rparr>)"
proof -
  have "ch_sequence m \<notin> fst ` set (hi_ready i)" using none by (simp add: map_of_eq_None_iff)
  with ok none room set_update_subset [of "ch_sequence m" m "hi_ready i"]
    sum_list_update [of "hi_ready i" "\<lambda>m. int (length (ch_body m))" "ch_sequence m" m]
  show ?thesis by (auto simp: ready_ok_def distinct_update length_update_alist)
qed

definition consecutive :: "u16 \<Rightarrow> completedHandshake list \<Rightarrow> bool" where
  "consecutive e ms \<longleftrightarrow> map ch_sequence ms = map (\<lambda>k. e + of_nat k) [0..<length ms]"

lemma consecutive_Nil [simp]: "consecutive e []"
  by (simp add: consecutive_def)

lemma consecutive_append:
  "consecutive e (xs @ ys) \<longleftrightarrow> consecutive e xs \<and> consecutive (e + of_nat (length xs)) ys"
proof -
  have "[0..<length xs + length ys] = [0..<length xs] @ map (\<lambda>k. length xs + k) [0..<length ys]"
    using upt_add_eq_append [of 0 "length xs" "length ys"] map_add_upt [of "length xs" "length ys"]
    by (simp add: add.commute)
  then show ?thesis by (simp add: consecutive_def o_def add.assoc)
qed

lemma consecutive_one [simp]: "consecutive e [m] \<longleftrightarrow> ch_sequence m = e"
  by (simp add: consecutive_def)

lemma delete_values:
  "distinct (map fst al) \<Longrightarrow> map_of al k = Some v \<Longrightarrow> snd ` set al = insert v (snd ` set (AList.delete k al))"
proof (induction al)
  case (Cons p al)
  obtain k' v' where p: "p = (k', v')" by (cases p)
  show ?case
  proof (cases "k' = k")
    case True
    then have "AList.delete k al = al" using Cons.prems(1) p by (simp add: delete_idem)
    then show ?thesis using Cons.prems(2) p True by simp
  next
    case False
    then have "snd ` set al = insert v (snd ` set (AList.delete k al))" using Cons p by simp
    then show ?thesis using p False by (simp add: insert_commute)
  qed
qed simp

lemma update_new_values: "map_of al k = None \<Longrightarrow> snd ` set (AList.update k v al) = insert v (snd ` set al)"
  by (induction al) (simp_all add: insert_commute split: if_splits prod.splits)

text \<open>What one call of the inbox does to the buffer and to the batch.\<close>

definition delivers :: "handshakeInbox \<Rightarrow> handshakeInbox \<Rightarrow> completedHandshake list \<Rightarrow> bool" where
  "delivers i i' ms \<longleftrightarrow> consecutive (hi_expected i) ms \<and> hi_expected i' = hi_expected i + of_nat (length ms) \<and>
     hi_maxReady i' = hi_maxReady i \<and> hi_maxBytes i' = hi_maxBytes i"

lemma delivers_Nil: "hi_expected i' = hi_expected i \<Longrightarrow> hi_maxReady i' = hi_maxReady i \<Longrightarrow>
    hi_maxBytes i' = hi_maxBytes i \<Longrightarrow> delivers i i' []"
  by (simp add: delivers_def)

lemma delivers_append: "delivers i j xs \<Longrightarrow> delivers j k ys \<Longrightarrow> delivers i k (xs @ ys)"
  by (simp add: delivers_def consecutive_append)

lemma drainReady_spec:
  "ready_ok i \<Longrightarrow> batch_ok dst \<Longrightarrow> drainReady i dst = (i', dst') \<Longrightarrow>
   \<exists>ms. batch_list dst' = batch_list dst @ ms \<and> batch_ok dst' \<and> delivers i i' ms \<and> ready_ok i' \<and>
     map_of (hi_ready i') (hi_expected i') = None \<and> hi_reassembler i' = hi_reassembler i \<and>
     snd ` set (hi_ready i) = set ms \<union> snd ` set (hi_ready i')"
proof (induction i dst arbitrary: i' dst' rule: drainReady.induct)
  case (1 i dst)
  show ?case
  proof (cases "map_of (hi_ready i) (hi_expected i)")
    case None
    with 1 show ?thesis by (simp add: drainReady.simps [of i] delivers_Nil)
  next
    case (Some message)
    let ?i = "i\<lparr>hi_ready := AList.delete (hi_expected i) (hi_ready i),
               hi_readyBytes := hi_readyBytes i - int (length (ch_body message)),
               hi_expected := hi_expected i + 1\<rparr>"
    note take = ready_ok_take [OF 1(2) Some]
    have distinct: "distinct (map fst (hi_ready i))" using 1(2) by (simp add: ready_ok_def)
    have "drainReady ?i (batchAdd dst message) = (i', dst')"
      using 1(4) Some by (simp add: drainReady.simps [of i])
    from 1(1) [OF Some take(1) conjunct1 [OF batch_add [OF 1(3)]] this] obtain ms where
      ms: "batch_list dst' = batch_list dst @ [message] @ ms" "batch_ok dst'" "delivers ?i i' ms" "ready_ok i'"
      "map_of (hi_ready i') (hi_expected i') = None" "hi_reassembler i' = hi_reassembler i"
      "snd ` set (AList.delete (hi_expected i) (hi_ready i)) = set ms \<union> snd ` set (hi_ready i')"
      using batch_add [OF 1(3), of message] by auto
    have "delivers i ?i [message]" using take(2) by (simp add: delivers_def)
    from delivers_append [OF this ms(3)] have "delivers i i' ([message] @ ms)" .
    moreover have "snd ` set (hi_ready i) = set ([message] @ ms) \<union> snd ` set (hi_ready i')"
      unfolding delete_values [OF distinct Some] ms(7) by simp
    ultimately show ?thesis using ms by (intro exI [of _ "[message] @ ms"]) simp
  qed
qed

text \<open>
  One fragment: the inbox stays consistent, and what it delivers continues the sequence. When
  the fragment is a whole message that fits, the message is delivered or buffered.
\<close>

lemma reassemble_ok:
  assumes "reassembler_ok r" and "fragment_ok f"
  shows "reassembler_ok (fst (if protected then addProtected r f epoch else reassemblerAdd r f))"
  using reassembler_ok_add [OF assms] by (simp add: addProtected_def reassemblerAdd_def)

lemma deliverCompleted_spec:
  assumes ok: "inbox_ok i" and new: "map_of (hi_ready i) (ch_sequence m) = None" and b: "batch_ok dst"
    and add: "deliverCompleted i dst m = (i', dst', res)"
  shows "\<exists>ms. batch_list dst' = batch_list dst @ ms \<and> batch_ok dst' \<and> delivers i i' ms \<and> inbox_ok i' \<and>
    hi_reassembler i' = hi_reassembler i \<and>
    (case res of Inl err \<Rightarrow> i' = i \<and> ms = []
     | Inr _ \<Rightarrow> insert m (snd ` set (hi_ready i)) = set ms \<union> snd ` set (hi_ready i'))"
proof (cases "hi_maxReady i \<le> int (length (hi_ready i)) \<or> hi_maxBytes i < hi_readyBytes i + int (length (ch_body m))")
  case True
  with add have "i' = i" "dst' = dst" "\<exists>err. res = Inl err" by (auto simp: deliverCompleted_def split: if_splits)
  then show ?thesis using ok b by (auto simp: delivers_Nil)
next
  case False
  have ready: "ready_ok i" using ok by (simp add: inbox_ok_def)
  show ?thesis
  proof (cases "ch_sequence m = hi_expected i")
    case True
    let ?i = "i\<lparr>hi_expected := hi_expected i + 1\<rparr>"
    from add False True have drain: "drainReady ?i (batchAdd dst m) = (i', dst')" and res: "res = Inr ()"
      by (simp_all add: deliverCompleted_def case_prod_unfold Let_def prod_eq_iff)
    have "ready_ok ?i" using ready by (simp add: ready_ok_def)
    from drainReady_spec [OF this conjunct1 [OF batch_add [OF b]] drain] obtain ms where
      ms: "batch_list dst' = batch_list (batchAdd dst m) @ ms" "batch_ok dst'" "delivers ?i i' ms" "ready_ok i'"
      "map_of (hi_ready i') (hi_expected i') = None" "hi_reassembler i' = hi_reassembler ?i"
      "snd ` set (hi_ready ?i) = set ms \<union> snd ` set (hi_ready i')" by blast
    have "delivers i ?i [m]" using True by (simp add: delivers_def)
    from delivers_append [OF this ms(3)] have "delivers i i' ([m] @ ms)" .
    moreover have "inbox_ok i'" using ms(4,5,6) ok by (simp add: inbox_ok_def)
    moreover have "batch_list dst' = batch_list dst @ [m] @ ms" using ms(1) batch_add [OF b, of m] by simp
    ultimately show ?thesis using ms(2,6,7) res by (intro exI [of _ "[m] @ ms"]) simp
  next
    case neq: False
    let ?i = "i\<lparr>hi_ready := AList.update (ch_sequence m) m (hi_ready i),
      hi_readyBytes := hi_readyBytes i + int (length (ch_body m))\<rparr>"
    from add False neq have eqs: "i' = ?i" "dst' = dst" "res = Inr ()" by (simp_all add: deliverCompleted_def)
    have "ready_ok ?i" by (rule ready_ok_put [OF ready new]) (use False in simp_all)
    then have "inbox_ok ?i" using ok neq by (simp add: inbox_ok_def update_conv')
    moreover have "snd ` set (hi_ready ?i) = insert m (snd ` set (hi_ready i))"
      using new by (simp add: update_new_values)
    ultimately show ?thesis unfolding eqs using b by (intro exI [of _ "[]"]) (simp add: delivers_Nil)
  qed
qed

lemma inbox_ok_set_reassembler: "inbox_ok i \<Longrightarrow> reassembler_ok r \<Longrightarrow> inbox_ok (i\<lparr>hi_reassembler := r\<rparr>)"
  by (simp add: inbox_ok_def ready_ok_def)

text \<open>A fragment that is not skipped, by what the reassembler answers.\<close>

definition reassemble :: "reassembler \<Rightarrow> handshakeFragment \<Rightarrow> u64 \<Rightarrow> bool \<Rightarrow> reassembler \<times> bytes option result" where
  "reassemble r f epoch protected = (if protected then addProtected r f epoch else reassemblerAdd r f)"

lemma addAtEpochBatch_skip:
  assumes "hf_messageSequence f < hi_expected i \<or> map_of (hi_ready i) (hf_messageSequence f) \<noteq> None"
  shows "addAtEpochBatch i dst f epoch protected = (i, dst, Inr ())"
proof (cases "hf_messageSequence f < hi_expected i")
  case True
  then show ?thesis unfolding addAtEpochBatch_def by (simp only: if_True)
next
  case False
  with assms have "map_of (hi_ready i) (hf_messageSequence f) \<noteq> None" by blast
  with False show ?thesis unfolding addAtEpochBatch_def by (simp only: if_True if_False not_False_eq_True)
qed

lemma addAtEpochBatch_new:
  assumes "\<not> hf_messageSequence f < hi_expected i" and "map_of (hi_ready i) (hf_messageSequence f) = None"
    and "reassemble (hi_reassembler i) f epoch protected = (r, out)"
  shows "addAtEpochBatch i dst f epoch protected =
    (case out of Inl err \<Rightarrow> (i\<lparr>hi_reassembler := r\<rparr>, dst, Inl err)
     | Inr None \<Rightarrow> (i\<lparr>hi_reassembler := r\<rparr>, dst, Inr ())
     | Inr (Some body) \<Rightarrow> deliverCompleted (i\<lparr>hi_reassembler := r\<rparr>) dst
         \<lparr>ch_typ = hf_typ f, ch_sequence = hf_messageSequence f, ch_body = body\<rparr>)"
  using assms unfolding addAtEpochBatch_def reassemble_def [symmetric] by (simp add: Let_def)

lemma addAtEpochBatch_spec:
  assumes ok: "inbox_ok i" and f: "fragment_ok f" and b: "batch_ok dst"
    and add: "addAtEpochBatch i dst f epoch protected = (i', dst', res)"
  shows "\<exists>ms. batch_list dst' = batch_list dst @ ms \<and> batch_ok dst' \<and> delivers i i' ms \<and> inbox_ok i' \<and>
    (isl res \<longrightarrow> ms = [])"
proof (cases "hf_messageSequence f < hi_expected i \<or> map_of (hi_ready i) (hf_messageSequence f) \<noteq> None")
  case True
  with add have "i' = i" "dst' = dst" by (simp_all add: addAtEpochBatch_skip)
  then show ?thesis using ok b by (simp add: delivers_Nil)
next
  case False
  obtain r out where ro: "reassemble (hi_reassembler i) f epoch protected = (r, out)" by fastforce
  let ?i = "i\<lparr>hi_reassembler := r\<rparr>"
  have "reassembler_ok r"
    using reassemble_ok [OF _ f, of "hi_reassembler i" protected epoch] ok ro
    by (simp add: inbox_ok_def reassemble_def)
  then have okr: "inbox_ok ?i" by (rule inbox_ok_set_reassembler [OF ok])
  have start: "delivers i ?i []" by (rule delivers_Nil) simp_all
  from False add have step: "(case out of Inl err \<Rightarrow> (?i, dst, Inl err) | Inr None \<Rightarrow> (?i, dst, Inr ())
      | Inr (Some body) \<Rightarrow> deliverCompleted ?i dst
          \<lparr>ch_typ = hf_typ f, ch_sequence = hf_messageSequence f, ch_body = body\<rparr>) = (i', dst', res)"
    by (simp add: addAtEpochBatch_new [OF _ _ ro])
  show ?thesis
  proof (cases "\<exists>body. out = Inr (Some body)")
    case True
    then obtain body where body: "out = Inr (Some body)" by blast
    let ?m = "\<lparr>ch_typ = hf_typ f, ch_sequence = hf_messageSequence f, ch_body = body\<rparr>"
    from step body have "deliverCompleted ?i dst ?m = (i', dst', res)" by simp
    moreover have "map_of (hi_ready ?i) (ch_sequence ?m) = None" using False by simp
    ultimately have "\<exists>ms. batch_list dst' = batch_list dst @ ms \<and> batch_ok dst' \<and> delivers ?i i' ms \<and> inbox_ok i' \<and>
        hi_reassembler i' = hi_reassembler ?i \<and> (case res of Inl err \<Rightarrow> i' = ?i \<and> ms = []
         | Inr _ \<Rightarrow> insert ?m (snd ` set (hi_ready ?i)) = set ms \<union> snd ` set (hi_ready i'))"
      by (intro deliverCompleted_spec [OF okr _ b])
    then show ?thesis
    proof (elim exE, intro exI)
      fix ms
      assume "batch_list dst' = batch_list dst @ ms \<and> batch_ok dst' \<and> delivers ?i i' ms \<and> inbox_ok i' \<and>
        hi_reassembler i' = hi_reassembler ?i \<and> (case res of Inl err \<Rightarrow> i' = ?i \<and> ms = []
         | Inr _ \<Rightarrow> insert ?m (snd ` set (hi_ready ?i)) = set ms \<union> snd ` set (hi_ready i'))"
      then show "batch_list dst' = batch_list dst @ ms \<and> batch_ok dst' \<and> delivers i i' ms \<and> inbox_ok i' \<and>
          (isl res \<longrightarrow> ms = [])"
        using delivers_append [OF start, of i' ms] start okr by (cases res) simp_all
    qed
  next
    case no: False
    then consider err where "out = Inl err" | "out = Inr None" by (cases out) auto
    then have "i' = ?i \<and> dst' = dst" using step by cases simp_all
    then show ?thesis using okr start b by (intro exI [of _ "[]"]) simp
  qed
qed

text \<open>The list variant of the entry point and whole runs.\<close>

lemma drainReady_values: "cb_values dst \<noteq> None \<Longrightarrow> cb_values (snd (drainReady i dst)) \<noteq> None"
proof (induction i dst rule: drainReady.induct)
  case (1 i dst)
  show ?case
  proof (cases "map_of (hi_ready i) (hi_expected i)")
    case (Some message)
    have "cb_values (batchAdd dst message) \<noteq> None" using 1(2) by (auto simp: batchAdd_def)
    from 1(1) [OF Some this] Some show ?thesis by (simp add: drainReady.simps [of i])
  qed (simp add: drainReady.simps [of i] 1(2))
qed

lemma addAtEpochBatch_values:
  assumes "cb_values dst \<noteq> None"
  shows "cb_values (fst (snd (addAtEpochBatch i dst f epoch protected))) \<noteq> None"
proof -
  have d: "cb_values (fst (snd (deliverCompleted j dst m))) \<noteq> None" for j m
    using assms drainReady_values [of "batchAdd dst m"]
    by (auto simp: deliverCompleted_def case_prod_unfold Let_def batchAdd_def)
  obtain r out where ro: "reassemble (hi_reassembler i) f epoch protected = (r, out)" by fastforce
  show ?thesis
  proof (cases "hf_messageSequence f < hi_expected i \<or> map_of (hi_ready i) (hf_messageSequence f) \<noteq> None")
    case True
    then show ?thesis using assms by (simp add: addAtEpochBatch_skip)
  next
    case False
    then show ?thesis using assms d by (simp add: addAtEpochBatch_new [OF _ _ ro] split: sum.split option.split)
  qed
qed

lemma addAtEpochInto_spec:
  assumes ok: "inbox_ok i" and f: "fragment_ok f" and add: "addAtEpochInto i [] f epoch protected = (i', res)"
  shows "inbox_ok i' \<and> delivers i i' (case res of Inl _ \<Rightarrow> [] | Inr out \<Rightarrow> out)"
proof -
  let ?d = "completedHandshakeBatchFor (Some [])"
  obtain b res' where b: "addAtEpochBatch i ?d f epoch protected = (i', b, res')"
    using add by (auto simp: addAtEpochInto_def split: prod.splits sum.splits)
  from addAtEpochBatch_spec [OF ok f conjunct1 [OF batch_new] b] obtain ms where
    ms: "batch_list b = ms" "delivers i i' ms" "inbox_ok i'" "isl res' \<longrightarrow> ms = []"
    using batch_new [of "Some []"] by auto
  have "cb_values b \<noteq> None"
    using addAtEpochBatch_values [of ?d i f epoch protected] b by (simp add: completedHandshakeBatchFor_def)
  then have "(case res of Inl _ \<Rightarrow> [] | Inr out \<Rightarrow> out) = ms"
    using add b ms(1,4) by (cases res') (auto simp: addAtEpochInto_def batch_list_def)
  then show ?thesis using ms by simp
qed

lemma inboxRun_spec:
  "inbox_ok i \<Longrightarrow> \<forall>(f, x) \<in> set fs. fragment_ok f \<Longrightarrow> inboxRun i fs = (i', out) \<Longrightarrow> inbox_ok i' \<and> delivers i i' out"
proof (induction fs arbitrary: i out)
  case Nil
  then show ?case by (auto simp: delivers_Nil)
next
  case (Cons a fs)
  obtain f epoch protected where a: "a = (f, epoch, protected)" by (cases a)
  obtain j res where j: "addAtEpochInto i [] f epoch protected = (j, res)" by fastforce
  obtain more where more: "inboxRun j fs = (i', more)" "out = (case res of Inl _ \<Rightarrow> [] | Inr o1 \<Rightarrow> o1) @ more"
    using Cons.prems(3) a j by (auto split: sum.splits prod.splits)
  have "inbox_ok j \<and> delivers i j (case res of Inl _ \<Rightarrow> [] | Inr o1 \<Rightarrow> o1)"
    using Cons.prems(1,2) a by (intro addAtEpochInto_spec [OF _ _ j]) auto
  with Cons.IH [of j more] Cons.prems(2) more show ?case by (auto intro: delivers_append)
qed

lemma inbox_ok_new: "0 \<le> maxMessages \<Longrightarrow> 0 \<le> maxBytes \<Longrightarrow> inbox_ok (newHandshakeInbox e maxMessage maxMessages maxBytes)"
  by (simp add: inbox_ok_def ready_ok_def newHandshakeInbox_def reassembler_ok_new)

text \<open>
  C19. Messages are delivered exactly in sequence order. Whatever fragments arrive, protected or
  not, in any order, whole, split, repeated or malformed in content: the messages a new inbox
  delivers carry the sequence numbers e, e + 1, e + 2, ... without gap or repetition, the next
  expected number is the one after the last delivered, and the buffer of early messages stays
  within its two limits.
\<close>

theorem inbox_delivers_in_order:
  assumes "0 \<le> maxMessages" and "0 \<le> maxBytes" and "\<forall>(f, x) \<in> set arrivals. fragment_ok f"
    and "inboxRun (newHandshakeInbox e maxMessage maxMessages maxBytes) arrivals = (i, delivered)"
  shows "map ch_sequence delivered = map (\<lambda>k. e + of_nat k) [0..<length delivered] \<and>
    hi_expected i = e + of_nat (length delivered) \<and> map_of (hi_ready i) (hi_expected i) = None \<and>
    int (length (hi_ready i)) \<le> maxMessages \<and>
    (\<Sum>(k, m) \<leftarrow> hi_ready i. int (length (ch_body m))) \<le> maxBytes"
proof -
  from inboxRun_spec [OF inbox_ok_new [OF assms(1,2)] assms(3,4)]
  have "inbox_ok i" "delivers (newHandshakeInbox e maxMessage maxMessages maxBytes) i delivered" by simp_all
  then show ?thesis
    by (auto simp: inbox_ok_def ready_ok_def delivers_def consecutive_def newHandshakeInbox_def)
qed

definition sampleMessage :: "u16 \<Rightarrow> bytes \<Rightarrow> handshakeFragment" where
  "sampleMessage s body = \<lparr>hf_typ = 8, hf_messageSequence = s, hf_length = of_nat (length body), hf_offset = 0, hf_body = body\<rparr>"

theorem inbox_delivers_in_order_witness:
  "let arrivals = [(sampleMessage 5 [1, 2], 2, True), (sampleMessage 4 [9], 2, True), (sampleMessage 5 [1, 2], 2, True)];
       delivered = snd (inboxRun (newHandshakeInbox 4 100 10 1000) arrivals)
   in length delivered = 2 \<and> map ch_sequence delivered = map (\<lambda>k. 4 + of_nat k) [0..<length delivered]"
proof -
  let ?a = "[(sampleMessage 5 [1, 2], 2, True), (sampleMessage 4 [9], 2, True), (sampleMessage 5 [1, 2], 2, True)]"
  let ?r = "inboxRun (newHandshakeInbox 4 100 10 1000) ?a"
  have "map ch_sequence (snd ?r) = map (\<lambda>k. 4 + of_nat k) [0..<length (snd ?r)]"
    by (rule conjunct1 [OF inbox_delivers_in_order [of 10 1000 ?a 4 100 "fst ?r"]])
      (simp_all add: sampleMessage_def fragment_ok_def)
  moreover have "length (snd ?r) = 2" by code_simp
  ultimately show ?thesis unfolding Let_def by blast
qed


section \<open>Every message is delivered\<close>

definition wholeMessage :: "completedHandshake \<Rightarrow> handshakeFragment" where
  "wholeMessage m = \<lparr>hf_typ = ch_typ m, hf_messageSequence = ch_sequence m,
     hf_length = of_nat (length (ch_body m)), hf_offset = 0, hf_body = ch_body m\<rparr>"

definition idle :: "nat \<Rightarrow> reassembler \<Rightarrow> bool" where
  "idle bound r \<longleftrightarrow> ra_messages r = [] \<and> ra_allocated r = 0 \<and> 0 < ra_maxMessages r \<and>
     int bound \<le> ra_maxSize r \<and> int bound \<le> ra_maxBytes r"

lemma reassemble_whole:
  assumes "idle bound r" and "length (ch_body m) \<le> bound" and "length (ch_body m) < 2 ^ 32"
  shows "\<exists>r'. idle bound r' \<and> reassemble r (wholeMessage m) epoch protected = (r', Inr (Some (ch_body m)))"
  using assms
  by (simp add: idle_def reassemble_def addProtected_def reassemblerAdd_def addAtEpochAndRecord_def wholeMessage_def
      unsigned_of_nat take_bit_nat_eq_self)

lemma inbox_whole_step:
  assumes ok: "inbox_ok i" and idle: "idle bound (hi_reassembler i)"
    and m: "length (ch_body m) \<le> bound" "length (ch_body m) < 2 ^ 32"
    and new: "\<not> ch_sequence m < hi_expected i" "map_of (hi_ready i) (ch_sequence m) = None"
    and room: "int (length (hi_ready i)) < hi_maxReady i" "hi_readyBytes i + int (length (ch_body m)) \<le> hi_maxBytes i"
  shows "\<exists>i' out. addAtEpochInto i [] (wholeMessage m) epoch protected = (i', Inr out) \<and> inbox_ok i' \<and>
    idle bound (hi_reassembler i') \<and> delivers i i' out \<and> insert m (snd ` set (hi_ready i)) = set out \<union> snd ` set (hi_ready i')"
proof -
  let ?d = "completedHandshakeBatchFor (Some [])"
  obtain r where r: "idle bound r" "reassemble (hi_reassembler i) (wholeMessage m) epoch protected = (r, Inr (Some (ch_body m)))"
    using reassemble_whole [OF idle m] by blast
  let ?i = "i\<lparr>hi_reassembler := r\<rparr>"
  have "reassembler_ok r" using r(1) by (simp add: idle_def reassembler_ok_def)
  then have okr: "inbox_ok ?i" by (rule inbox_ok_set_reassembler [OF ok])
  obtain i' b res where d: "deliverCompleted ?i ?d m = (i', b, res)" by (cases "deliverCompleted ?i ?d m")
  have eta: "\<lparr>ch_typ = ch_typ m, ch_sequence = ch_sequence m, ch_body = ch_body m\<rparr> = m" by simp
  have add: "addAtEpochBatch i ?d (wholeMessage m) epoch protected = (i', b, res)"
    using new d by (subst addAtEpochBatch_new [OF _ _ r(2)]) (simp_all add: wholeMessage_def eta)
  have res: "res = Inr ()" using d room by (auto simp: deliverCompleted_def case_prod_unfold Let_def split: if_splits)
  have "map_of (hi_ready ?i) (ch_sequence m) = None" using new(2) by simp
  from deliverCompleted_spec [OF okr this conjunct1 [OF batch_new] d] res obtain ms where
    ms: "batch_list b = ms" "delivers ?i i' ms" "inbox_ok i'" "hi_reassembler i' = r"
    "insert m (snd ` set (hi_ready i)) = set ms \<union> snd ` set (hi_ready i')"
    using batch_new [of "Some []"] by auto
  have "cb_values b \<noteq> None"
    using addAtEpochBatch_values [of ?d i "wholeMessage m" epoch protected] add
    by (simp add: completedHandshakeBatchFor_def)
  then have "addAtEpochInto i [] (wholeMessage m) epoch protected = (i', Inr ms)"
    using add res ms(1) by (auto simp: addAtEpochInto_def batch_list_def)
  moreover have "delivers i i' ms" using delivers_append [OF delivers_Nil, of ?i i i' ms] ms(2) by simp
  ultimately show ?thesis using ms r(1) by blast
qed


text \<open>
  The state of a run over whole messages of \<open>ms\<close>: what has been delivered and what is buffered
  together are exactly the messages that arrived.
\<close>

definition collected ::
  "u16 \<Rightarrow> completedHandshake list \<Rightarrow> handshakeInbox \<Rightarrow> completedHandshake list \<Rightarrow> completedHandshake set \<Rightarrow> bool" where
  "collected e ms i D A \<longleftrightarrow> inbox_ok i \<and> idle (sum_list (map (\<lambda>m. length (ch_body m)) ms)) (hi_reassembler i) \<and>
     int (length ms) \<le> hi_maxReady i \<and> int (sum_list (map (\<lambda>m. length (ch_body m)) ms)) \<le> hi_maxBytes i \<and>
     consecutive e D \<and> hi_expected i = e + of_nat (length D) \<and> set D \<union> snd ` set (hi_ready i) = A \<and> A \<subseteq> set ms"

lemma unat_sequence: "unat (e :: u16) + n < 2 ^ 16 \<Longrightarrow> k \<le> n \<Longrightarrow> unat (e + of_nat k) = unat e + k"
  by (simp add: unat_word_ariths unsigned_of_nat take_bit_nat_eq_self)

lemma consecutive_nth: "consecutive e ms \<Longrightarrow> k < length ms \<Longrightarrow> ch_sequence (ms ! k) = e + of_nat k"
  unfolding consecutive_def by (metis (no_types, lifting) add_0 length_map nth_map nth_map_upt diff_zero length_upt)

lemma consecutive_index:
  assumes "consecutive e ms" and "unat e + length ms < 2 ^ 16" and "m \<in> set ms"
  obtains k where "k < length ms" and "m = ms ! k" and "unat (ch_sequence m) = unat e + k"
proof -
  from assms(3) obtain k where k: "k < length ms" "m = ms ! k" by (auto simp: in_set_conv_nth)
  moreover have "unat (ch_sequence m) = unat e + k"
    using consecutive_nth [OF assms(1) k(1)] k unat_sequence [OF assms(2), of k] by simp
  ultimately show thesis by (rule that)
qed

lemma consecutive_inj:
  assumes "consecutive e ms" and "unat e + length ms < 2 ^ 16" and "x \<in> set ms" "y \<in> set ms" "ch_sequence x = ch_sequence y"
  shows "x = y"
  using consecutive_index [OF assms(1,2,3)] consecutive_index [OF assms(1,2,4)] assms(5) by (metis add_left_cancel)

lemma consecutive_distinct:
  assumes "consecutive e ms" and "unat e + length ms < 2 ^ 16"
  shows "distinct ms"
  unfolding distinct_conv_nth
proof (intro allI impI notI)
  fix a b assume ab: "a < length ms" "b < length ms" "a \<noteq> b" "ms ! a = ms ! b"
  then have "e + of_nat a = e + of_nat b" using consecutive_nth [OF assms(1)] by metis
  then show False using unat_sequence [OF assms(2), of a] unat_sequence [OF assms(2), of b] ab by (simp del: add_left_cancel)
qed

lemma consecutive_prefix:
  assumes ms: "consecutive e ms" "unat e + length ms < 2 ^ 16" and D: "consecutive e D" "set D \<subseteq> set ms" "length D \<le> length ms"
  shows "D = take (length D) ms"
proof (rule nth_equalityI)
  fix k assume k: "k < length D"
  then have "ch_sequence (D ! k) = ch_sequence (ms ! k)"
    using consecutive_nth [OF D(1)] consecutive_nth [OF ms(1), of k] D(3) by simp
  then have "D ! k = ms ! k" using consecutive_inj [OF ms] k D by (meson in_mono nth_mem order_less_le_trans)
  then show "D ! k = take (length D) ms ! k" using k by simp
qed (use D(3) in simp)


lemma consecutive_length:
  assumes ms: "consecutive e ms" "unat e + length ms < 2 ^ 16" and D: "consecutive e D" "set D \<subseteq> set ms"
  shows "length D \<le> length ms"
proof (rule ccontr)
  assume "\<not> length D \<le> length ms"
  then have n: "length ms < length D" by simp
  then have mem: "D ! length ms \<in> set ms" using D(2) by auto
  obtain k where "k < length ms" "unat (ch_sequence (D ! length ms)) = unat e + k"
    by (rule consecutive_index [OF ms mem]) (rule that)
  then show False using consecutive_nth [OF D(1) n] unat_sequence [OF ms(2), of "length ms"] by simp
qed

lemma sum_list_subset:
  fixes g :: "'a \<Rightarrow> nat"
  assumes "distinct xs" and "set xs \<subseteq> set ys" and "distinct ys"
  shows "length xs \<le> length ys \<and> sum_list (map g xs) \<le> sum_list (map g ys)"
  using assms by (simp add: sum_list_distinct_conv_sum_set sum_mono2 card_mono distinct_card [symmetric])

lemma sum_list_int: "(\<Sum>(k, m) \<leftarrow> al. int (g m)) = int (sum_list (map g (map snd al)))"
  by (induction al) auto

lemma collected_room:
  assumes c: "collected e ms i D A" and ms: "consecutive e ms" "unat e + length ms < 2 ^ 16"
    and m: "m \<in> set ms" "map_of (hi_ready i) (ch_sequence m) = None"
  shows "int (length (hi_ready i)) < hi_maxReady i" and "hi_readyBytes i + int (length (ch_body m)) \<le> hi_maxBytes i"
proof -
  let ?xs = "m # map snd (hi_ready i)" and ?g = "\<lambda>m. length (ch_body m)"
  have ready: "ready_ok i" and sub: "snd ` set (hi_ready i) \<subseteq> set ms" using c by (auto simp: collected_def inbox_ok_def)
  have keys: "map fst (hi_ready i) = map ch_sequence (map snd (hi_ready i))"
    using ready by (auto simp: ready_ok_def)
  have "distinct (map ch_sequence (map snd (hi_ready i)))" using ready unfolding keys [symmetric] by (simp add: ready_ok_def)
  then have "distinct (map snd (hi_ready i))" unfolding distinct_map [of ch_sequence] by blast
  moreover have "m \<notin> snd ` set (hi_ready i)"
  proof
    assume "m \<in> snd ` set (hi_ready i)"
    then obtain k where "(k, m) \<in> set (hi_ready i)" by auto
    moreover have "k = ch_sequence m" using ready calculation by (auto simp: ready_ok_def)
    ultimately show False using m(2) by (auto simp: map_of_eq_None_iff image_iff)
  qed
  ultimately have "length ?xs \<le> length ms \<and> sum_list (map ?g ?xs) \<le> sum_list (map ?g ms)"
    using sub m(1) consecutive_distinct [OF ms] by (intro sum_list_subset) auto
  moreover have "hi_readyBytes i = int (sum_list (map ?g (map snd (hi_ready i))))"
    using ready unfolding ready_ok_def sum_list_int by blast
  ultimately show "int (length (hi_ready i)) < hi_maxReady i" and "hi_readyBytes i + int (length (ch_body m)) \<le> hi_maxBytes i"
    using c by (simp_all add: collected_def)
qed


lemma collected_seen:
  assumes c: "collected e ms i D A" and ms: "consecutive e ms" "unat e + length ms < 2 ^ 16" and m: "m \<in> set ms"
    and old: "ch_sequence m < hi_expected i \<or> map_of (hi_ready i) (ch_sequence m) \<noteq> None"
  shows "m \<in> A"
proof (cases "ch_sequence m < hi_expected i")
  case True
  have D: "D = take (length D) ms" "length D \<le> length ms"
    using consecutive_prefix [OF ms] consecutive_length [OF ms] c by (auto simp: collected_def)
  obtain k where k: "k < length ms" "m = ms ! k" "unat (ch_sequence m) = unat e + k" by (rule consecutive_index [OF ms m])
  have "unat (hi_expected i) = unat e + length D"
    using c unat_sequence [OF ms(2) D(2)] by (simp add: collected_def)
  then have less: "k < length D" using True k by (simp add: word_less_nat_alt)
  have "m = D ! k" unfolding k(2) by (subst D(1)) (simp add: less)
  then have "m \<in> set D" using less by simp
  then show ?thesis using c unfolding collected_def by blast
next
  case False
  with old obtain m' where m': "(ch_sequence m, m') \<in> set (hi_ready i)" by (auto dest: map_of_SomeD)
  have "ch_sequence m' = ch_sequence m" using c m' unfolding collected_def inbox_ok_def ready_ok_def by blast
  moreover have "m' \<in> snd ` set (hi_ready i)" using m' by force
  then have "m' \<in> A" "A \<subseteq> set ms" using c unfolding collected_def by blast+
  ultimately show ?thesis using consecutive_inj [OF ms _ m] by blast
qed

lemma collected_step:
  assumes c: "collected e ms i D A" and ms: "consecutive e ms" "unat e + length ms < 2 ^ 16" and m: "m \<in> set ms"
    and size: "length (ch_body m) < 2 ^ 24"
  shows "\<exists>i' out. addAtEpochInto i [] (wholeMessage m) epoch protected = (i', Inr out) \<and> collected e ms i' (D @ out) (insert m A)"
proof (cases "ch_sequence m < hi_expected i \<or> map_of (hi_ready i) (ch_sequence m) \<noteq> None")
  case True
  have "insert m A = A" using collected_seen [OF c ms m True] by (rule insert_absorb)
  moreover have "addAtEpochInto i [] (wholeMessage m) epoch protected = (i, Inr [])"
    using True by (simp add: addAtEpochInto_def addAtEpochBatch_skip wholeMessage_def completedHandshakeBatchFor_def)
  ultimately show ?thesis using c by (intro exI conjI) (assumption, simp)
next
  case False
  let ?n = "sum_list (map (\<lambda>m. length (ch_body m)) ms)"
  have none: "map_of (hi_ready i) (ch_sequence m) = None" and le: "\<not> ch_sequence m < hi_expected i" using False by simp_all
  have fits: "length (ch_body m) \<le> ?n" using m by (intro member_le_sum_list) auto
  have size32: "length (ch_body m) < 2 ^ 32" using size by simp
  have i: "inbox_ok i" "idle ?n (hi_reassembler i)" using c by (simp_all add: collected_def)
  obtain i' out where add: "addAtEpochInto i [] (wholeMessage m) epoch protected = (i', Inr out)"
    and i': "inbox_ok i'" "idle ?n (hi_reassembler i')" "delivers i i' out"
      "insert m (snd ` set (hi_ready i)) = set out \<union> snd ` set (hi_ready i')"
    using inbox_whole_step [OF i fits size32 le none collected_room [OF c ms m none]] by blast
  have "A = set D \<union> snd ` set (hi_ready i)" using c unfolding collected_def by blast
  then have "set (D @ out) \<union> snd ` set (hi_ready i') = insert m A"
    unfolding set_append Un_assoc i'(4) [symmetric] by simp
  then have "collected e ms i' (D @ out) (insert m A)"
    using c i'(1,2,3) m unfolding collected_def delivers_def consecutive_append by (simp add: add.assoc)
  then show ?thesis using add by blast
qed


lemma collected_run:
  assumes ms: "consecutive e ms" "unat e + length ms < 2 ^ 16"
  shows "collected e ms i D A \<Longrightarrow>
    \<forall>a \<in> set arrivals. fst a \<in> set ms \<and> length (ch_body (fst a)) < 2 ^ 24 \<Longrightarrow>
    \<exists>i' out. inboxRun i (map (\<lambda>(m, x). (wholeMessage m, x)) arrivals) = (i', out) \<and>
      collected e ms i' (D @ out) (A \<union> fst ` set arrivals)"
proof (induction arrivals arbitrary: i D A)
  case Nil
  then show ?case by simp
next
  case (Cons a arrivals)
  obtain m epoch protected where a: "a = (m, epoch, protected)" by (cases a)
  have m: "m \<in> set ms" "length (ch_body m) < 2 ^ 24" using Cons.prems(2) a by auto
  obtain j o1 where j: "addAtEpochInto i [] (wholeMessage m) epoch protected = (j, Inr o1)"
    and cj: "collected e ms j (D @ o1) (insert m A)"
    using collected_step [OF Cons.prems(1) ms m] by blast
  have rest: "\<forall>a \<in> set arrivals. fst a \<in> set ms \<and> length (ch_body (fst a)) < 2 ^ 24" using Cons.prems(2) by simp
  obtain i' o2 where "inboxRun j (map (\<lambda>(m, x). (wholeMessage m, x)) arrivals) = (i', o2)"
    "collected e ms i' ((D @ o1) @ o2) (insert m A \<union> fst ` set arrivals)"
    using Cons.IH [OF cj rest] by blast
  then show ?case using j a by simp
qed

lemma collected_complete:
  assumes c: "collected e ms i D (set ms)" and ms: "consecutive e ms" "unat e + length ms < 2 ^ 16"
  shows "D = ms"
proof -
  have D: "D = take (length D) ms" "length D \<le> length ms"
    using consecutive_prefix [OF ms] consecutive_length [OF ms] c by (auto simp: collected_def)
  have "length ms \<le> length D"
  proof (rule ccontr)
    assume "\<not> length ms \<le> length D"
    then have n: "length D < length ms" by simp
    have seq: "ch_sequence (ms ! length D) = hi_expected i"
      using consecutive_nth [OF ms(1) n] c by (simp add: collected_def)
    have "ms ! length D \<notin> set D"
      using n consecutive_distinct [OF ms] by (subst D(1)) (auto simp: in_set_conv_nth nth_eq_iff_index_eq)
    moreover have "ms ! length D \<in> set D \<union> snd ` set (hi_ready i)"
      using c n unfolding collected_def by auto
    ultimately obtain k where k: "(k, ms ! length D) \<in> set (hi_ready i)" by auto
    then have "k = hi_expected i" using c seq unfolding collected_def inbox_ok_def ready_ok_def by auto
    moreover have "map_of (hi_ready i) (hi_expected i) = None" using c unfolding collected_def inbox_ok_def by blast
    ultimately show False using k by (force simp: map_of_eq_None_iff)
  qed
  with D show ?thesis by simp
qed

text \<open>
  C11. No message is lost or stuck. When the messages numbered e, e + 1, ... arrive each in one
  fragment, in any order and any number of times, in plain or protected records, and the limits
  admit them all, the inbox delivers every one of them exactly once and in order.
\<close>

theorem inbox_delivers_every_message:
  assumes "map ch_sequence ms = map (\<lambda>k. e + of_nat k) [0..<length ms]" and "unat e + length ms < 2 ^ 16"
    and "\<forall>m \<in> set ms. length (ch_body m) < 2 ^ 24" and "fst ` set arrivals = set ms"
    and "ms \<noteq> []" and "int (length ms) \<le> maxMessages"
    and "int (sum_list (map (\<lambda>m. length (ch_body m)) ms)) \<le> min maxMessage maxBytes"
  shows "snd (inboxRun (newHandshakeInbox e maxMessage maxMessages maxBytes)
           (map (\<lambda>(m, x). (wholeMessage m, x)) arrivals)) = ms"
proof -
  let ?i = "newHandshakeInbox e maxMessage maxMessages maxBytes"
  have ms: "consecutive e ms" using assms(1) by (simp add: consecutive_def)
  have pos: "0 < maxMessages" using assms(5,6) by (cases ms) auto
  have "inbox_ok ?i" using assms(6,7) by (intro inbox_ok_new) auto
  then have "collected e ms ?i [] {}"
    using assms(6,7) pos
    by (auto simp: collected_def idle_def newHandshakeInbox_def newReassemblerWithLimits_def)
  moreover have "\<forall>a \<in> set arrivals. fst a \<in> set ms \<and> length (ch_body (fst a)) < 2 ^ 24"
    using assms(3,4) by auto
  ultimately obtain i' out where run: "inboxRun ?i (map (\<lambda>(m, x). (wholeMessage m, x)) arrivals) = (i', out)"
    and c: "collected e ms i' ([] @ out) ({} \<union> fst ` set arrivals)"
    using collected_run [OF ms assms(2)] by blast
  have "out = ms" using c assms(4) by (intro collected_complete [OF _ ms assms(2)]) simp
  then show ?thesis using run by simp
qed

theorem inbox_delivers_every_message_witness:
  "let m1 = \<lparr>ch_typ = 8, ch_sequence = 4, ch_body = [9]\<rparr>; m2 = \<lparr>ch_typ = 11, ch_sequence = 5, ch_body = [1, 2]\<rparr> in
   snd (inboxRun (newHandshakeInbox 4 100 10 1000)
     (map (\<lambda>(m, x). (wholeMessage m, x)) [(m2, 2, True), (m2, 0, False), (m1, 2, True)])) = [m1, m2]"
  unfolding Let_def
  by (rule inbox_delivers_every_message) auto

end
