(* ===== verification/Flight.thy ===== *)
theory Flight
  imports Protected_Record "HOL-Library.Multiset"
begin

text \<open>
  \<^verbatim>\<open>src/flight.go\<close>: a flight keeps the records of a group of handshake messages until they
  are acknowledged. A retransmission rebuilds the pending records under fresh record numbers.
  The closures \<open>rebuildPending\<close> and \<open>resizeForMTU\<close> become the constructors of \<open>flightSource\<close>
  with the variables they capture; a captured cipher is an address of a store of ciphers, so
  that a flight and the connection see the same sequence numbers. Slice capacities and the
  storage shared by the wire images are not represented.
\<close>

section \<open>Records of a flight\<close>

record flightRecord =
  fr_number :: recordNumber
  fr_priorNumber :: recordNumber
  fr_earlierNumbers :: "recordNumber list"
  fr_wire :: bytes
  fr_acked :: bool
  fr_sent :: bool
  fr_hasPrior :: bool

definition newFlightRecord :: "recordNumber \<Rightarrow> bytes \<Rightarrow> flightRecord" where
  "newFlightRecord number wire =
     \<lparr>fr_number = number, fr_priorNumber = RecordNumber 0 0, fr_earlierNumbers = [], fr_wire = wire,
      fr_acked = False, fr_sent = False, fr_hasPrior = False\<rparr>"

definition replaceNumber :: "flightRecord \<Rightarrow> recordNumber \<Rightarrow> flightRecord" where
  "replaceNumber r number =
     r\<lparr>fr_earlierNumbers := (if fr_hasPrior r then fr_earlierNumbers r @ [fr_priorNumber r] else fr_earlierNumbers r),
       fr_priorNumber := fr_number r, fr_hasPrior := True, fr_number := number\<rparr>"

definition hasNumber :: "flightRecord \<Rightarrow> recordNumber \<Rightarrow> bool" where
  "hasNumber r number =
     (if fr_number r = number then True
      else if fr_hasPrior r \<and> fr_priorNumber r = number then True
      else number \<in> set (fr_earlierNumbers r))"

definition historyLength :: "flightRecord \<Rightarrow> nat" where
  "historyLength r = (if fr_hasPrior r then 1 + length (fr_earlierNumbers r) else 0)"

definition acknowledgedBy :: "flightRecord \<Rightarrow> recordNumber list \<Rightarrow> bool" where
  "acknowledgedBy r numbers = list_ex (hasNumber r) numbers"

text \<open>The index set of a rebuild: ten inline entries, then a slice.\<close>

record flightRecordIndices =
  fi_inline :: "nat list"
  fi_overflow :: "nat list"
  fi_count :: nat

definition noIndices :: flightRecordIndices where
  "noIndices = \<lparr>fi_inline = replicate 10 0, fi_overflow = [], fi_count = 0\<rparr>"

definition indicesAdd :: "flightRecordIndices \<Rightarrow> nat \<Rightarrow> flightRecordIndices" where
  "indicesAdd s index =
     (if fi_count s < length (fi_inline s) then s\<lparr>fi_inline := (fi_inline s)[fi_count s := index]\<rparr>
      else s\<lparr>fi_overflow := fi_overflow s @ [index]\<rparr>)\<lparr>fi_count := fi_count s + 1\<rparr>"

definition indicesAt :: "flightRecordIndices \<Rightarrow> nat \<Rightarrow> nat" where
  "indicesAt s index =
     (if index < length (fi_inline s) then fi_inline s ! index else fi_overflow s ! (index - length (fi_inline s)))"

section \<open>The flight\<close>

type_synonym cipherStore = "nat \<Rightarrow> recordCipher"

datatype flightSource =
    NoSource
  | PlainSource "handshakeMessage list" u16 u64
  | ProtectedSource "handshakeMessage list" nat "handshakeFragment list" int
  | CombinedSource "flightRecord list" flightSource "flightRecord list" flightSource

record flight =
  fl_records :: "flightRecord list"
  fl_source :: flightSource
  fl_firstSentAt :: "int option"
  fl_retransmitted :: bool

definition claimPartialRetransmission :: "flight \<Rightarrow> flight \<times> bool" where
  "claimPartialRetransmission f =
     (if fl_retransmitted f then (f, False) else (f\<lparr>fl_retransmitted := True\<rparr>, True))"

definition noteSend :: "flight \<Rightarrow> int \<Rightarrow> bool \<Rightarrow> flight" where
  "noteSend f now retransmission =
     (let f1 = (if fl_firstSentAt f = None then f\<lparr>fl_firstSentAt := Some now\<rparr> else f)
      in if retransmission then f1\<lparr>fl_retransmitted := True\<rparr> else f1)"

definition rttSample :: "flight \<Rightarrow> int \<Rightarrow> int option" where
  "rttSample f now =
     (case fl_firstSentAt f of
        None \<Rightarrow> None
      | Some sentAt \<Rightarrow> if fl_retransmitted f \<or> now < sentAt then None else Some (now - sentAt))"

section \<open>Building\<close>

fun plainFlightRecords :: "u16 \<Rightarrow> u64 \<Rightarrow> handshakeFragment list \<Rightarrow> (flightRecord list \<times> u64) result" where
  "plainFlightRecords epoch recordSequence [] = Inr ([], recordSequence)"
| "plainFlightRecords epoch recordSequence (fragment # fragments) =
     (let payloadLen = handshakeHeaderLen + length (hf_body fragment) in
      rbind (allocatePlainRecordWire recordTypeHandshake epoch recordSequence (int payloadLen)) (\<lambda>wire.
      rbind (marshalHandshakeFragmentInto (length wire - plainRecordHeaderLen) fragment) (\<lambda>payload.
      rbind (plainFlightRecords epoch (recordSequence + 1) fragments) (\<lambda>(records, next).
        Inr (newFlightRecord (RecordNumber (ucast epoch) recordSequence) (copy_at plainRecordHeaderLen payload wire)
               # records, next)))))"

definition plainMaxFragment :: "int \<Rightarrow> int" where
  "plainMaxFragment mtu =
     min (mtu - int plainRecordHeaderLen - int handshakeHeaderLen) (int maxRecordContent - int handshakeHeaderLen)"

definition buildPlainFlight ::
  "handshakeMessage list \<Rightarrow> int \<Rightarrow> u16 \<Rightarrow> u64 \<Rightarrow> (flight \<times> u64) result" where
  "buildPlainFlight messages mtu epoch firstRecordSequence =
     (if epoch \<noteq> 0 then Inl (ProtocolError ''plaintext handshake flight must use epoch zero'')
      else
        let maxFragment = plainMaxFragment mtu in
        if maxFragment < 1 then Inl (ConfigError ''MTU is too small for a handshake fragment'')
        else
          rbind (countHandshakeFragments messages (nat maxFragment)) (\<lambda>fragmentCount.
          rbind (plainFlightRecords epoch firstRecordSequence
                   (concat (map (\<lambda>message. fragmentHandshakeMessageInto message (nat maxFragment)) messages)))
            (\<lambda>(records, next).
              Inr (\<lparr>fl_records = records, fl_source = PlainSource messages epoch next,
                    fl_firstSentAt = None, fl_retransmitted = False\<rparr>, next))))"

fun protectedFlightRecords ::
  "int \<Rightarrow> recordCipher \<Rightarrow> handshakeFragment list \<Rightarrow> recordCipher \<times> flightRecord list result" where
  "protectedFlightRecords mtu cipher [] = (cipher, Inr [])"
| "protectedFlightRecords mtu cipher (fragment # fragments) =
     (let sequence = rc_nextSequence cipher in
      case sealHandshakeFragmentInto cipher fragment of
        (cipher1, Inl err) \<Rightarrow> (cipher1, Inl err)
      | (cipher1, Inr wire) \<Rightarrow>
          if mtu < int (length wire)
            then (cipher1, Inl (ProtocolError ''protected handshake record exceeds MTU''))
          else
            (case protectedFlightRecords mtu cipher1 fragments of
               (cipher2, Inl err) \<Rightarrow> (cipher2, Inl err)
             | (cipher2, Inr records) \<Rightarrow>
                 (cipher2, Inr (newFlightRecord (RecordNumber (rc_epoch cipher1) sequence) wire # records))))"

fun flightSizeOverflow :: "nat \<Rightarrow> nat list \<Rightarrow> bool" where
  "flightSizeOverflow wireBytes [] = False"
| "flightSizeOverflow wireBytes (n # ns) = (if maxInt - wireBytes < n then True else flightSizeOverflow (wireBytes + n) ns)"

definition protectedRecordOverhead :: "recordCipher \<Rightarrow> nat" where
  "protectedRecordOverhead cipher = headerLen16 cipher + ae_overhead (rc_aead cipher) + 1 + handshakeHeaderLen"

definition protectedMaxFragment :: "int \<Rightarrow> recordCipher \<Rightarrow> int" where
  "protectedMaxFragment mtu c =
     min (mtu - int (headerLen16 c) - int (ae_overhead (rc_aead c)) - 1 - int handshakeHeaderLen)
         (maxContent c - int handshakeHeaderLen)"

definition buildProtectedFlight ::
  "handshakeMessage list \<Rightarrow> int \<Rightarrow> nat option \<Rightarrow> cipherStore \<Rightarrow> cipherStore \<times> flight result" where
  "buildProtectedFlight messages mtu cipher store =
     (case cipher of
        None \<Rightarrow> (store, Inl (ProtocolError ''missing flight record cipher''))
      | Some addr \<Rightarrow>
          let c = store addr;
              maxFragment = protectedMaxFragment mtu c
          in if maxFragment < 1
               then (store, Inl (ConfigError ''MTU is too small for a protected handshake fragment''))
             else
               (case countHandshakeFragments messages (nat maxFragment) of
                  Inl err \<Rightarrow> (store, Inl err)
                | Inr fragmentCount \<Rightarrow>
                    if maxInt div protectedRecordOverhead c < fragmentCount \<or>
                       flightSizeOverflow (fragmentCount * protectedRecordOverhead c)
                         (map (\<lambda>message. length (hm_body message)) messages)
                      then (store, Inl (ProtocolError ''protected flight size overflow''))
                    else
                      let fragments = concat (map (\<lambda>message. fragmentHandshakeMessageInto message (nat maxFragment)) messages);
                          (c1, res) = protectedFlightRecords mtu c fragments
                      in (store(addr := c1),
                          case res of
                            Inl err \<Rightarrow> Inl err
                          | Inr records \<Rightarrow>
                              Inr \<lparr>fl_records = records, fl_source = ProtectedSource messages addr fragments mtu,
                                   fl_firstSentAt = None, fl_retransmitted = False\<rparr>)))"

section \<open>Rebuilding the pending records\<close>

definition pendingIndices :: "flightRecord list \<Rightarrow> nat list" where
  "pendingIndices records = filter (\<lambda>i. \<not> fr_acked (records ! i)) [0..<length records]"

definition pendingIndexSet :: "flightRecord list \<Rightarrow> flightRecordIndices" where
  "pendingIndexSet records =
     fold (\<lambda>i s. if \<not> fr_acked (records ! i) then indicesAdd s i else s) [0..<length records] noIndices"

definition indicesList :: "flightRecordIndices \<Rightarrow> nat list" where
  "indicesList s = map (indicesAt s) [0..<fi_count s]"

fun rebuildPlain :: "nat list \<Rightarrow> flightRecord list \<Rightarrow> u64 \<Rightarrow> flightRecord list \<times> u64 \<times> unit result" where
  "rebuildPlain [] records nextSequence = (records, nextSequence, Inr ())"
| "rebuildPlain (index # indices) records nextSequence =
     (case parsePlainRecordsMode (fr_wire (records ! index)) of
        Inl err \<Rightarrow> (records, nextSequence, Inl err)
      | Inr [] \<Rightarrow> (records, nextSequence, Inl (Panic ''index out of range''))
      | Inr (parsed # _) \<Rightarrow>
          (case marshalPlainRecord \<lparr>pr_typ = recordTypeHandshake, pr_epoch = 0, pr_sequence = nextSequence,
                                    pr_payload = pr_payload parsed\<rparr> of
             Inl err \<Rightarrow> (records, nextSequence, Inl err)
           | Inr wire \<Rightarrow>
               rebuildPlain indices
                 (records[index := replaceNumber ((records ! index)\<lparr>fr_wire := wire\<rparr>) (RecordNumber 0 nextSequence)])
                 (nextSequence + 1)))"

fun resealProtected ::
  "int \<Rightarrow> handshakeFragment list \<Rightarrow> nat list \<Rightarrow> flightRecord list \<Rightarrow> recordCipher \<Rightarrow>
   flightRecord list \<times> recordCipher \<times> unit result" where
  "resealProtected mtu fragments [] records cipher = (records, cipher, Inr ())"
| "resealProtected mtu fragments (index # indices) records cipher =
     (let sequence = rc_nextSequence cipher in
      case sealHandshakeFragmentInto cipher (fragments ! index) of
        (cipher1, Inl err) \<Rightarrow> (records, cipher1, Inl err)
      | (cipher1, Inr wire) \<Rightarrow>
          if mtu < int (length wire)
            then (records, cipher1, Inl (ProtocolError ''retransmitted protected handshake record exceeds MTU''))
          else
            resealProtected mtu fragments indices
              (records[index := replaceNumber ((records ! index)\<lparr>fr_wire := wire\<rparr>)
                                  (RecordNumber (rc_epoch cipher1) sequence)]) cipher1)"

definition rebuildProtected ::
  "int \<Rightarrow> handshakeFragment list \<Rightarrow> nat list \<Rightarrow> flightRecord list \<Rightarrow> recordCipher \<Rightarrow>
   flightRecord list \<times> recordCipher \<times> unit result" where
  "rebuildProtected mtu fragments indices records cipher =
     (if flightSizeOverflow 0 (map (\<lambda>i. protectedRecordOverhead cipher + length (hf_body (fragments ! i))) indices)
        then (records, cipher, Inl (ProtocolError ''protected flight size overflow''))
      else resealProtected mtu fragments indices records cipher)"

text \<open>The built-in \<open>copy\<close> of the language, and \<open>refreshPending\<close> over a given rebuild closure.\<close>

definition copyRecords :: "flightRecord list \<Rightarrow> flightRecord list \<Rightarrow> flightRecord list" where
  "copyRecords dst src = take (length dst) src @ drop (length src) dst"

type_synonym refreshed = "flightSource \<times> flightRecord list \<times> cipherStore \<times> unit result"

definition refreshWith ::
  "(flightRecord list \<Rightarrow> nat list \<Rightarrow> cipherStore \<Rightarrow> refreshed) \<Rightarrow> flightSource \<Rightarrow> flightRecord list \<Rightarrow> cipherStore \<Rightarrow> refreshed" where
  "refreshWith rebuilder source records store =
     (let indices = indicesList (pendingIndexSet records) in
      if indices = [] \<or> source = NoSource then (source, records, store, Inr ())
      else rebuilder records indices store)"

primrec rebuildPending :: "flightSource \<Rightarrow> flightRecord list \<Rightarrow> nat list \<Rightarrow> cipherStore \<Rightarrow> refreshed" where
  "rebuildPending NoSource records indices store = (NoSource, records, store, Inr ())"
| "rebuildPending (PlainSource messages epoch nextSequence) records indices store =
     (let (records1, next, res) = rebuildPlain indices records nextSequence
      in (PlainSource messages epoch next, records1, store, res))"
| "rebuildPending (ProtectedSource messages addr fragments mtu) records indices store =
     (let (records1, cipher, res) = rebuildProtected mtu fragments indices records (store addr)
      in (ProtectedSource messages addr fragments mtu, records1, store(addr := cipher), res))"
| "rebuildPending (CombinedSource records1 source1 records2 source2) records indices store =
     (if length records < length records1
        then (CombinedSource records1 source1 records2 source2, records, store, Inl (Panic ''slice bounds out of range''))
      else
        let first = copyRecords records1 (take (length records1) records);
            second = copyRecords records2 (drop (length records1) records);
            (source1', first', store1, res1) = refreshWith (rebuildPending source1) source1 first store
        in case res1 of
             Inl err \<Rightarrow> (CombinedSource first' source1' second source2, records, store1, Inl err)
           | Inr _ \<Rightarrow>
               (let (source2', second', store2, res2) = refreshWith (rebuildPending source2) source2 second store1
                in case res2 of
                     Inl err \<Rightarrow> (CombinedSource first' source1' second' source2', records, store2, Inl err)
                   | Inr _ \<Rightarrow> (CombinedSource first' source1' second' source2', first' @ second', store2, Inr ())))"

definition refreshPending :: "flight \<Rightarrow> cipherStore \<Rightarrow> flight \<times> cipherStore \<times> unit result" where
  "refreshPending f store =
     (let (source, records, store1, res) = refreshWith (rebuildPending (fl_source f)) (fl_source f) (fl_records f) store
      in (f\<lparr>fl_records := records, fl_source := source\<rparr>, store1, res))"

definition combineFlights :: "flight \<Rightarrow> flight \<Rightarrow> flight" where
  "combineFlights first second =
     \<lparr>fl_records = fl_records first @ fl_records second,
      fl_source = CombinedSource (fl_records first) (fl_source first) (fl_records second) (fl_source second),
      fl_firstSentAt = None, fl_retransmitted = False\<rparr>"

section \<open>Changing the MTU\<close>

definition nextRecordSequence :: "flightRecord list \<Rightarrow> u64" where
  "nextRecordSequence records =
     fold (\<lambda>r next. if rn_epoch (fr_number r) = 0 \<and> next \<le> rn_sequence (fr_number r)
                     then rn_sequence (fr_number r) + 1 else next) records 0"

primrec resizeSource :: "flightSource \<Rightarrow> flightRecord list \<Rightarrow> int \<Rightarrow> cipherStore \<Rightarrow> refreshed" where
  "resizeSource NoSource records mtu store =
     (NoSource, records, store, Inl (ProtocolError ''flight cannot be refragmented''))"
| "resizeSource (PlainSource messages epoch nextSequence) records mtu store =
     (case buildPlainFlight messages mtu epoch (nextRecordSequence records) of
        Inl err \<Rightarrow> (PlainSource messages epoch nextSequence, records, store, Inl err)
      | Inr (rebuilt, next) \<Rightarrow> (fl_source rebuilt, fl_records rebuilt, store, Inr ()))"
| "resizeSource (ProtectedSource messages addr fragments mtu0) records mtu store =
     (case buildProtectedFlight messages mtu (Some addr) store of
        (store1, Inl err) \<Rightarrow> (ProtectedSource messages addr fragments mtu0, records, store1, Inl err)
      | (store1, Inr rebuilt) \<Rightarrow> (fl_source rebuilt, fl_records rebuilt, store1, Inr ()))"
| "resizeSource (CombinedSource records1 source1 records2 source2) records mtu store =
     (let (source1', first, store1, res1) = resizeSource source1 records1 mtu store in
      case res1 of
        Inl err \<Rightarrow> (CombinedSource first source1' records2 source2, records, store1, Inl err)
      | Inr _ \<Rightarrow>
          (let (source2', second, store2, res2) = resizeSource source2 records2 mtu store1 in
           case res2 of
             Inl err \<Rightarrow> (CombinedSource first source1' second source2', records, store2, Inl err)
           | Inr _ \<Rightarrow> (CombinedSource first source1' second source2', first @ second, store2, Inr ())))"

definition resizeFlight :: "flight option \<Rightarrow> int \<Rightarrow> cipherStore \<Rightarrow> flight option \<times> cipherStore \<times> unit result" where
  "resizeFlight f mtu store =
     (case f of
        None \<Rightarrow> (None, store, Inl (ProtocolError ''flight cannot be refragmented''))
      | Some fl \<Rightarrow>
          let (source, records, store1, res) = resizeSource (fl_source fl) (fl_records fl) mtu store
          in (Some (fl\<lparr>fl_records := records, fl_source := source\<rparr>), store1, res))"

section \<open>Acknowledgement and transmission\<close>

definition flightAck :: "flight \<Rightarrow> recordNumber list \<Rightarrow> flight \<times> nat" where
  "flightAck f numbers =
     (f\<lparr>fl_records := map (\<lambda>r. if \<not> fr_acked r \<and> acknowledgedBy r numbers then r\<lparr>fr_acked := True\<rparr> else r) (fl_records f)\<rparr>,
      length (filter (\<lambda>r. \<not> fr_acked r \<and> acknowledgedBy r numbers) (fl_records f)))"

definition flightComplete :: "flight \<Rightarrow> bool" where
  "flightComplete f = list_all fr_acked (fl_records f)"

definition hasAcknowledgedRecord :: "flight \<Rightarrow> bool" where
  "hasAcknowledgedRecord f = list_ex fr_acked (fl_records f)"

fun takeUnsent :: "nat \<Rightarrow> flightRecord list \<Rightarrow> flightRecord list \<times> bytes list" where
  "takeUnsent capacity [] = ([], [])"
| "takeUnsent capacity (r # records) =
     (if capacity = 0 then (r # records, [])
      else if fr_acked r \<or> fr_sent r
        then (let (rest, out) = takeUnsent capacity records in (r # rest, out))
      else (let (rest, out) = takeUnsent (capacity - 1) records in (r\<lparr>fr_sent := True\<rparr> # rest, fr_wire r # out)))"

definition outstandingRecords :: "flightRecord list \<Rightarrow> nat" where
  "outstandingRecords records = length (filter (\<lambda>r. fr_sent r \<and> \<not> fr_acked r) records)"

definition nextUnsentWire :: "flight \<Rightarrow> flight \<times> bytes list" where
  "nextUnsentWire f =
     (let protected = list_ex (\<lambda>r. 0 < rn_epoch (fr_number r)) (fl_records f);
          capacity = (if protected then 10 - outstandingRecords (fl_records f) else length (fl_records f));
          (records, out) = takeUnsent capacity (fl_records f)
      in (f\<lparr>fl_records := records\<rparr>, out))"

fun retransmitFrom :: "nat \<Rightarrow> nat \<Rightarrow> flightRecord list \<Rightarrow> bytes list" where
  "retransmitFrom maxRecords emitted [] = []"
| "retransmitFrom maxRecords emitted (r # records) =
     (if fr_acked r \<or> \<not> fr_sent r then retransmitFrom maxRecords emitted records
      else fr_wire r # (if emitted + 1 = maxRecords then [] else retransmitFrom maxRecords (emitted + 1) records))"

definition retransmitWire :: "flight \<Rightarrow> nat \<Rightarrow> bytes list" where
  "retransmitWire f maxRecords = retransmitFrom maxRecords 0 (fl_records f)"

section \<open>Record numbers of a flight\<close>

definition numbers :: "flightRecord \<Rightarrow> recordNumber list" where
  "numbers r = fr_number r # (if fr_hasPrior r then [fr_priorNumber r] else []) @ fr_earlierNumbers r"

abbreviation allNumbers :: "flightRecord list \<Rightarrow> recordNumber list" where
  "allNumbers records \<equiv> concat (map numbers records)"

lemma hasNumber_iff: "hasNumber r n \<longleftrightarrow> n \<in> set (numbers r)"
  by (auto simp: hasNumber_def numbers_def)

lemma acknowledgedBy_iff: "acknowledgedBy r ns \<longleftrightarrow> set (numbers r) \<inter> set ns \<noteq> {}"
  by (auto simp: acknowledgedBy_def list_ex_iff hasNumber_iff)

lemma numbers_replaceNumber: "mset (numbers (replaceNumber r n)) = add_mset n (mset (numbers r))"
  by (simp add: numbers_def replaceNumber_def)

lemma numbers_fields [simp]:
  "numbers (r\<lparr>fr_wire := w\<rparr>) = numbers r" "numbers (r\<lparr>fr_acked := a\<rparr>) = numbers r" "numbers (r\<lparr>fr_sent := b\<rparr>) = numbers r"
  by (simp_all add: numbers_def)

lemma replaceNumber_fields [simp]:
  "fr_acked (replaceNumber r n) = fr_acked r" "fr_sent (replaceNumber r n) = fr_sent r"
  "fr_wire (replaceNumber r n) = fr_wire r" "fr_number (replaceNumber r n) = n"
  by (simp_all add: replaceNumber_def)

lemma historyLength_replaceNumber: "fr_hasPrior r \<or> fr_earlierNumbers r = [] \<Longrightarrow>
    historyLength (replaceNumber r n) = historyLength r + 1"
  by (auto simp: historyLength_def replaceNumber_def)

lemma mset_allNumbers_update:
  assumes "i < length rs" and "mset (numbers r) = add_mset n (mset (numbers (rs ! i)))"
  shows "mset (allNumbers (rs[i := r])) = add_mset n (mset (allNumbers rs))"
proof -
  have "rs = take i rs @ rs ! i # drop (Suc i) rs" using assms(1) by (rule id_take_nth_drop)
  then have "mset (allNumbers rs) = mset (allNumbers (take i rs @ rs ! i # drop (Suc i) rs))" by (rule arg_cong)
  then show ?thesis using assms by (simp add: upd_conv_take_nth_drop)
qed

text \<open>
  \<open>numbered e b\<close>: the numbers ever used by the records are pairwise different, of epoch \<open>e\<close>
  and below \<open>b\<close>, the next number that will be assigned.
\<close>

definition numbered :: "u64 \<Rightarrow> u64 \<Rightarrow> flightRecord list \<Rightarrow> bool" where
  "numbered e b rs \<longleftrightarrow> distinct (allNumbers rs) \<and> (\<forall>n \<in> set (allNumbers rs). rn_epoch n = e \<and> rn_sequence n < b)"

lemma numbered_mset:
  "numbered e b rs \<Longrightarrow> mset (allNumbers rs') = add_mset (RecordNumber e b) (mset (allNumbers rs)) \<Longrightarrow> b < b + 1 \<Longrightarrow>
   numbered e (b + 1) rs'"
proof -
  assume n: "numbered e b rs" and m: "mset (allNumbers rs') = add_mset (RecordNumber e b) (mset (allNumbers rs))" and b: "b < b + 1"
  from m have "mset (allNumbers rs') = mset (RecordNumber e b # allNumbers rs)" by simp
  then have "distinct (allNumbers rs') = distinct (RecordNumber e b # allNumbers rs)"
    "set (allNumbers rs') = set (RecordNumber e b # allNumbers rs)"
    by (metis mset_eq_imp_distinct_iff, metis mset_eq_setD)
  then show ?thesis using n b unfolding numbered_def by fastforce
qed

lemma numbered_replace:
  assumes "numbered e b rs" and "i < length rs" and "b < b + 1"
  shows "numbered e (b + 1) (rs[i := replaceNumber ((rs ! i)\<lparr>fr_wire := w\<rparr>) (RecordNumber e b)])"
  using assms by (intro numbered_mset [OF assms(1)] mset_allNumbers_update) (simp_all add: numbers_replaceNumber)

lemma numbered_Nil [simp]: "numbered e b []"
  by (simp add: numbered_def)

lemma numbered_same: "map numbers rs' = map numbers rs \<Longrightarrow> numbered e b rs' = numbered e b rs"
  by (simp add: numbered_def)

text \<open>What a rebuild may change of a record: only a pending record, its wire image and its numbers.\<close>

definition rebuilt :: "flightRecord \<Rightarrow> flightRecord \<Rightarrow> bool" where
  "rebuilt r r' \<longleftrightarrow> fr_acked r' = fr_acked r \<and> fr_sent r' = fr_sent r \<and> set (numbers r) \<subseteq> set (numbers r') \<and>
     (fr_acked r \<longrightarrow> r' = r)"

lemma rebuilt_refl: "list_all2 rebuilt rs rs"
  by (simp add: list_all2_refl rebuilt_def)

lemma rebuilt_trans: "list_all2 rebuilt a b \<Longrightarrow> list_all2 rebuilt b c \<Longrightarrow> list_all2 rebuilt a c"
  by (rule list_all2_trans [of rebuilt rebuilt rebuilt]) (auto simp: rebuilt_def)

lemma rebuilt_update:
  assumes "i < length rs" and "\<not> fr_acked (rs ! i)"
  shows "list_all2 rebuilt rs (rs[i := replaceNumber ((rs ! i)\<lparr>fr_wire := w\<rparr>) n])"
proof -
  have "set (numbers (rs ! i)) \<subseteq> set (numbers (replaceNumber ((rs ! i)\<lparr>fr_wire := w\<rparr>) n))"
    using numbers_replaceNumber [of "(rs ! i)\<lparr>fr_wire := w\<rparr>" n] by (metis mset_eq_setD numbers_fields(1) set_subset_Cons mset.simps(2))
  then have "rebuilt (rs ! i) (replaceNumber ((rs ! i)\<lparr>fr_wire := w\<rparr>) n)"
    using assms(2) by (simp add: rebuilt_def)
  then show ?thesis using assms(1) by (auto simp: list_all2_conv_all_nth nth_list_update rebuilt_def)
qed

section \<open>What the records of a flight carry\<close>

definition plain_image :: "handshakeFragment \<Rightarrow> flightRecord \<Rightarrow> bool" where
  "plain_image f r \<longleftrightarrow>
     fragment_ok f \<and> rn_epoch (fr_number r) = 0 \<and>
     parsePlainRecordsMode (fr_wire r) =
       Inr [\<lparr>pr_typ = recordTypeHandshake, pr_epoch = 0, pr_sequence = rn_sequence (fr_number r),
             pr_payload = putHandshakeFragment f\<rparr>]"

definition sealed_image :: "recordCipher \<Rightarrow> handshakeFragment \<Rightarrow> flightRecord \<Rightarrow> bool" where
  "sealed_image c f r \<longleftrightarrow>
     rn_epoch (fr_number r) = rc_epoch c \<and>
     sealHandshakeFragmentInto (c\<lparr>rc_nextSequence := rn_sequence (fr_number r)\<rparr>) f =
       (c\<lparr>rc_nextSequence := rn_sequence (fr_number r) + 1\<rparr>, Inr (fr_wire r))"

lemma sealed_image_sequence [simp]: "sealed_image (c\<lparr>rc_nextSequence := n\<rparr>) = sealed_image c"
  by (intro ext) (simp add: sealed_image_def)

lemma plain_image_fields [simp]:
  "plain_image f (r\<lparr>fr_acked := a\<rparr>) = plain_image f r" "plain_image f (r\<lparr>fr_sent := a\<rparr>) = plain_image f r"
  by (simp_all add: plain_image_def)

lemma sealed_image_fields [simp]:
  "sealed_image c f (r\<lparr>fr_acked := a\<rparr>) = sealed_image c f r" "sealed_image c f (r\<lparr>fr_sent := a\<rparr>) = sealed_image c f r"
  by (simp_all add: sealed_image_def)

lemma parsePlainRecordsMode_one:
  assumes "marshalPlainRecord r = Inr b"
  shows "parsePlainRecordsMode b = Inr [r]"
proof -
  have ok: "plain_record_ok r" using assms by (rule marshalPlainRecord_Inr)
  have "b \<noteq> []" using assms marshalPlainRecord_ok [OF ok] by auto
  with parsePlainRecordView_marshal [OF ok assms, of "[]"] show ?thesis
    by (simp add: parsePlainRecordsMode.simps [of b] parsePlainRecordsMode.simps [of "[]"])
qed

lemma sequence_below_48: "(n :: u64) < 2 ^ 48 \<Longrightarrow> n < n + 1"
  using unat_Suc_below [of n "2 ^ 48"] by (simp add: word_less_nat_alt)

lemma sealHandshakeFragmentInto_Inr:
  assumes "sealHandshakeFragmentInto c f = (c', Inr wire)"
  shows "rc_nextSequence c < 2 ^ 48" and "c' = c\<lparr>rc_nextSequence := rc_nextSequence c + 1\<rparr>"
    and "sealed_image c f (newFlightRecord (RecordNumber (rc_epoch c) (rc_nextSequence c)) wire)"
proof -
  have "sealWithHeader c recordTypeHandshake (putHandshakeFragment f) True True = (c', Inr wire)"
    using assms by (auto simp: sealHandshakeFragmentInto_def split: sum.splits)
  from sealWithHeader_success [OF this]
  show "rc_nextSequence c < 2 ^ 48" and c': "c' = c\<lparr>rc_nextSequence := rc_nextSequence c + 1\<rparr>" by simp_all
  show "sealed_image c f (newFlightRecord (RecordNumber (rc_epoch c) (rc_nextSequence c)) wire)"
    using assms c' by (simp add: sealed_image_def newFlightRecord_def)
qed

lemma sealHandshakeFragmentInto_Inl: "sealHandshakeFragmentInto c f = (c', Inl err) \<Longrightarrow> c' = c"
  by (auto simp: sealHandshakeFragmentInto_def split: sum.splits dest: sealWithHeader_Inl)

subsection \<open>Building\<close>

lemma numbers_new [simp]: "numbers (newFlightRecord n wire) = [n]"
  by (simp add: numbers_def newFlightRecord_def)

lemma numbered_Cons_new:
  assumes "numbered e b' rs" and "\<forall>n \<in> set (allNumbers rs). b < rn_sequence n" and "b < b'"
  shows "numbered e b' (newFlightRecord (RecordNumber e b) wire # rs)"
proof -
  have "RecordNumber e b \<notin> set (allNumbers rs)" using assms(2) by (metis order_less_irrefl recordNumber.sel(2))
  then show ?thesis using assms(1,3) by (auto simp: numbered_def)
qed

lemma numbers_below:
  "\<forall>n \<in> set (allNumbers rs). b + 1 \<le> rn_sequence n \<Longrightarrow> b < b + 1 \<Longrightarrow> \<forall>n \<in> set (allNumbers rs). b < rn_sequence n"
  by (meson order_less_le_trans)

lemma plainFlightRecords_spec:
  "plainFlightRecords 0 b fs = Inr (rs, b') \<Longrightarrow>
   b \<le> b' \<and> numbered 0 b' rs \<and> (\<forall>n \<in> set (allNumbers rs). b \<le> rn_sequence n) \<and> list_all2 plain_image fs rs"
proof (induction fs arbitrary: b rs)
  case (Cons f fs)
  let ?n = "handshakeHeaderLen + length (hf_body f)"
  obtain wire payload rest where w: "allocatePlainRecordWire recordTypeHandshake 0 b (int ?n) = Inr wire"
    and p: "marshalHandshakeFragmentInto (length wire - plainRecordHeaderLen) f = Inr payload"
    and rest: "plainFlightRecords 0 (b + 1) fs = Inr (rest, b')"
    and rs: "rs = newFlightRecord (RecordNumber 0 b) (copy_at plainRecordHeaderLen payload wire) # rest"
    using Cons.prems by (auto simp: rbind_def Let_def split: sum.splits)
  have b: "b < 2 ^ 48" using w by (auto simp: allocatePlainRecordWire_def split: if_splits)
  have f: "fragment_ok f" and payload: "payload = putHandshakeFragment f"
    using p fragment_ok_iff [of f] by (auto simp: marshalHandshakeFragmentInto_def rbind_def split: sum.splits if_splits)
  have "marshalPlainRecord \<lparr>pr_typ = recordTypeHandshake, pr_epoch = 0, pr_sequence = b, pr_payload = payload\<rparr> =
      Inr (copy_at plainRecordHeaderLen payload wire)"
    using w by (simp add: marshalPlainRecord_def payload)
  from parsePlainRecordsMode_one [OF this]
  have image: "plain_image f (newFlightRecord (RecordNumber 0 b) (copy_at plainRecordHeaderLen payload wire))"
    using f payload by (simp add: plain_image_def newFlightRecord_def)
  note IH = Cons.IH [OF rest]
  have less: "b < b + 1" using b by (rule sequence_below_48)
  have above: "\<forall>n \<in> set (allNumbers rest). b < rn_sequence n" using IH less by (intro numbers_below) auto
  have b': "b < b'" using IH less by (meson order_less_le_trans)
  have "numbered 0 b' rs" unfolding rs using IH above b' by (intro numbered_Cons_new) auto
  moreover have "\<forall>n \<in> set (allNumbers rs). b \<le> rn_sequence n"
    using above unfolding rs by (auto intro: less_imp_le)
  moreover have "b \<le> b'" using b' by simp
  ultimately show ?case using image IH rs by simp
qed simp

lemma protectedFlightRecords_spec:
  "protectedFlightRecords mtu c fs = (c', res) \<Longrightarrow>
   rc_nextSequence c \<le> rc_nextSequence c' \<and> c' = c\<lparr>rc_nextSequence := rc_nextSequence c'\<rparr> \<and>
   (\<forall>rs. res = Inr rs \<longrightarrow> numbered (rc_epoch c) (rc_nextSequence c') rs \<and>
      (\<forall>n \<in> set (allNumbers rs). rc_nextSequence c \<le> rn_sequence n) \<and> list_all2 (sealed_image c) fs rs)"
proof (induction fs arbitrary: c c' res)
  case (Cons f fs)
  obtain c1 out where seal: "sealHandshakeFragmentInto c f = (c1, out)" by fastforce
  show ?case
  proof (cases out)
    case (Inl err)
    then have "c' = c" "res = Inl err"
      using Cons.prems seal sealHandshakeFragmentInto_Inl [of c f c1 err] by (auto simp: Let_def)
    then show ?thesis by simp
  next
    case (Inr wire)
    note s = sealHandshakeFragmentInto_Inr [OF seal [unfolded Inr]]
    note less = sequence_below_48 [OF s(1)]
    obtain c2 out2 where rest: "protectedFlightRecords mtu c1 fs = (c2, out2)" by fastforce
    note IH = Cons.IH [OF rest]
    have c2: "rc_nextSequence c < rc_nextSequence c2" "c2 = c\<lparr>rc_nextSequence := rc_nextSequence c2\<rparr>"
      using IH s(2) less by (auto intro: order_less_le_trans)
    show ?thesis
    proof (cases "mtu < int (length wire) \<or> isl out2")
      case True
      then show ?thesis using Cons.prems seal Inr rest c2 s(2) less
        by (cases out2) (auto simp: Let_def split: if_splits)
    next
      case False
      then obtain rest' where r': "out2 = Inr rest'" by (cases out2) auto
      let ?r = "newFlightRecord (RecordNumber (rc_epoch c) (rc_nextSequence c)) wire"
      have out: "c' = c2" "res = Inr (?r # rest')"
        using Cons.prems seal Inr rest False r' s(2) by (simp_all add: Let_def)
      have above: "\<forall>n \<in> set (allNumbers rest'). rc_nextSequence c < rn_sequence n"
        using IH r' s(2) less by (intro numbers_below) auto
      have "numbered (rc_epoch c) (rc_nextSequence c') (?r # rest')" unfolding out(1)
        using IH r' s(2) above c2(1) by (intro numbered_Cons_new) auto
      moreover have "\<forall>n \<in> set (allNumbers (?r # rest')). rc_nextSequence c \<le> rn_sequence n"
        using above by (auto intro: less_imp_le)
      moreover have "list_all2 (sealed_image c) fs rest'" using IH r' s(2) by simp
      ultimately show ?thesis using out c2 s(3) by (auto intro: less_imp_le)
    qed
  qed
qed simp

subsection \<open>Rebuilding\<close>

definition pending :: "nat list \<Rightarrow> flightRecord list \<Rightarrow> bool" where
  "pending indices rs \<longleftrightarrow> (\<forall>i \<in> set indices. i < length rs \<and> \<not> fr_acked (rs ! i))"

lemma pending_update:
  "pending (i # is) rs \<Longrightarrow> fr_acked r = fr_acked (rs ! i) \<Longrightarrow> pending is (rs[i := r])"
  by (auto simp: pending_def nth_list_update)

lemma list_all2_update: "list_all2 P xs ys \<Longrightarrow> i < length ys \<Longrightarrow> P (xs ! i) y \<Longrightarrow> list_all2 P xs (ys[i := y])"
  by (auto simp: list_all2_conv_all_nth nth_list_update)

lemma rebuildPlain_spec:
  "numbered 0 b rs \<Longrightarrow> pending is rs \<Longrightarrow> list_all2 plain_image fs rs \<Longrightarrow> rebuildPlain is rs b = (rs', b', res) \<Longrightarrow>
   numbered 0 b' rs' \<and> list_all2 plain_image fs rs' \<and> list_all2 rebuilt rs rs'"
proof (induction "is" arbitrary: rs b)
  case Nil
  then show ?case using rebuilt_refl by auto
next
  case (Cons i "is")
  have i: "i < length rs" "\<not> fr_acked (rs ! i)" using Cons.prems(2) by (simp_all add: pending_def)
  have image: "plain_image (fs ! i) (rs ! i)" using Cons.prems(3) i by (simp add: list_all2_conv_all_nth)
  let ?r = "\<lparr>pr_typ = recordTypeHandshake, pr_epoch = 0, pr_sequence = b, pr_payload = putHandshakeFragment (fs ! i)\<rparr>"
  show ?case
  proof (cases "marshalPlainRecord ?r")
    case (Inl err)
    then show ?thesis using Cons.prems image rebuilt_refl by (simp add: plain_image_def)
  next
    case (Inr wire)
    let ?rs = "rs[i := replaceNumber ((rs ! i)\<lparr>fr_wire := wire\<rparr>) (RecordNumber 0 b)]"
    have b: "b < 2 ^ 48" using marshalPlainRecord_Inr [OF Inr] by (simp add: plain_record_ok_def)
    have step: "rebuildPlain is ?rs (b + 1) = (rs', b', res)" using Cons.prems(4) image Inr by (simp add: plain_image_def)
    have "plain_image (fs ! i) (replaceNumber ((rs ! i)\<lparr>fr_wire := wire\<rparr>) (RecordNumber 0 b))"
      using parsePlainRecordsMode_one [OF Inr] image by (simp add: plain_image_def)
    then have "list_all2 plain_image fs ?rs" using Cons.prems(3) i(1) by (intro list_all2_update)
    moreover have "numbered 0 (b + 1) ?rs" by (rule numbered_replace [OF Cons.prems(1) i(1) sequence_below_48 [OF b]])
    moreover have "pending is ?rs" using Cons.prems(2) by (rule pending_update) simp
    ultimately have "numbered 0 b' rs' \<and> list_all2 plain_image fs rs' \<and> list_all2 rebuilt ?rs rs'"
      using Cons.IH step by blast
    then show ?thesis using rebuilt_trans [OF rebuilt_update [OF i]] by blast
  qed
qed

lemma resealProtected_spec:
  "numbered (rc_epoch c) (rc_nextSequence c) rs \<Longrightarrow> pending is rs \<Longrightarrow> list_all2 (sealed_image c) fs rs \<Longrightarrow>
   resealProtected mtu fs is rs c = (rs', c', res) \<Longrightarrow>
   numbered (rc_epoch c) (rc_nextSequence c') rs' \<and> c' = c\<lparr>rc_nextSequence := rc_nextSequence c'\<rparr> \<and>
   list_all2 (sealed_image c) fs rs' \<and> list_all2 rebuilt rs rs'"
proof (induction "is" arbitrary: rs c)
  case Nil
  then show ?case using rebuilt_refl by auto
next
  case (Cons i "is")
  have i: "i < length rs" "\<not> fr_acked (rs ! i)" using Cons.prems(2) by (simp_all add: pending_def)
  obtain c1 out where seal: "sealHandshakeFragmentInto c (fs ! i) = (c1, out)" by fastforce
  show ?case
  proof (cases out)
    case (Inl err)
    then have "c' = c" "rs' = rs"
      using Cons.prems(4) seal sealHandshakeFragmentInto_Inl [of c "fs ! i" c1 err] by (auto simp: Let_def)
    then show ?thesis using Cons.prems(1,3) rebuilt_refl by simp
  next
    case (Inr wire)
    let ?n = "RecordNumber (rc_epoch c) (rc_nextSequence c)"
    let ?rs = "rs[i := replaceNumber ((rs ! i)\<lparr>fr_wire := wire\<rparr>) ?n]"
    note s = sealHandshakeFragmentInto_Inr [OF seal [unfolded Inr]]
    have less: "rc_nextSequence c < rc_nextSequence c + 1" using s(1) by (rule sequence_below_48)
    show ?thesis
    proof (cases "mtu < int (length wire)")
      case True
      then have eqs: "rs' = rs" "c' = c1" using Cons.prems(4) seal Inr by (auto simp: Let_def)
      have "numbered (rc_epoch c) (rc_nextSequence c + 1) rs"
        using Cons.prems(1) less unfolding numbered_def by (meson order_less_trans)
      then show ?thesis unfolding eqs s(2) using Cons.prems(3) rebuilt_refl by simp
    next
      case False
      have step: "resealProtected mtu fs is ?rs c1 = (rs', c', res)"
        using Cons.prems(4) seal Inr False s(2) by (simp add: Let_def)
      have "sealed_image c (fs ! i) (replaceNumber ((rs ! i)\<lparr>fr_wire := wire\<rparr>) ?n)"
        using s(3) by (simp add: sealed_image_def newFlightRecord_def)
      then have "list_all2 (sealed_image c) fs ?rs" using Cons.prems(3) i(1) by (intro list_all2_update)
      moreover have "numbered (rc_epoch c) (rc_nextSequence c + 1) ?rs" by (rule numbered_replace [OF Cons.prems(1) i(1) less])
      moreover have "pending is ?rs" using Cons.prems(2) by (rule pending_update) simp
      ultimately have "numbered (rc_epoch c) (rc_nextSequence c') rs' \<and> c' = c1\<lparr>rc_nextSequence := rc_nextSequence c'\<rparr> \<and>
          list_all2 (sealed_image c) fs rs' \<and> list_all2 rebuilt ?rs rs'"
        using Cons.IH [of c1 ?rs] step s(2) by simp
      moreover from this have "list_all2 rebuilt rs rs'" using rebuilt_trans [OF rebuilt_update [OF i]] by blast
      ultimately show ?thesis using s(2) by simp
    qed
  qed
qed

subsection \<open>The index set\<close>

text \<open>The ten inline entries and the overflow slice together hold the added indices in order.\<close>

definition indices_ok :: "flightRecordIndices \<Rightarrow> nat list \<Rightarrow> bool" where
  "indices_ok s xs \<longleftrightarrow> length (fi_inline s) = 10 \<and> fi_count s = length xs \<and>
     fi_overflow s = drop 10 xs \<and> take (length xs) (fi_inline s) = take 10 xs"

lemma indices_ok_add: "indices_ok s xs \<Longrightarrow> indices_ok (indicesAdd s i) (xs @ [i])"
proof (cases "length xs < 10")
  case True
  assume "indices_ok s xs"
  then show ?thesis using True
    by (simp add: indices_ok_def indicesAdd_def take_Suc_conv_app_nth)
next
  case False
  assume "indices_ok s xs"
  moreover from this False have "fi_inline s = take 10 xs" unfolding indices_ok_def by (metis leI take_all)
  ultimately show ?thesis using False by (simp add: indices_ok_def indicesAdd_def)
qed

lemma indices_ok_list:
  assumes "indices_ok s xs"
  shows "indicesList s = xs"
proof (rule nth_equalityI)
  fix k assume "k < length (indicesList s)"
  then have k: "k < length xs" using assms by (simp add: indicesList_def indices_ok_def)
  have "fi_inline s ! k = xs ! k" if "k < 10"
  proof -
    have "take (length xs) (fi_inline s) ! k = take 10 xs ! k" using assms by (simp add: indices_ok_def)
    then show ?thesis using k that by simp
  qed
  then show "indicesList s ! k = xs ! k"
    using assms k by (auto simp: indicesList_def indices_ok_def indicesAt_def)
qed (use assms in \<open>simp add: indicesList_def indices_ok_def\<close>)

lemma indicesList_pendingIndexSet: "indicesList (pendingIndexSet rs) = pendingIndices rs"
proof (rule indices_ok_list)
  have "indices_ok (fold (\<lambda>i s. if \<not> fr_acked (rs ! i) then indicesAdd s i else s) xs s)
      (ys @ filter (\<lambda>i. \<not> fr_acked (rs ! i)) xs)" if "indices_ok s ys" for xs s ys
    using that
  proof (induction xs arbitrary: s ys)
    case (Cons x xs)
    then show ?case using Cons.IH [OF indices_ok_add [OF Cons.prems]] by simp
  qed simp
  from this [of noIndices "[]"] show "indices_ok (pendingIndexSet rs) (pendingIndices rs)"
    by (simp add: pendingIndexSet_def pendingIndices_def indices_ok_def noIndices_def)
qed

lemma pending_pendingIndices: "pending (pendingIndices rs) rs"
  by (auto simp: pending_def pendingIndices_def)

section \<open>Flights over time\<close>

text \<open>
  What may happen while a flight is being transmitted: acknowledgements arrive, unsent records
  go out, pending records are rebuilt for retransmission, the path MTU changes, and the
  connection seals other records with the same ciphers.
\<close>

inductive flight_step :: "flight \<times> cipherStore \<Rightarrow> flight \<times> cipherStore \<Rightarrow> bool" where
  step_refresh: "refreshPending f st = (f', st', res) \<Longrightarrow> flight_step (f, st) (f', st')"
| step_resize: "resizeFlight (Some f) mtu st = (Some f', st', res) \<Longrightarrow> flight_step (f, st) (f', st')"
| step_ack: "flight_step (f, st) (fst (flightAck f ns), st)"
| step_send: "flight_step (f, st) (fst (nextUnsentWire f), st)"
| step_note: "flight_step (f, st) (noteSend f now retransmission, st)"
| step_claim: "flight_step (f, st) (fst (claimPartialRetransmission f), st)"
| step_seal: "sealWithHeader (st addr) ct content wide lp = (c', res) \<Longrightarrow> flight_step (f, st) (f, st(addr := c'))"

definition messageFragments :: "nat \<Rightarrow> handshakeMessage list \<Rightarrow> handshakeFragment list" where
  "messageFragments k messages = concat (map (\<lambda>message. fragmentHandshakeMessageInto message k) messages)"

definition flight_ok :: "handshakeMessage list \<Rightarrow> flight \<times> cipherStore \<Rightarrow> bool" where
  "flight_ok messages s \<longleftrightarrow>
     (case fl_source (fst s) of
        PlainSource ms e next \<Rightarrow> ms = messages \<and> e = 0 \<and> numbered 0 next (fl_records (fst s)) \<and>
          (\<exists>k > 0. list_all2 plain_image (messageFragments k messages) (fl_records (fst s)))
      | ProtectedSource ms addr fs mtu \<Rightarrow> ms = messages \<and>
          numbered (rc_epoch (snd s addr)) (rc_nextSequence (snd s addr)) (fl_records (fst s)) \<and>
          (\<exists>k > 0. fs = messageFragments k messages) \<and> list_all2 (sealed_image (snd s addr)) fs (fl_records (fst s))
      | _ \<Rightarrow> False)"

lemma flight_ok_plain:
  assumes "buildPlainFlight messages mtu epoch first = Inr (f, next)"
  shows "flight_ok messages (f, st)"
proof -
  let ?k = "nat (plainMaxFragment mtu)"
  from assms obtain rs where epoch: "epoch = 0" and k: "0 < ?k"
    and rs: "plainFlightRecords epoch first (messageFragments ?k messages) = Inr (rs, next)"
    and f: "f = \<lparr>fl_records = rs, fl_source = PlainSource messages epoch next, fl_firstSentAt = None, fl_retransmitted = False\<rparr>"
    by (auto simp: buildPlainFlight_def messageFragments_def rbind_def Let_def not_less split: if_splits sum.splits)
  from plainFlightRecords_spec [OF rs [unfolded epoch]] k
  have "\<exists>k > 0. list_all2 plain_image (messageFragments k messages) rs" "numbered 0 next rs" by blast+
  then show ?thesis using f epoch by (simp add: flight_ok_def)
qed

lemma buildProtectedFlight_cases:
  assumes "buildProtectedFlight messages mtu (Some addr) st = (st', res)"
  shows "st' = st \<and> isl res \<or>
    (\<exists>k c' out. 0 < k \<and> protectedFlightRecords mtu (st addr) (messageFragments k messages) = (c', out) \<and>
      st' = st(addr := c') \<and>
      res = map_sum id (\<lambda>records. \<lparr>fl_records = records, fl_source = ProtectedSource messages addr (messageFragments k messages) mtu,
             fl_firstSentAt = None, fl_retransmitted = False\<rparr>) out)"
proof -
  let ?k = "nat (protectedMaxFragment mtu (st addr))"
  obtain c' out where run: "protectedFlightRecords mtu (st addr) (messageFragments ?k messages) = (c', out)" by fastforce
  show ?thesis
  proof (cases "protectedMaxFragment mtu (st addr) < 1")
    case True
    then show ?thesis using assms by (auto simp: buildProtectedFlight_def)
  next
    case False
    then have k: "0 < ?k" by linarith
    have "st' = st \<and> isl res \<or> st' = st(addr := c') \<and>
      res = map_sum id (\<lambda>records. \<lparr>fl_records = records, fl_source = ProtectedSource messages addr (messageFragments ?k messages) mtu,
             fl_firstSentAt = None, fl_retransmitted = False\<rparr>) out"
      using assms False run
      by (auto simp: buildProtectedFlight_def Let_def messageFragments_def [symmetric] split: if_splits sum.splits)
    then show ?thesis using k run by blast
  qed
qed

lemma flight_ok_protected:
  assumes "buildProtectedFlight messages mtu (Some addr) st = (st', Inr f)"
  shows "flight_ok messages (f, st')"
proof -
  from buildProtectedFlight_cases [OF assms] obtain k c' out where k: "0 < k"
    and rs: "protectedFlightRecords mtu (st addr) (messageFragments k messages) = (c', out)" and st': "st' = st(addr := c')"
    and f: "Inr f = map_sum id (\<lambda>records. \<lparr>fl_records = records,
       fl_source = ProtectedSource messages addr (messageFragments k messages) mtu,
       fl_firstSentAt = None, fl_retransmitted = False\<rparr>) out"
    by auto
  obtain rs where out: "out = Inr rs" using f by (cases out) auto
  from protectedFlightRecords_spec [OF rs] out obtain n where n: "c' = (st addr)\<lparr>rc_nextSequence := n\<rparr>"
    and spec: "numbered (rc_epoch (st addr)) (rc_nextSequence c') rs"
      "list_all2 (sealed_image (st addr)) (messageFragments k messages) rs" by blast
  then show ?thesis using k f unfolding st' n out by (auto simp: flight_ok_def)
qed

lemma buildProtectedFlight_store:
  assumes "buildProtectedFlight messages mtu (Some addr) st = (st', res)"
  shows "\<exists>n \<ge> rc_nextSequence (st addr). st' = st(addr := (st addr)\<lparr>rc_nextSequence := n\<rparr>)"
proof -
  have "st' = st \<or> (\<exists>fs c' out. protectedFlightRecords mtu (st addr) fs = (c', out) \<and> st' = st(addr := c'))"
    using buildProtectedFlight_cases [OF assms] by blast
  then show ?thesis
  proof (elim disjE exE conjE)
    assume "st' = st"
    then show ?thesis by (intro exI [of _ "rc_nextSequence (st addr)"]) simp
  next
    fix fs c' out
    assume "protectedFlightRecords mtu (st addr) fs = (c', out)" and "st' = st(addr := c')"
    then show ?thesis using protectedFlightRecords_spec [of mtu "st addr" fs c' out] by (intro exI [of _ "rc_nextSequence c'"]) simp
  qed
qed

lemma flight_ok_advance:
  assumes "flight_ok messages (f, st)" and "rc_nextSequence (st addr) \<le> n"
  shows "flight_ok messages (f, st(addr := (st addr)\<lparr>rc_nextSequence := n\<rparr>))"
proof -
  have mono: "numbered e b rs \<Longrightarrow> b \<le> n \<Longrightarrow> numbered e n rs" for e b rs
    unfolding numbered_def by (meson order_less_le_trans)
  show ?thesis
  proof (cases "fl_source f")
    case (ProtectedSource ms a fs mtu)
    then show ?thesis using assms mono by (cases "a = addr") (auto simp: flight_ok_def)
  qed (use assms in \<open>simp_all add: flight_ok_def\<close>)
qed

lemma flight_ok_records:
  assumes "flight_ok messages (f, st)" and "fl_source f' = fl_source f" and "map numbers (fl_records f') = map numbers (fl_records f)"
    and "map (\<lambda>r. (fr_number r, fr_wire r)) (fl_records f') = map (\<lambda>r. (fr_number r, fr_wire r)) (fl_records f)"
  shows "flight_ok messages (f', st)"
proof -
  have len: "length (fl_records f') = length (fl_records f)" using assms(3) by (metis length_map)
  have nth: "fr_number (fl_records f' ! i) = fr_number (fl_records f ! i) \<and> fr_wire (fl_records f' ! i) = fr_wire (fl_records f ! i)"
    if "i < length (fl_records f)" for i
    using arg_cong [OF assms(4), of "\<lambda>xs. xs ! i"] that len by simp
  have "list_all2 plain_image fs (fl_records f') = list_all2 plain_image fs (fl_records f)"
    "list_all2 (sealed_image c) fs (fl_records f') = list_all2 (sealed_image c) fs (fl_records f)" for fs c
    using nth len by (auto simp: list_all2_conv_all_nth plain_image_def sealed_image_def)
  then show ?thesis
    using assms(1,2) numbered_same [OF assms(3)] unfolding flight_ok_def by (simp split: flightSource.splits)
qed

lemma refreshPending_ok:
  assumes ok: "flight_ok messages (f, st)" and r: "refreshPending f st = (f', st', res)"
  shows "flight_ok messages (f', st') \<and> list_all2 rebuilt (fl_records f) (fl_records f')"
proof (cases "pendingIndices (fl_records f) = [] \<or> fl_source f = NoSource")
  case True
  then have "f' = f" "st' = st" using r by (auto simp: refreshPending_def refreshWith_def indicesList_pendingIndexSet)
  then show ?thesis using ok rebuilt_refl by simp
next
  case False
  let ?is = "pendingIndices (fl_records f)"
  have step: "(let (source, records, store1, out) = rebuildPending (fl_source f) (fl_records f) ?is st
      in (f\<lparr>fl_records := records, fl_source := source\<rparr>, store1, out)) = (f', st', res)"
    using r False by (simp add: refreshPending_def refreshWith_def indicesList_pendingIndexSet)
  show ?thesis
  proof (cases "fl_source f")
    case (PlainSource ms e nx)
    then obtain k where k: "k > 0" "list_all2 plain_image (messageFragments k messages) (fl_records f)"
      and n: "ms = messages" "e = 0" "numbered 0 nx (fl_records f)" using ok by (auto simp: flight_ok_def)
    obtain rs nx' out where run: "rebuildPlain ?is (fl_records f) nx = (rs, nx', out)" by (rule prod_cases3)
    have "f' = f\<lparr>fl_records := rs, fl_source := PlainSource ms e nx'\<rparr>" "st' = st" using step PlainSource run by simp_all
    then show ?thesis
      using rebuildPlain_spec [OF n(3) pending_pendingIndices k(2) run] k(1) n by (auto simp: flight_ok_def)
  next
    case (ProtectedSource ms addr fs mtu)
    let ?c = "st addr"
    have n: "numbered (rc_epoch ?c) (rc_nextSequence ?c) (fl_records f)" "list_all2 (sealed_image ?c) fs (fl_records f)"
      and rest: "ms = messages" "\<exists>k > 0. fs = messageFragments k messages"
      using ok ProtectedSource by (auto simp: flight_ok_def)
    obtain rs c' out where run: "rebuildProtected mtu fs ?is (fl_records f) ?c = (rs, c', out)" by (rule prod_cases3)
    have eqs: "f' = f\<lparr>fl_records := rs, fl_source := ProtectedSource ms addr fs mtu\<rparr>" "st' = st(addr := c')"
      using step ProtectedSource run by simp_all
    have "rs = fl_records f \<and> c' = ?c \<or> resealProtected mtu fs ?is (fl_records f) ?c = (rs, c', out)"
      using run by (auto simp: rebuildProtected_def split: if_splits)
    then obtain m where "numbered (rc_epoch ?c) (rc_nextSequence c') rs" "c' = ?c\<lparr>rc_nextSequence := m\<rparr>"
      "list_all2 (sealed_image ?c) fs rs" "list_all2 rebuilt (fl_records f) rs"
    proof
      assume "rs = fl_records f \<and> c' = ?c"
      then show thesis using n rebuilt_refl by (intro that [of "rc_nextSequence ?c"]) auto
    next
      assume "resealProtected mtu fs ?is (fl_records f) ?c = (rs, c', out)"
      from resealProtected_spec [OF n(1) pending_pendingIndices n(2) this] show thesis by (blast intro: that)
    qed
    then show ?thesis unfolding eqs using rest by (auto simp: flight_ok_def)
  qed (use ok in \<open>auto simp: flight_ok_def\<close>)
qed

lemma resizeFlight_ok:
  assumes ok: "flight_ok messages (f, st)" and r: "resizeFlight (Some f) mtu st = (Some f', st', res)"
  shows "flight_ok messages (f', st')"
proof (cases "fl_source f")
  case (PlainSource ms e nx)
  then have ms: "ms = messages" using ok by (simp add: flight_ok_def)
  show ?thesis
  proof (cases "buildPlainFlight ms mtu e (nextRecordSequence (fl_records f))")
    case (Inl err)
    then show ?thesis using r PlainSource ok by (auto simp: resizeFlight_def flight_ok_def)
  next
    case (Inr p)
    then obtain g n where g: "buildPlainFlight ms mtu e (nextRecordSequence (fl_records f)) = Inr (g, n)" by (cases p) auto
    then have "fl_source f' = fl_source g" "fl_records f' = fl_records g" "st' = st"
      using r PlainSource by (auto simp: resizeFlight_def)
    moreover have "flight_ok messages (g, st)" using flight_ok_plain [OF g] ms by simp
    ultimately show ?thesis by (auto intro: flight_ok_records)
  qed
next
  case (ProtectedSource ms addr fs mtu0)
  then have ms: "ms = messages" using ok by (simp add: flight_ok_def)
  obtain s out where b: "buildProtectedFlight ms mtu (Some addr) st = (s, out)" by fastforce
  show ?thesis
  proof (cases out)
    case (Inl err)
    then have "fl_source f' = fl_source f" "fl_records f' = fl_records f" "st' = s"
      using r b ProtectedSource by (auto simp: resizeFlight_def)
    moreover obtain n where "rc_nextSequence (st addr) \<le> n" "s = st(addr := (st addr)\<lparr>rc_nextSequence := n\<rparr>)"
      using buildProtectedFlight_store [OF b] by blast
    moreover have "flight_ok messages (f, s)" using flight_ok_advance [OF ok] calculation by simp
    ultimately show ?thesis by (auto intro: flight_ok_records)
  next
    case (Inr g)
    then have "fl_source f' = fl_source g" "fl_records f' = fl_records g" "st' = s"
      using r b ProtectedSource by (auto simp: resizeFlight_def)
    moreover have "flight_ok messages (g, s)" using flight_ok_protected [of ms mtu addr st s g] b Inr ms by simp
    ultimately show ?thesis by (auto intro: flight_ok_records)
  qed
qed (use ok in \<open>auto simp: flight_ok_def\<close>)

lemma takeUnsent_same:
  "map numbers (fst (takeUnsent k rs)) = map numbers rs \<and>
   map (\<lambda>r. (fr_number r, fr_wire r)) (fst (takeUnsent k rs)) = map (\<lambda>r. (fr_number r, fr_wire r)) rs"
  by (induction k rs rule: takeUnsent.induct) (auto simp: Let_def split: prod.splits)

lemma flight_step_ok: "flight_step s s' \<Longrightarrow> flight_ok messages s \<Longrightarrow> flight_ok messages s'"
proof (induction rule: flight_step.induct)
  case (step_refresh f st f' st' res)
  then show ?case using refreshPending_ok by blast
next
  case (step_resize f mtu st f' st' res)
  then show ?case using resizeFlight_ok by blast
next
  case (step_ack f st ns)
  then show ?case by (rule flight_ok_records) (simp_all add: flightAck_def)
next
  case (step_send f st)
  then show ?case
    by (rule flight_ok_records) (use takeUnsent_same in \<open>simp_all add: nextUnsentWire_def case_prod_unfold Let_def\<close>)
next
  case (step_note f st now retransmission)
  then show ?case by (rule flight_ok_records) (simp_all add: noteSend_def Let_def)
next
  case (step_claim f st)
  then show ?case by (rule flight_ok_records) (simp_all add: claimPartialRetransmission_def)
next
  case (step_seal st addr ct content wide lp c' res f)
  show ?case
  proof (cases res)
    case (Inl err)
    then show ?thesis using step_seal sealWithHeader_Inl by (metis fun_upd_triv)
  next
    case (Inr packet)
    note s = sealWithHeader_success [OF step_seal(1) [unfolded Inr]]
    then have "rc_nextSequence (st addr) \<le> rc_nextSequence (st addr) + 1"
      using sequence_below_48 by (simp add: less_imp_le)
    then show ?thesis using flight_ok_advance [OF step_seal(2)] s by metis
  qed
qed

lemma flight_steps_ok: "flight_step\<^sup>*\<^sup>* s s' \<Longrightarrow> flight_ok messages s \<Longrightarrow> flight_ok messages s'"
  by (induction rule: rtranclp_induct) (auto intro: flight_step_ok)

definition built :: "handshakeMessage list \<Rightarrow> flight \<times> cipherStore \<Rightarrow> bool" where
  "built messages s \<longleftrightarrow>
     (\<exists>mtu epoch first n. buildPlainFlight messages mtu epoch first = Inr (fst s, n)) \<or>
     (\<exists>mtu addr st. buildProtectedFlight messages mtu (Some addr) st = (snd s, Inr (fst s)))"

lemma built_ok: "built messages s \<Longrightarrow> flight_ok messages s"
  by (cases s) (auto simp: built_def intro: flight_ok_plain flight_ok_protected)

section \<open>The send window\<close>

abbreviation outstanding :: "flightRecord \<Rightarrow> bool" where "outstanding r \<equiv> fr_sent r \<and> \<not> fr_acked r"
abbreviation unsent :: "flightRecord \<Rightarrow> bool" where "unsent r \<equiv> \<not> fr_sent r \<and> \<not> fr_acked r"

definition pendingCount :: "flightRecord list \<Rightarrow> nat" where
  "pendingCount rs = length (filter (\<lambda>r. \<not> fr_acked r) rs)"

lemma pendingCount_split: "pendingCount rs = outstandingRecords rs + length (filter unsent rs)"
  unfolding pendingCount_def outstandingRecords_def by (induction rs) auto

lemma takeUnsent_counts:
  "outstandingRecords (fst (takeUnsent k rs)) = outstandingRecords rs + min k (length (filter unsent rs)) \<and>
   pendingCount (fst (takeUnsent k rs)) = pendingCount rs \<and>
   length (snd (takeUnsent k rs)) = min k (length (filter unsent rs))"
  unfolding pendingCount_def outstandingRecords_def
  by (induction k rs rule: takeUnsent.induct) (auto simp: Let_def split: prod.splits)

lemma flightAck_counts:
  "outstandingRecords (fl_records (fst (flightAck f ns))) \<le> outstandingRecords (fl_records f)"
proof -
  have "length (filter outstanding (map (\<lambda>r. if \<not> fr_acked r \<and> P r then r\<lparr>fr_acked := True\<rparr> else r) rs))
      \<le> length (filter outstanding rs)" for P rs
    by (induction rs) auto
  then show ?thesis by (simp add: flightAck_def outstandingRecords_def)
qed

lemma rebuilt_counts: "list_all2 rebuilt rs rs' \<Longrightarrow> outstandingRecords rs' = outstandingRecords rs"
  unfolding outstandingRecords_def by (induction rule: list_all2_induct) (auto simp: rebuilt_def)

lemma protectedFlightRecords_unsent:
  "protectedFlightRecords mtu c fs = (c', Inr rs) \<Longrightarrow> outstandingRecords rs = 0"
proof (induction fs arbitrary: c c' rs)
  case (Cons f fs)
  then obtain c1 c2 wire rest where "protectedFlightRecords mtu c1 fs = (c2, Inr rest)"
    and "rs = newFlightRecord (RecordNumber (rc_epoch c1) (rc_nextSequence c)) wire # rest"
    by (auto simp: Let_def split: prod.splits sum.splits if_splits)
  with Cons.IH show ?case by (auto simp: outstandingRecords_def newFlightRecord_def)
qed (auto simp: outstandingRecords_def)

text \<open>A protected flight of epoch \<open>e\<close> with at most ten records in flight.\<close>

definition window_ok :: "handshakeMessage list \<Rightarrow> nat \<Rightarrow> u64 \<Rightarrow> flight \<times> cipherStore \<Rightarrow> bool" where
  "window_ok messages addr e s \<longleftrightarrow> flight_ok messages s \<and> rc_epoch (snd s addr) = e \<and>
     (\<exists>fs mtu. fl_source (fst s) = ProtectedSource messages addr fs mtu) \<and> outstandingRecords (fl_records (fst s)) \<le> 10"

lemma window_protected:
  assumes "window_ok messages addr e s" and "e \<noteq> 0" and "fl_records (fst s) \<noteq> []"
  shows "list_ex (\<lambda>r. 0 < rn_epoch (fr_number r)) (fl_records (fst s))"
proof -
  obtain r where r: "r \<in> set (fl_records (fst s))" using assms(3) by (cases "fl_records (fst s)") auto
  then have "fr_number r \<in> set (allNumbers (fl_records (fst s)))" by (auto simp: numbers_def intro!: bexI [of _ r])
  then have "rn_epoch (fr_number r) = e"
    using assms(1) by (auto simp: window_ok_def flight_ok_def numbered_def)
  then show ?thesis using r assms(2) by (auto simp: list_ex_iff word_neq_0_conv)
qed

lemma built_window:
  assumes "buildProtectedFlight messages mtu (Some addr) st = (st', Inr f)"
  shows "window_ok messages addr (rc_epoch (st' addr)) (f, st')"
proof -
  from buildProtectedFlight_cases [OF assms] obtain k c' out where
    run: "protectedFlightRecords mtu (st addr) (messageFragments k messages) = (c', out)"
    and f: "Inr f = map_sum id (\<lambda>records. \<lparr>fl_records = records,
       fl_source = ProtectedSource messages addr (messageFragments k messages) mtu,
       fl_firstSentAt = None, fl_retransmitted = False\<rparr>) out" by auto
  then obtain rs where "out = Inr rs" by (cases out) auto
  with run f protectedFlightRecords_unsent show ?thesis
    using flight_ok_protected [OF assms] by (auto simp: window_ok_def)
qed

lemma window_keep:
  assumes "window_ok messages addr e (f, st)" and "flight_ok messages (f', st')" and "rc_epoch (st' addr) = rc_epoch (st addr)"
    and "fl_source f' = fl_source f" and "outstandingRecords (fl_records f') \<le> 10"
  shows "window_ok messages addr e (f', st')"
  using assms by (simp add: window_ok_def)

lemma window_send:
  assumes "window_ok messages addr e (f, st)" and "e \<noteq> 0"
  shows "outstandingRecords (fl_records (fst (nextUnsentWire f))) \<le> 10"
proof (cases "fl_records f = []")
  case False
  then have p: "list_ex (\<lambda>r. 0 < rn_epoch (fr_number r)) (fl_records f)" using window_protected [OF assms] by simp
  have "outstandingRecords (fl_records f) \<le> 10" using assms by (simp add: window_ok_def)
  then show ?thesis using takeUnsent_counts p by (simp add: nextUnsentWire_def case_prod_unfold Let_def)
qed (simp add: nextUnsentWire_def outstandingRecords_def)

lemma window_refresh:
  assumes w: "window_ok messages addr e (f, st)" and r: "refreshPending f st = (f', st', res)"
  shows "window_ok messages addr e (f', st')"
proof -
  have "flight_ok messages (f, st)" using w by (simp add: window_ok_def)
  from refreshPending_ok [OF this r]
  have ok: "flight_ok messages (f', st')" "list_all2 rebuilt (fl_records f) (fl_records f')" by simp_all
  obtain fs mtu where src: "fl_source f = ProtectedSource messages addr fs mtu" using w by (auto simp: window_ok_def)
  have fo: "flight_ok messages (f, st)" using w by (simp add: window_ok_def)
  have "rc_epoch (st' addr) = rc_epoch (st addr) \<and> fl_source f' = fl_source f"
  proof (cases "pendingIndices (fl_records f) = []")
    case True
    then show ?thesis using r src by (auto simp: refreshPending_def refreshWith_def indicesList_pendingIndexSet)
  next
    case False
    let ?is = "pendingIndices (fl_records f)"
    obtain rs c' out where run: "rebuildProtected mtu fs ?is (fl_records f) (st addr) = (rs, c', out)" by (rule prod_cases3)
    have "f' = f\<lparr>fl_records := rs, fl_source := ProtectedSource messages addr fs mtu\<rparr>" "st' = st(addr := c')"
      using r run False src by (simp_all add: refreshPending_def refreshWith_def indicesList_pendingIndexSet)
    moreover have "rc_epoch c' = rc_epoch (st addr)"
    proof (cases "c' = st addr")
      case False
      then have "resealProtected mtu fs ?is (fl_records f) (st addr) = (rs, c', out)"
        using run by (auto simp: rebuildProtected_def split: if_splits)
      from resealProtected_spec [OF _ pending_pendingIndices _ this] fo src
      have "c' = (st addr)\<lparr>rc_nextSequence := rc_nextSequence c'\<rparr>" by (simp add: flight_ok_def)
      then show ?thesis by (metis recordCipher.select_convs(1) recordCipher.surjective recordCipher.update_convs(5))
    qed simp
    ultimately show ?thesis using src by simp
  qed
  then show ?thesis using window_keep [OF w ok(1)] rebuilt_counts [OF ok(2)] w by (simp add: window_ok_def)
qed

lemma window_resize:
  assumes w: "window_ok messages addr e (f, st)" and r: "resizeFlight (Some f) mtu st = (Some f', st', res)"
  shows "window_ok messages addr e (f', st')"
proof -
  obtain fs mtu0 where src: "fl_source f = ProtectedSource messages addr fs mtu0" using w by (auto simp: window_ok_def)
  have ok: "flight_ok messages (f', st')" using resizeFlight_ok [OF _ r] w by (simp add: window_ok_def)
  obtain s out where b: "buildProtectedFlight messages mtu (Some addr) st = (s, out)" by fastforce
  have "rc_epoch (s addr) = rc_epoch (st addr)" using buildProtectedFlight_store [OF b] by auto
  then show ?thesis
  proof (cases out)
    case (Inl err)
    then have "fl_source f' = fl_source f" "fl_records f' = fl_records f" "st' = s"
      using r b src by (auto simp: resizeFlight_def)
    then show ?thesis using window_keep [OF w ok] w \<open>rc_epoch (s addr) = _\<close> by (simp add: window_ok_def)
  next
    case (Inr g)
    then have "fl_source f' = fl_source g" "fl_records f' = fl_records g" "st' = s"
      using r b src by (auto simp: resizeFlight_def)
    then show ?thesis
      using built_window [of messages mtu addr st s g] b Inr ok w \<open>rc_epoch (s addr) = _\<close> by (simp add: window_ok_def)
  qed
qed

lemma window_step: "flight_step s s' \<Longrightarrow> e \<noteq> 0 \<Longrightarrow> window_ok messages addr e s \<Longrightarrow> window_ok messages addr e s'"
proof -
  assume step: "flight_step s s'" and e: "e \<noteq> 0" and w: "window_ok messages addr e s"
  have ok: "flight_ok messages s'" using flight_step_ok [OF step] w by (simp add: window_ok_def)
  from step ok w show ?thesis
  proof (cases rule: flight_step.cases)
    case (step_ack f st ns)
    have "outstandingRecords (fl_records (fst (flightAck f ns))) \<le> 10"
      using flightAck_counts [of f ns] w step_ack by (simp add: window_ok_def)
    then show ?thesis using w ok step_ack by (simp add: window_ok_def flightAck_def)
  next
    case (step_send f st)
    then show ?thesis using w ok window_send [of messages addr e f st] e
      by (simp add: window_ok_def nextUnsentWire_def case_prod_unfold Let_def)
  next
    case (step_seal st addr' ct content wide lp c' res f)
    have "rc_epoch c' = rc_epoch (st addr')"
      using sealWithHeader_Inl [of "st addr'" ct content wide lp c'] sealWithHeader_success [of "st addr'" ct content wide lp c'] step_seal(3)
      by (cases res) auto
    then show ?thesis using w ok step_seal by (auto simp: window_ok_def)
  next
    case (step_refresh f st f' st' res)
    then show ?thesis using w window_refresh by blast
  next
    case (step_resize f mtu st f' st' res)
    then show ?thesis using w window_resize by blast
  qed (auto simp: window_ok_def noteSend_def claimPartialRetransmission_def Let_def)
qed

lemma window_steps:
  "flight_step\<^sup>*\<^sup>* s s' \<Longrightarrow> e \<noteq> 0 \<Longrightarrow> window_ok messages addr e s \<Longrightarrow> window_ok messages addr e s'"
  by (induction rule: rtranclp_induct) (auto intro: window_step)

section \<open>Progress\<close>

text \<open>One round trip: unsent records go out, everything in flight is acknowledged.\<close>

definition flightRound :: "flight \<Rightarrow> flight" where
  "flightRound f =
     (let f1 = fst (nextUnsentWire f)
      in fst (flightAck f1 (map fr_number (filter outstanding (fl_records f1)))))"

lemma pendingCount_ack:
  "pendingCount (fl_records (fst (flightAck f (map fr_number (filter outstanding (fl_records f)))))) \<le>
   pendingCount (fl_records f) - outstandingRecords (fl_records f)"
proof -
  let ?ns = "map fr_number (filter outstanding (fl_records f))"
  have ack: "acknowledgedBy r ?ns" if "r \<in> set (fl_records f)" "outstanding r" for r
    using that unfolding acknowledgedBy_iff by (auto simp: numbers_def)
  have "length (filter (\<lambda>r. \<not> fr_acked r) (map (\<lambda>r. if \<not> fr_acked r \<and> P r then r\<lparr>fr_acked := True\<rparr> else r) rs))
      \<le> length (filter unsent rs)" if "\<forall>r \<in> set rs. outstanding r \<longrightarrow> P r" for P rs
    using that by (induction rs) auto
  from this [of "fl_records f" "\<lambda>r. acknowledgedBy r ?ns"] ack
  show ?thesis using pendingCount_split [of "fl_records f"] by (auto simp: flightAck_def pendingCount_def)
qed

lemma pendingCount_round: "pendingCount (fl_records (flightRound f)) \<le> pendingCount (fl_records f) - 10"
proof -
  let ?f = "fst (nextUnsentWire f)"
  have split: "pendingCount (fl_records f) = outstandingRecords (fl_records f) + length (filter unsent (fl_records f))"
    by (rule pendingCount_split)
  have "length (filter unsent (fl_records f)) \<le> length (fl_records f)" by simp
  then have "min 10 (pendingCount (fl_records f)) \<le> outstandingRecords (fl_records ?f)"
    and "pendingCount (fl_records ?f) = pendingCount (fl_records f)"
    using takeUnsent_counts split
    by (auto simp: nextUnsentWire_def case_prod_unfold Let_def)
  then show ?thesis using pendingCount_ack [of ?f] unfolding flightRound_def Let_def by linarith
qed

lemma pendingCount_rounds: "pendingCount (fl_records ((flightRound ^^ n) f)) \<le> pendingCount (fl_records f) - 10 * n"
proof (induction n)
  case (Suc n)
  then show ?case using pendingCount_round [of "(flightRound ^^ n) f"] by simp
qed simp

lemma flightComplete_iff: "flightComplete f \<longleftrightarrow> pendingCount (fl_records f) = 0"
  by (auto simp: flightComplete_def pendingCount_def list_all_iff filter_empty_conv)

section \<open>Properties\<close>


definition sampleMessages :: "handshakeMessage list" where
  "sampleMessages = [\<lparr>hm_typ = 1, hm_sequence = 0, hm_body = [1, 2, 3, 4, 5]\<rparr>]"

definition sampleFlight :: flight where
  "sampleFlight = (case buildPlainFlight sampleMessages 28 0 0 of Inr (f, _) \<Rightarrow> f | Inl _ \<Rightarrow> undefined)"

lemma sampleFlight_built: "\<exists>n. buildPlainFlight sampleMessages 28 0 0 = Inr (sampleFlight, n)"
proof -
  have "\<exists>p. buildPlainFlight sampleMessages 28 0 0 = Inr p"
    by (simp add: buildPlainFlight_def plainMaxFragment_def sampleMessages_def countHandshakeFragments_def
        fragmentHandshakeMessageInto_def fragmentFrom.simps slice_def rbind_def Let_def allocatePlainRecordWire_def
        validPlainContentType_def marshalHandshakeFragmentInto_def validateHandshakeFragment_def putUint16_def putUint48_def word_le_nat_alt)
  then show ?thesis unfolding sampleFlight_def by auto
qed



text \<open>
  C20. The send window of protected flights. However transmissions, acknowledgements,
  retransmissions and MTU changes interleave, a flight built under an encrypted epoch never has
  more than ten records sent and not acknowledged.
\<close>

theorem flight_window_bounded:
  assumes "buildProtectedFlight messages mtu (Some addr) st = (st0, Inr f0)" and "rc_epoch (st0 addr) \<noteq> 0"
    and "flight_step\<^sup>*\<^sup>* (f0, st0) (f, st')"
  shows "outstandingRecords (fl_records f) \<le> 10"
  using window_steps [OF assms(3,2) built_window [OF assms(1)]] by (simp add: window_ok_def)

lemma length_protectSequence: "length (protectSequence off n bs header) = length header"
proof -
  have "length (fold (\<lambda>i h. h[off + i := h ! (off + i) XOR (if i = 0 then fst bs else snd bs)]) xs h) = length h" for xs h
    by (induction xs arbitrary: h) simp_all
  then show ?thesis by (simp add: protectSequence_def)
qed

lemma sampleProtected_built:
  "\<exists>st0 f0. buildProtectedFlight sampleMessages 50 (Some 0) (\<lambda>_. sampleCipher) = (st0, Inr f0) \<and> rc_epoch (st0 0) \<noteq> 0"
proof -
  have frags: "messageFragments 15 sampleMessages = [\<lparr>hf_typ = 1, hf_messageSequence = 0, hf_length = 5, hf_offset = 0, hf_body = [1, 2, 3, 4, 5]\<rparr>]"
    by (simp add: messageFragments_def sampleMessages_def fragmentHandshakeMessageInto_def fragmentFrom.simps slice_def)
  have "\<exists>c rs. protectedFlightRecords 50 sampleCipher (messageFragments 15 sampleMessages) = (c, Inr rs) \<and> rc_epoch c = rc_epoch sampleCipher"
    unfolding frags
    by (simp add: sealHandshakeFragmentInto_def validateHandshakeFragment_def sealWithHeader_def sampleCipher_def sampleAead_def
        sampleTag_def validInnerContentType_def putHandshakeFragment_def unifiedHeader_def length_protectSequence putUint16_def
        putUint24_def Let_def word_le_nat_alt word_less_nat_alt)
  then obtain c rs where run: "protectedFlightRecords 50 sampleCipher (messageFragments 15 sampleMessages) = (c, Inr rs)"
    and c: "rc_epoch c = rc_epoch sampleCipher" by blast
  have k: "protectedMaxFragment 50 sampleCipher = 15"
    by (simp add: protectedMaxFragment_def headerLen16_def sampleCipher_def sampleAead_def maxContent_def)
  have overhead: "protectedRecordOverhead sampleCipher = 35"
    by (simp add: protectedRecordOverhead_def headerLen16_def sampleCipher_def sampleAead_def)
  have count: "countHandshakeFragments sampleMessages 15 = Inr 1"
    by (simp add: countHandshakeFragments_def sampleMessages_def)
  have size: "\<not> flightSizeOverflow 35 (map (\<lambda>message. length (hm_body message)) sampleMessages)"
    by (simp add: sampleMessages_def)
  show ?thesis
    using run c k overhead count size
    by (simp add: buildProtectedFlight_def messageFragments_def sampleCipher_def Let_def)
qed

theorem flight_window_bounded_witness:
  "\<exists>st0 f0. buildProtectedFlight sampleMessages 50 (Some 0) (\<lambda>_. sampleCipher) = (st0, Inr f0) \<and>
     outstandingRecords (fl_records (fst (nextUnsentWire f0))) \<le> 10"
proof -
  obtain st0 f0 where b: "buildProtectedFlight sampleMessages 50 (Some 0) (\<lambda>_. sampleCipher) = (st0, Inr f0)"
    and e: "rc_epoch (st0 0) \<noteq> 0" using sampleProtected_built by blast
  have "flight_step\<^sup>*\<^sup>* (f0, st0) (fst (nextUnsentWire f0), st0)" by (rule r_into_rtranclp, rule step_send)
  from flight_window_bounded [OF b e this] b show ?thesis by blast
qed

text \<open>
  C21. Transmission of a flight terminates. When every round trip acknowledges what is in flight,
  a flight of at most ten records per round is complete after the given number of rounds, whatever
  had been sent and acknowledged before.
\<close>

theorem flight_completes:
  assumes "length (fl_records f) \<le> 10 * rounds"
  shows "flightComplete ((flightRound ^^ rounds) f)"
proof -
  have "pendingCount (fl_records f) \<le> length (fl_records f)" by (simp add: pendingCount_def)
  then show ?thesis using pendingCount_rounds [of rounds f] assms unfolding flightComplete_iff by linarith
qed

theorem flight_completes_witness: "flightComplete ((flightRound ^^ 1) sampleFlight)"
proof -
  obtain n where "buildPlainFlight sampleMessages 28 0 0 = Inr (sampleFlight, n)" using sampleFlight_built by blast
  then have "\<exists>n. plainFlightRecords 0 0 (messageFragments 3 sampleMessages) = Inr (fl_records sampleFlight, n)"
    by (auto simp: buildPlainFlight_def plainMaxFragment_def rbind_def Let_def messageFragments_def split: sum.splits prod.splits)
      (metis flight.select_convs(1))
  then have "length (fl_records sampleFlight) = length (messageFragments 3 sampleMessages)"
    using plainFlightRecords_spec by (metis list_all2_lengthD)
  also have "\<dots> \<le> 10 * 1"
    by (simp add: messageFragments_def sampleMessages_def fragmentHandshakeMessageInto_def fragmentFrom.simps)
  finally show ?thesis by (rule flight_completes)
qed

end
