(* ===== verification/Wire.thy ===== *)
theory Wire
  imports Alert
begin

text \<open>
  The wire builder and the wire parser of \<^verbatim>\<open>src/hello.go\<close>. Both keep their first error:
  after a failed operation the builder appends nothing and the parser reads nothing, and
  the caller looks at the error once at the end. The lemmas describe the parser by the bytes
  that are left, \<open>rest\<close>, and the builder by the bytes an operation appends, \<open>emits\<close>.
\<close>

section \<open>Builder\<close>

record wireBuilder =
  wb_b :: bytes
  wb_err :: "go_error option"

definition newWireBuilder :: wireBuilder where
  "newWireBuilder = \<lparr>wb_b = [], wb_err = None\<rparr>"

definition vectorOverflow :: "nat \<Rightarrow> string \<Rightarrow> go_error" where
  "vectorOverflow bits text = VectorOverflow bits (ProtocolError text)"

definition wbAppend :: "wireBuilder \<Rightarrow> bytes \<Rightarrow> wireBuilder" where
  "wbAppend w v = w\<lparr>wb_b := wb_b w @ v\<rparr>"

definition wbU8 :: "wireBuilder \<Rightarrow> int \<Rightarrow> wireBuilder" where
  "wbU8 w v =
     (if wb_err w \<noteq> None then w
      else if v < 0 \<or> 255 < v then w\<lparr>wb_err := Some (vectorOverflow 8 ''8-bit vector overflow'')\<rparr>
      else wbAppend w [of_int v])"

definition wbU16 :: "wireBuilder \<Rightarrow> int \<Rightarrow> wireBuilder" where
  "wbU16 w v =
     (if wb_err w \<noteq> None then w
      else if v < 0 \<or> 65535 < v then w\<lparr>wb_err := Some (vectorOverflow 16 ''16-bit vector overflow'')\<rparr>
      else wbAppend w (putUint16 (of_int v)))"

definition wbU24 :: "wireBuilder \<Rightarrow> int \<Rightarrow> wireBuilder" where
  "wbU24 w v =
     (if wb_err w \<noteq> None then w
      else if v < 0 \<or> 2 ^ 24 \<le> v then w\<lparr>wb_err := Some (vectorOverflow 24 ''24-bit vector overflow'')\<rparr>
      else wbAppend w (putUint24 (of_int v)))"

definition wbU32 :: "wireBuilder \<Rightarrow> u32 \<Rightarrow> wireBuilder" where
  "wbU32 w v = (if wb_err w \<noteq> None then w else wbAppend w (putUint32 v))"

definition wbBytes8 :: "wireBuilder \<Rightarrow> bytes \<Rightarrow> wireBuilder" where
  "wbBytes8 w v = (let w1 = wbU8 w (int (length v)) in if wb_err w1 = None then wbAppend w1 v else w1)"

definition wbBytes16 :: "wireBuilder \<Rightarrow> bytes \<Rightarrow> wireBuilder" where
  "wbBytes16 w v = (let w1 = wbU16 w (int (length v)) in if wb_err w1 = None then wbAppend w1 v else w1)"

definition wbBytes24 :: "wireBuilder \<Rightarrow> bytes \<Rightarrow> wireBuilder" where
  "wbBytes24 w v = (let w1 = wbU24 w (int (length v)) in if wb_err w1 = None then wbAppend w1 v else w1)"

text \<open>Go strings are byte sequences, so the string variants are the same functions.\<close>

definition wbString8 :: "wireBuilder \<Rightarrow> bytes \<Rightarrow> wireBuilder" where
  "wbString8 w v = (let w1 = wbU8 w (int (length v)) in if wb_err w1 = None then wbAppend w1 v else w1)"

definition wbString16 :: "wireBuilder \<Rightarrow> bytes \<Rightarrow> wireBuilder" where
  "wbString16 w v = (let w1 = wbU16 w (int (length v)) in if wb_err w1 = None then wbAppend w1 v else w1)"

definition startVector16 :: "wireBuilder \<Rightarrow> int \<times> wireBuilder" where
  "startVector16 w = (if wb_err w \<noteq> None then (-1, w) else (int (length (wb_b w)), wbAppend w [0, 0]))"

definition endVector16 :: "wireBuilder \<Rightarrow> int \<Rightarrow> wireBuilder" where
  "endVector16 w start =
     (if start < 0 then w
      else if wb_err w \<noteq> None then w\<lparr>wb_b := take (nat start) (wb_b w)\<rparr>
      else
        let n = int (length (wb_b w)) - start - 2 in
        if 65535 < n
          then w\<lparr>wb_b := take (nat start) (wb_b w), wb_err := Some (vectorOverflow 16 ''16-bit vector overflow'')\<rparr>
        else w\<lparr>wb_b := copy_at (nat start) (putUint16 (of_int n)) (wb_b w)\<rparr>)"

definition startVector24 :: "wireBuilder \<Rightarrow> int \<times> wireBuilder" where
  "startVector24 w = (if wb_err w \<noteq> None then (-1, w) else (int (length (wb_b w)), wbAppend w [0, 0, 0]))"

definition endVector24 :: "wireBuilder \<Rightarrow> int \<Rightarrow> wireBuilder" where
  "endVector24 w start =
     (if start < 0 then w
      else if wb_err w \<noteq> None then w\<lparr>wb_b := take (nat start) (wb_b w)\<rparr>
      else
        let n = int (length (wb_b w)) - start - 3 in
        if 2 ^ 24 \<le> n
          then w\<lparr>wb_b := take (nat start) (wb_b w), wb_err := Some (vectorOverflow 24 ''24-bit vector overflow'')\<rparr>
        else w\<lparr>wb_b := copy_at (nat start) (putUint24 (of_int n)) (wb_b w)\<rparr>)"

text \<open>A builder's final \<open>return w.b, w.err\<close>.\<close>

definition wbResult :: "wireBuilder \<Rightarrow> bytes result" where
  "wbResult w = (case wb_err w of None \<Rightarrow> Inr (wb_b w) | Some err \<Rightarrow> Inl err)"

section \<open>Parser\<close>

record wireParser =
  wp_b :: bytes
  wp_off :: nat
  wp_err :: "go_error option"

definition newWireParser :: "bytes \<Rightarrow> wireParser" where
  "newWireParser b = \<lparr>wp_b = b, wp_off = 0, wp_err = None\<rparr>"

text \<open>A failed read returns nil, which no caller distinguishes from an empty slice.\<close>

definition wpTake :: "wireParser \<Rightarrow> int \<Rightarrow> bytes \<times> wireParser" where
  "wpTake p n =
     (if wp_err p \<noteq> None then ([], p)
      else if n < 0 \<or> int (length (wp_b p)) - int (wp_off p) < n
        then ([], p\<lparr>wp_err := Some (alertError alertDecodeError (ProtocolError ''truncated handshake message''))\<rparr>)
      else (slice (wp_off p) (wp_off p + nat n) (wp_b p), p\<lparr>wp_off := wp_off p + nat n\<rparr>))"

definition wpU8 :: "wireParser \<Rightarrow> nat \<times> wireParser" where
  "wpU8 p = (let (b, p1) = wpTake p 1 in (if b = [] then 0 else unat (b ! 0), p1))"

definition wpU16 :: "wireParser \<Rightarrow> nat \<times> wireParser" where
  "wpU16 p = (let (b, p1) = wpTake p 2 in (if b = [] then 0 else unat (getUint16 b), p1))"

definition wpU24 :: "wireParser \<Rightarrow> nat \<times> wireParser" where
  "wpU24 p = (let (b, p1) = wpTake p 3 in (if b = [] then 0 else unat (getUint24 b), p1))"

definition wpU32 :: "wireParser \<Rightarrow> u32 \<times> wireParser" where
  "wpU32 p = (let (b, p1) = wpTake p 4 in (if b = [] then 0 else getUint32 b, p1))"

definition wpBytes8 :: "wireParser \<Rightarrow> bytes \<times> wireParser" where
  "wpBytes8 p = (let (n, p1) = wpU8 p in wpTake p1 (int n))"

definition wpBytes16 :: "wireParser \<Rightarrow> bytes \<times> wireParser" where
  "wpBytes16 p = (let (n, p1) = wpU16 p in wpTake p1 (int n))"

definition wpBytes24 :: "wireParser \<Rightarrow> bytes \<times> wireParser" where
  "wpBytes24 p = (let (n, p1) = wpU24 p in wpTake p1 (int n))"

definition wpDone :: "wireParser \<Rightarrow> unit result" where
  "wpDone p =
     (case wp_err p of
        Some err \<Rightarrow> Inl err
      | None \<Rightarrow>
          if wp_off p \<noteq> length (wp_b p) then Inl (alertError alertDecodeError (ProtocolError ''trailing handshake data''))
          else Inr ())"

section \<open>Running the builder\<close>

named_theorems build_simps \<open>what the builder operations append\<close>

lemma wbAppend_err [simp]: "wb_err (wbAppend w a) = wb_err w"
  by (simp add: wbAppend_def)

lemma wbAppend_append [build_simps]: "wbAppend (wbAppend w a) b = wbAppend w (a @ b)"
  by (simp add: wbAppend_def)

lemma wbAppend_Nil [build_simps]: "wbAppend w [] = w"
  by (simp add: wbAppend_def)

lemma newWireBuilder_err [simp]: "wb_err newWireBuilder = None"
  by (simp add: newWireBuilder_def)

lemma wbResult_append [build_simps]: "wbResult (wbAppend newWireBuilder b) = Inr b"
  by (simp add: wbResult_def wbAppend_def newWireBuilder_def)

lemma wb_numbers [build_simps]:
  "wb_err w = None \<Longrightarrow> 0 \<le> v \<Longrightarrow> v \<le> 255 \<Longrightarrow> wbU8 w v = wbAppend w [of_int v]"
  "wb_err w = None \<Longrightarrow> 0 \<le> v \<Longrightarrow> v \<le> 65535 \<Longrightarrow> wbU16 w v = wbAppend w (putUint16 (of_int v))"
  "wb_err w = None \<Longrightarrow> 0 \<le> v \<Longrightarrow> v < 16777216 \<Longrightarrow> wbU24 w v = wbAppend w (putUint24 (of_int v))"
  "wb_err w = None \<Longrightarrow> wbU32 w x = wbAppend w (putUint32 x)"
  by (simp_all add: wbU8_def wbU16_def wbU24_def wbU32_def)

lemma wb_vectors [build_simps]:
  "wb_err w = None \<Longrightarrow> length v \<le> 255 \<Longrightarrow> wbBytes8 w v = wbAppend w (of_nat (length v) # v)"
  "wb_err w = None \<Longrightarrow> length v \<le> 255 \<Longrightarrow> wbString8 w v = wbAppend w (of_nat (length v) # v)"
  "wb_err w = None \<Longrightarrow> length v \<le> 65535 \<Longrightarrow> wbBytes16 w v = wbAppend w (putUint16 (of_nat (length v)) @ v)"
  "wb_err w = None \<Longrightarrow> length v \<le> 65535 \<Longrightarrow> wbString16 w v = wbAppend w (putUint16 (of_nat (length v)) @ v)"
  "wb_err w = None \<Longrightarrow> length v < 16777216 \<Longrightarrow> wbBytes24 w v = wbAppend w (putUint24 (of_nat (length v)) @ v)"
  by (simp_all add: wbBytes8_def wbString8_def wbBytes16_def wbString16_def wbBytes24_def wbU8_def wbU16_def wbU24_def
      wbAppend_append Let_def)

lemma wb_vector16 [build_simps]:
  assumes "wb_err w = None" and "length bs \<le> 65535"
  shows "endVector16 (wbAppend w ([0, 0] @ bs)) (int (length (wb_b w))) = wbAppend w (putUint16 (of_nat (length bs)) @ bs)"
  using assms by (simp add: endVector16_def wbAppend_def copy_at_def putUint16_def)

lemma wb_vector24 [build_simps]:
  assumes "wb_err w = None" and "length bs < 16777216"
  shows "endVector24 (wbAppend w ([0, 0, 0] @ bs)) (int (length (wb_b w))) = wbAppend w (putUint24 (of_nat (length bs)) @ bs)"
  using assms by (simp add: endVector24_def wbAppend_def copy_at_def putUint24_def)

lemma wb_start [build_simps]:
  "wb_err w = None \<Longrightarrow> startVector16 w = (int (length (wb_b w)), wbAppend w [0, 0])"
  "wb_err w = None \<Longrightarrow> startVector24 w = (int (length (wb_b w)), wbAppend w [0, 0, 0])"
  by (simp_all add: startVector16_def startVector24_def)

text \<open>A loop that appends one item after the other.\<close>

lemma wb_fold:
  assumes "\<And>w x. wb_err w = None \<Longrightarrow> x \<in> set xs \<Longrightarrow> f x w = wbAppend w (g x)" and "wb_err w = None"
  shows "fold f xs w = wbAppend w (concat (map g xs))"
  using assms
proof (induction xs arbitrary: w)
  case (Cons x xs)
  then show ?case by (simp add: wbAppend_append)
qed (simp add: wbAppend_Nil)

text \<open>The error is sticky: the first failure decides.\<close>

lemma wb_sticky [simp]:
  "wb_err w = Some e \<Longrightarrow> wbU8 w v = w" "wb_err w = Some e \<Longrightarrow> wbU16 w v = w" "wb_err w = Some e \<Longrightarrow> wbU24 w v = w"
  "wb_err w = Some e \<Longrightarrow> wbU32 w x = w" "wb_err w = Some e \<Longrightarrow> wbBytes8 w b = w" "wb_err w = Some e \<Longrightarrow> wbBytes16 w b = w"
  "wb_err w = Some e \<Longrightarrow> wbBytes24 w b = w"
  by (simp_all add: wbU8_def wbU16_def wbU24_def wbU32_def wbBytes8_def wbBytes16_def wbBytes24_def Let_def)

section \<open>Running the parser\<close>

named_theorems parse_simps \<open>what the parser operations read\<close>

definition rest :: "wireParser \<Rightarrow> bytes" where
  "rest p = drop (wp_off p) (wp_b p)"

definition good :: "wireParser \<Rightarrow> bool" where
  "good p \<longleftrightarrow> wp_err p = None \<and> wp_off p \<le> length (wp_b p)"

definition adv :: "nat \<Rightarrow> wireParser \<Rightarrow> wireParser" where
  "adv n p = p\<lparr>wp_off := wp_off p + n\<rparr>"

lemma length_rest: "good p \<Longrightarrow> length (rest p) = length (wp_b p) - wp_off p"
  by (simp add: rest_def)

lemma good_new [simp]: "good (newWireParser b)" and rest_new [simp]: "rest (newWireParser b) = b"
  by (simp_all add: good_def rest_def newWireParser_def)

lemma good_adv: "good p \<Longrightarrow> n \<le> length (rest p) \<Longrightarrow> good (adv n p)"
  by (auto simp: good_def adv_def rest_def)

lemma rest_adv: "rest (adv n p) = drop n (rest p)"
  by (simp add: rest_def adv_def add.commute)

lemma wp_b_adv [simp]: "wp_b (adv n p) = wp_b p"
  by (simp add: adv_def)

lemma wp_b_new [simp]: "wp_b (newWireParser b) = b"
  by (simp add: newWireParser_def)

lemma good_err [simp]: "good p \<Longrightarrow> wp_err p = None"
  by (simp add: good_def)

lemma good_more: "good p \<Longrightarrow> wp_off p < length (wp_b p) \<longleftrightarrow> rest p \<noteq> []"
  by (auto simp: good_def rest_def)

lemma wpTake_good: "good p \<Longrightarrow> n \<le> length (rest p) \<Longrightarrow> wpTake p (int n) = (take n (rest p), adv n p)"
  by (auto simp: wpTake_def good_def rest_def adv_def slice_def)

lemma adv_adv [simp]: "adv n (adv m p) = adv (m + n) p"
  by (simp add: adv_def add.assoc)

lemma take_nonempty: "n \<le> length b \<Longrightarrow> 0 < n \<Longrightarrow> take n b \<noteq> []"
  by auto

lemma getUint_take [simp]:
  "getUint16 (take 2 b) = getUint16 b" "getUint24 (take 3 b) = getUint24 b" "getUint32 (take 4 b) = getUint32 b"
  by (simp_all add: getUint16_def getUint24_def getUint32_def)

lemma wpNumbers_good:
  "good p \<Longrightarrow> 1 \<le> length (rest p) \<Longrightarrow> wpU8 p = (unat (rest p ! 0), adv 1 p)"
  "good p \<Longrightarrow> 2 \<le> length (rest p) \<Longrightarrow> wpU16 p = (unat (getUint16 (rest p)), adv 2 p)"
  "good p \<Longrightarrow> 3 \<le> length (rest p) \<Longrightarrow> wpU24 p = (unat (getUint24 (rest p)), adv 3 p)"
  "good p \<Longrightarrow> 4 \<le> length (rest p) \<Longrightarrow> wpU32 p = (getUint32 (rest p), adv 4 p)"
  using wpTake_good [of p 1] wpTake_good [of p 2] wpTake_good [of p 3] wpTake_good [of p 4]
  by (auto simp: wpU8_def wpU16_def wpU24_def wpU32_def dest: take_nonempty)

lemma wpVectors_good:
  "good p \<Longrightarrow> 1 \<le> length (rest p) \<Longrightarrow> 1 + unat (rest p ! 0) \<le> length (rest p) \<Longrightarrow>
   wpBytes8 p = (take (unat (rest p ! 0)) (drop 1 (rest p)), adv (1 + unat (rest p ! 0)) p)"
  "good p \<Longrightarrow> 2 \<le> length (rest p) \<Longrightarrow> 2 + unat (getUint16 (rest p)) \<le> length (rest p) \<Longrightarrow>
   wpBytes16 p = (take (unat (getUint16 (rest p))) (drop 2 (rest p)), adv (2 + unat (getUint16 (rest p))) p)"
  "good p \<Longrightarrow> 3 \<le> length (rest p) \<Longrightarrow> 3 + unat (getUint24 (rest p)) \<le> length (rest p) \<Longrightarrow>
   wpBytes24 p = (take (unat (getUint24 (rest p))) (drop 3 (rest p)), adv (3 + unat (getUint24 (rest p))) p)"
  using wpTake_good [of "adv 1 p" "unat (rest p ! 0)"] wpTake_good [of "adv 2 p" "unat (getUint16 (rest p))"]
    wpTake_good [of "adv 3 p" "unat (getUint24 (rest p))"]
  by (simp_all add: wpBytes8_def wpBytes16_def wpBytes24_def wpNumbers_good good_adv rest_adv)

lemma wpDone_good: "good p \<Longrightarrow> wpDone p = (if rest p = [] then Inr () else
    Inl (alertError alertDecodeError (ProtocolError ''trailing handshake data'')))"
  by (auto simp: wpDone_def good_def rest_def)

lemmas parser_run [parse_simps] = wpTake_good wpNumbers_good wpVectors_good wpDone_good good_adv rest_adv good_more

text \<open>The usual inputs: a vector with its length prefix, followed by the remaining bytes.\<close>

lemma wpBytes16_vector [parse_simps]:
  "good p \<Longrightarrow> rest p = putUint16 (of_nat (length v)) @ v @ r \<Longrightarrow> length v \<le> 65535 \<Longrightarrow> wpBytes16 p = (v, adv (2 + length v) p)"
  by (simp add: wpVectors_good)

lemma bytes16_exact:
  "length v \<le> 65535 \<Longrightarrow> wpBytes16 (newWireParser (putUint16 (of_nat (length v)) @ v)) = (v, adv (2 + length v) (newWireParser (putUint16 (of_nat (length v)) @ v)))"
  by (simp add: wpVectors_good)

section \<open>Reading backwards\<close>

text \<open>A read that leaves no error read exactly the encoding of its value.\<close>

lemma wpTake_reads:
  assumes "wpTake p n = (v, p')" and "wp_err p' = None" and "wp_off p \<le> length (wp_b p)"
  shows "good p \<and> good p' \<and> wp_b p' = wp_b p \<and> rest p = v @ rest p' \<and> int (length v) = n"
  using assms
  by (auto simp: wpTake_def good_def rest_def slice_def nat_add_distrib drop_drop [symmetric] add.commute
      simp del: drop_drop split: if_splits)

lemma wpU8_reads:
  assumes "wpU8 p = (v, p')" and "wp_err p' = None" and "wp_off p \<le> length (wp_b p)"
  shows "good p \<and> good p' \<and> wp_b p' = wp_b p \<and> v < 256 \<and> rest p = of_nat v # rest p'"
proof -
  obtain b where t: "wpTake p 1 = (b, p')" and v: "v = (if b = [] then 0 else unat (b ! 0))"
    using assms(1) by (auto simp: wpU8_def split: prod.splits)
  from wpTake_reads [OF t assms(2,3)] v show ?thesis
    using unsigned_less [of "b ! 0", where 'a = nat] by (cases b) auto
qed

lemma wpU16_reads:
  assumes "wpU16 p = (v, p')" and "wp_err p' = None" and "wp_off p \<le> length (wp_b p)"
  shows "good p \<and> good p' \<and> wp_b p' = wp_b p \<and> v < 65536 \<and> rest p = putUint16 (of_nat v) @ rest p'"
proof -
  obtain b where t: "wpTake p 2 = (b, p')" and v: "v = (if b = [] then 0 else unat (getUint16 b))"
    using assms(1) by (auto simp: wpU16_def split: prod.splits)
  note r = wpTake_reads [OF t assms(2,3)]
  then have b: "length b = 2" by simp
  then have "b \<noteq> []" by auto
  then show ?thesis using r v b put_getUint(1) [of b] unsigned_less [of "getUint16 b", where 'a = nat] by simp
qed

lemma wpU24_reads:
  assumes "wpU24 p = (v, p')" and "wp_err p' = None" and "wp_off p \<le> length (wp_b p)"
  shows "good p \<and> good p' \<and> wp_b p' = wp_b p \<and> v < 2 ^ 24 \<and> rest p = putUint24 (of_nat v) @ rest p'"
proof -
  obtain b where t: "wpTake p 3 = (b, p')" and v: "v = (if b = [] then 0 else unat (getUint24 b))"
    using assms(1) by (auto simp: wpU24_def split: prod.splits)
  note r = wpTake_reads [OF t assms(2,3)]
  then have b: "length b = 3" by simp
  then have "b \<noteq> []" by auto
  moreover have "unat (getUint24 b) < 2 ^ 24" using getUint24_less [of b] b by (simp add: word_less_nat_alt)
  ultimately show ?thesis using r v b put_getUint(2) [of b] by simp
qed

lemma wpU32_reads:
  assumes "wpU32 p = (v, p')" and "wp_err p' = None" and "wp_off p \<le> length (wp_b p)"
  shows "good p \<and> good p' \<and> wp_b p' = wp_b p \<and> rest p = putUint32 v @ rest p'"
proof -
  obtain b where t: "wpTake p 4 = (b, p')" and v: "v = (if b = [] then 0 else getUint32 b)"
    using assms(1) by (auto simp: wpU32_def split: prod.splits)
  note r = wpTake_reads [OF t assms(2,3)]
  then have b: "length b = 4" by simp
  then have "b \<noteq> []" by auto
  then show ?thesis using r v b put_getUint(3) [of b] by simp
qed

lemma wpBytes8_reads:
  assumes "wpBytes8 p = (v, p')" and "wp_err p' = None" and "wp_off p \<le> length (wp_b p)"
  shows "good p \<and> good p' \<and> wp_b p' = wp_b p \<and> length v \<le> 255 \<and> rest p = of_nat (length v) # v @ rest p'"
proof -
  obtain n q where n: "wpU8 p = (n, q)" and t: "wpTake q (int n) = (v, p')"
    using assms(1) by (auto simp: wpBytes8_def split: prod.splits)
  have q: "wp_err q = None" using t assms(2) by (auto simp: wpTake_def split: if_splits)
  note u = wpU8_reads [OF n q assms(3)]
  from wpTake_reads [OF t assms(2)] u show ?thesis by (auto simp: good_def)
qed

lemma wpBytes16_reads:
  assumes "wpBytes16 p = (v, p')" and "wp_err p' = None" and "wp_off p \<le> length (wp_b p)"
  shows "good p \<and> good p' \<and> wp_b p' = wp_b p \<and> length v \<le> 65535 \<and> rest p = putUint16 (of_nat (length v)) @ v @ rest p'"
proof -
  obtain n q where n: "wpU16 p = (n, q)" and t: "wpTake q (int n) = (v, p')"
    using assms(1) by (auto simp: wpBytes16_def split: prod.splits)
  have q: "wp_err q = None" using t assms(2) by (auto simp: wpTake_def split: if_splits)
  note u = wpU16_reads [OF n q assms(3)]
  from wpTake_reads [OF t assms(2)] u show ?thesis by (auto simp: good_def)
qed

lemma wpBytes24_reads:
  assumes "wpBytes24 p = (v, p')" and "wp_err p' = None" and "wp_off p \<le> length (wp_b p)"
  shows "good p \<and> good p' \<and> wp_b p' = wp_b p \<and> length v < 2 ^ 24 \<and> rest p = putUint24 (of_nat (length v)) @ v @ rest p'"
proof -
  obtain n q where n: "wpU24 p = (n, q)" and t: "wpTake q (int n) = (v, p')"
    using assms(1) by (auto simp: wpBytes24_def split: prod.splits)
  have q: "wp_err q = None" using t assms(2) by (auto simp: wpTake_def split: if_splits)
  note u = wpU24_reads [OF n q assms(3)]
  from wpTake_reads [OF t assms(2)] u show ?thesis by (auto simp: good_def)
qed

lemma wpDone_Inr: "wpDone p = Inr () \<longleftrightarrow> wp_err p = None \<and> wp_off p = length (wp_b p)"
  by (auto simp: wpDone_def split: option.splits)

lemma good_done: "good p \<Longrightarrow> wpDone p = Inr () \<longleftrightarrow> rest p = []"
  by (auto simp: wpDone_Inr good_def rest_def)

lemmas wp_reads = wpU8_reads wpU16_reads wpU24_reads wpU32_reads wpBytes8_reads wpBytes16_reads wpBytes24_reads

text \<open>Once an error is set every read returns nothing and keeps it.\<close>

lemma wp_sticky:
  "wp_err p = Some e \<Longrightarrow> wpTake p n = ([], p)" "wp_err p = Some e \<Longrightarrow> wpU8 p = (0, p)"
  "wp_err p = Some e \<Longrightarrow> wpU16 p = (0, p)" "wp_err p = Some e \<Longrightarrow> wpU24 p = (0, p)" "wp_err p = Some e \<Longrightarrow> wpU32 p = (0, p)"
  "wp_err p = Some e \<Longrightarrow> wpBytes8 p = ([], p)" "wp_err p = Some e \<Longrightarrow> wpBytes16 p = ([], p)" "wp_err p = Some e \<Longrightarrow> wpBytes24 p = ([], p)"
  by (simp_all add: wpTake_def wpU8_def wpU16_def wpU24_def wpU32_def wpBytes8_def wpBytes16_def wpBytes24_def)

section \<open>Parser loops\<close>

text \<open>
  The loop \<^verbatim>\<open>for q.off < len(q.b) { ... }\<close> over a parser, with the loop body as \<open>step\<close>. Every
  body of the source returns or reads at least one byte, so the last branch, a loop that makes no
  progress, is never taken.
\<close>

function wpLoop :: "(wireParser \<Rightarrow> 's \<Rightarrow> ('s \<times> wireParser) result) \<Rightarrow> wireParser \<Rightarrow> 's \<Rightarrow> ('s \<times> wireParser) result" where
  "wpLoop step q s =
     (if wp_off q < length (wp_b q) then
        (case step q s of
           Inl err \<Rightarrow> Inl err
         | Inr (s', q') \<Rightarrow>
             if wp_b q' = wp_b q \<and> wp_off q < wp_off q' then wpLoop step q' s'
             else Inl (Panic ''loop without progress''))
      else Inr (s, q))"
  by pat_completeness auto
termination
  by (relation "measure (\<lambda>(step, q, s). length (wp_b q) - wp_off q)") auto

declare wpLoop.simps [simp del]

lemma wpLoop_run:
  assumes step: "\<And>pre x post q r. xs = pre @ x # post \<Longrightarrow> good q \<Longrightarrow> rest q = enc x @ r \<Longrightarrow>
      step q (S pre) = Inr (S (pre @ [x]), adv (length (enc x)) q)"
    and enc: "\<And>x. x \<in> set xs \<Longrightarrow> enc x \<noteq> []"
    and q: "good q" "rest q = concat (map enc xs)"
  shows "wpLoop step q (S []) = Inr (S xs, adv (length (concat (map enc xs))) q)"
proof -
  have "wpLoop step q' (S pre) = Inr (S xs, adv (length (concat (map enc post))) q')"
    if "xs = pre @ post" "good q'" "rest q' = concat (map enc post)" for pre post q'
    using that
  proof (induction post arbitrary: pre q')
    case Nil
    then have "\<not> wp_off q' < length (wp_b q')" using good_more [of q'] by simp
    then show ?case using Nil by (subst wpLoop.simps) (simp add: adv_def)
  next
    case (Cons x post)
    have x: "enc x \<noteq> []" using enc Cons.prems(1) by simp
    then have more: "wp_off q' < length (wp_b q')" using good_more [OF Cons.prems(2)] Cons.prems(3) by simp
    have s: "step q' (S pre) = Inr (S (pre @ [x]), adv (length (enc x)) q')"
      using step [OF Cons.prems(1,2)] Cons.prems(3) by simp
    have "wp_off q' < wp_off (adv (length (enc x)) q')" using x by (simp add: adv_def)
    moreover have "wpLoop step (adv (length (enc x)) q') (S (pre @ [x])) =
        Inr (S xs, adv (length (concat (map enc post))) (adv (length (enc x)) q'))"
      using Cons.prems by (intro Cons.IH) (simp_all add: good_adv rest_adv)
    ultimately show ?case using more s by (subst wpLoop.simps) simp
  qed
  from this [of "[]" xs q] q show ?thesis by simp
qed

lemma wpLoop_reads:
  assumes step: "\<And>pre q q' s'. good q \<Longrightarrow> step q (S pre) = Inr (s', q') \<Longrightarrow>
      \<exists>x. s' = S (pre @ [x]) \<and> P pre x \<and> rest q = enc x @ rest q' \<and> good q'"
    and run: "wpLoop step q (S pre) = Inr (s', q')" and q: "good q"
  shows "\<exists>xs. s' = S (pre @ xs) \<and> rest q = concat (map enc xs) \<and> good q' \<and> rest q' = [] \<and>
    (\<forall>k < length xs. P (pre @ take k xs) (xs ! k))"
  using run q
proof (induction "length (wp_b q) - wp_off q" arbitrary: q pre rule: less_induct)
  case less
  show ?case
  proof (cases "wp_off q < length (wp_b q)")
    case False
    then have "s' = S pre" "q' = q" using less.prems(1) by (simp_all add: wpLoop.simps [of step q])
    then show ?thesis using False less.prems(2) good_more [of q] by (intro exI [of _ "[]"]) auto
  next
    case True
    obtain s1 q1 where s1: "step q (S pre) = Inr (s1, q1)" and b: "wp_b q1 = wp_b q" "wp_off q < wp_off q1"
      and rest1: "wpLoop step q1 s1 = Inr (s', q')"
      using less.prems(1) True by (subst (asm) wpLoop.simps) (auto split: sum.splits prod.splits if_splits)
    from step [OF less.prems(2) s1] obtain x where x: "s1 = S (pre @ [x])" "P pre x" "rest q = enc x @ rest q1" "good q1" by blast
    have "length (wp_b q1) - wp_off q1 < length (wp_b q) - wp_off q" using b True by simp
    from less.hyps [OF this rest1 [unfolded x(1)] x(4)] obtain xs where xs: "s' = S ((pre @ [x]) @ xs)"
      "rest q1 = concat (map enc xs)" "good q'" "rest q' = []" "\<forall>k < length xs. P ((pre @ [x]) @ take k xs) (xs ! k)" by blast
    have "P (pre @ take k (x # xs)) ((x # xs) ! k)" if "k < length (x # xs)" for k
      using that x(2) xs(5) by (cases k) auto
    then show ?thesis using x(3) xs by (intro exI [of _ "x # xs"]) auto
  qed
qed

section \<open>One vector that is the whole input\<close>

lemma whole_vector16:
  "rbind (wpDone (snd (wpBytes16 (newWireParser b)))) (\<lambda>_. k (fst (wpBytes16 (newWireParser b)))) = Inr y \<longleftrightarrow>
   (\<exists>raw. length raw \<le> 65535 \<and> b = putUint16 (of_nat (length raw)) @ raw \<and> k raw = Inr y)"
proof -
  obtain raw p where r: "wpBytes16 (newWireParser b) = (raw, p)" by fastforce
  have read: "length raw \<le> 65535 \<and> b = putUint16 (of_nat (length raw)) @ raw" if d: "wpDone p = Inr ()"
  proof -
    have "wp_err p = None" using d by (simp add: wpDone_Inr)
    moreover have "wp_off (newWireParser b) \<le> length (wp_b (newWireParser b))" by (simp add: newWireParser_def)
    ultimately have "good p" "length raw \<le> 65535" "b = putUint16 (of_nat (length raw)) @ raw @ rest p"
      using wpBytes16_reads [OF r] unfolding rest_new by blast+
    moreover from this(1) d have "rest p = []" by (simp add: good_done)
    ultimately show ?thesis by simp
  qed
  have exact: "raw = v \<and> wpDone p = Inr ()" if v: "length v \<le> 65535" "b = putUint16 (of_nat (length v)) @ v" for v
  proof -
    have "wpBytes16 (newWireParser b) = (v, adv (2 + length v) (newWireParser b))"
      unfolding v(2) using v(1) wpVectors_good(2) [of "newWireParser (putUint16 (of_nat (length v)) @ v)"] by simp
    then have "raw = v" "p = adv (2 + length v) (newWireParser b)" using r by simp_all
    moreover have "wpDone (adv (2 + length v) (newWireParser b)) = Inr ()"
      unfolding v(2) by (subst good_done) (simp_all add: good_adv rest_adv)
    ultimately show ?thesis by simp
  qed
  show ?thesis unfolding r fst_conv snd_conv using read exact by (auto simp: rbind_eq_Inr)
qed

lemma whole_vector8:
  "rbind (wpDone (snd (wpBytes8 (newWireParser b)))) (\<lambda>_. k (fst (wpBytes8 (newWireParser b)))) = Inr y \<longleftrightarrow>
   (\<exists>raw. length raw \<le> 255 \<and> b = of_nat (length raw) # raw \<and> k raw = Inr y)"
proof -
  obtain raw p where r: "wpBytes8 (newWireParser b) = (raw, p)" by fastforce
  have read: "length raw \<le> 255 \<and> b = of_nat (length raw) # raw" if d: "wpDone p = Inr ()"
  proof -
    have "wp_err p = None" using d by (simp add: wpDone_Inr)
    moreover have "wp_off (newWireParser b) \<le> length (wp_b (newWireParser b))" by (simp add: newWireParser_def)
    ultimately have "good p" "length raw \<le> 255" "b = of_nat (length raw) # raw @ rest p"
      using wpBytes8_reads [OF r] unfolding rest_new by blast+
    moreover from this(1) d have "rest p = []" by (simp add: good_done)
    ultimately show ?thesis by simp
  qed
  have exact: "raw = v \<and> wpDone p = Inr ()" if v: "length v \<le> 255" "b = of_nat (length v) # v" for v
  proof -
    have "wpBytes8 (newWireParser b) = (v, adv (1 + length v) (newWireParser b))"
      unfolding v(2) using v(1) wpVectors_good(1) [of "newWireParser (of_nat (length v) # v)"] by simp
    then have "raw = v" "p = adv (1 + length v) (newWireParser b)" using r by simp_all
    moreover have "wpDone (adv (1 + length v) (newWireParser b)) = Inr ()"
      unfolding v(2) by (subst good_done) (simp_all add: good_adv rest_adv)
    ultimately show ?thesis by simp
  qed
  show ?thesis unfolding r fst_conv snd_conv using read exact by (auto simp: rbind_eq_Inr)
qed

lemma parse_vector16:
  "(let (raw, p) = wpBytes16 (newWireParser b) in rbind (wpDone p) (\<lambda>_. k raw)) = Inr y \<longleftrightarrow>
   (\<exists>raw. length raw \<le> 65535 \<and> b = putUint16 (of_nat (length raw)) @ raw \<and> k raw = Inr y)"
  unfolding Let_def case_prod_unfold by (rule whole_vector16)

lemma parse_vector8:
  "(let (raw, p) = wpBytes8 (newWireParser b) in rbind (wpDone p) (\<lambda>_. k raw)) = Inr y \<longleftrightarrow>
   (\<exists>raw. length raw \<le> 255 \<and> b = of_nat (length raw) # raw \<and> k raw = Inr y)"
  unfolding Let_def case_prod_unfold by (rule whole_vector8)

text \<open>A vector built from a loop over items.\<close>

lemma build_vector16:
  assumes "\<And>w x. wb_err w = None \<Longrightarrow> x \<in> set xs \<Longrightarrow> f x w = wbAppend w (g x)"
    and "length (concat (map g xs)) \<le> 65535" and "wb_err w = None"
  shows "(let (start, out) = startVector16 w; out = fold f xs out in endVector16 out start) =
     wbAppend w (putUint16 (of_nat (length (concat (map g xs)))) @ concat (map g xs))"
  using assms wb_fold [of xs f g "wbAppend w [0, 0]"] by (simp add: wb_start wbAppend_append wb_vector16 del: append_Cons)

text \<open>The same for a parser in good state, which every new parser is.\<close>

lemma good_bound: "good p \<Longrightarrow> wp_off p \<le> length (wp_b p)"
  by (simp add: good_def)

lemma wp_read:
  "good p \<Longrightarrow> wpU8 p = (v, p') \<Longrightarrow> wp_err p' = None \<Longrightarrow> good p' \<and> v < 256 \<and> rest p = of_nat v # rest p'"
  "good p \<Longrightarrow> wpU16 p = (v, p') \<Longrightarrow> wp_err p' = None \<Longrightarrow> good p' \<and> v < 65536 \<and> rest p = putUint16 (of_nat v) @ rest p'"
  "good p \<Longrightarrow> wpU32 p = (x, p') \<Longrightarrow> wp_err p' = None \<Longrightarrow> good p' \<and> rest p = putUint32 x @ rest p'"
  "good p \<Longrightarrow> wpBytes8 p = (b, p') \<Longrightarrow> wp_err p' = None \<Longrightarrow>
     good p' \<and> length b \<le> 255 \<and> rest p = of_nat (length b) # b @ rest p'"
  "good p \<Longrightarrow> wpBytes16 p = (b, p') \<Longrightarrow> wp_err p' = None \<Longrightarrow>
     good p' \<and> length b \<le> 65535 \<and> rest p = putUint16 (of_nat (length b)) @ b @ rest p'"
  "good p \<Longrightarrow> wpBytes24 p = (b, p') \<Longrightarrow> wp_err p' = None \<Longrightarrow>
     good p' \<and> length b < 2 ^ 24 \<and> rest p = putUint24 (of_nat (length b)) @ b @ rest p'"
  "good p \<Longrightarrow> wpTake p n = (b, p') \<Longrightarrow> wp_err p' = None \<Longrightarrow> good p' \<and> rest p = b @ rest p' \<and> int (length b) = n"
  using wp_reads wpTake_reads good_bound by meson+

lemma wp_err_earlier:
  "wpTake p n = (b, p') \<Longrightarrow> wp_err p' = None \<Longrightarrow> wp_err p = None"
  "wpU8 p = (v, p') \<Longrightarrow> wp_err p' = None \<Longrightarrow> wp_err p = None"
  "wpU16 p = (v, p') \<Longrightarrow> wp_err p' = None \<Longrightarrow> wp_err p = None"
  "wpU24 p = (v, p') \<Longrightarrow> wp_err p' = None \<Longrightarrow> wp_err p = None"
  "wpU32 p = (x, p') \<Longrightarrow> wp_err p' = None \<Longrightarrow> wp_err p = None"
  "wpBytes8 p = (b, p') \<Longrightarrow> wp_err p' = None \<Longrightarrow> wp_err p = None"
  "wpBytes16 p = (b, p') \<Longrightarrow> wp_err p' = None \<Longrightarrow> wp_err p = None"
  "wpBytes24 p = (b, p') \<Longrightarrow> wp_err p' = None \<Longrightarrow> wp_err p = None"
  using wp_sticky [of p] by (cases "wp_err p"; auto)+

lemma done_err: "wpDone p = Inr () \<Longrightarrow> wp_err p = None"
  by (simp add: wpDone_Inr)

text \<open>
  A loop that collects self-delimiting items, each checked against the ones before it: it
  accepts exactly the concatenations of encoded items that pass the check.
\<close>

lemma wpLoop_items:
  assumes sound: "\<And>pre q q' s'. good q \<Longrightarrow> step q pre = Inr (s', q') \<Longrightarrow>
      \<exists>x. s' = pre @ [x] \<and> P pre x \<and> rest q = enc x @ rest q' \<and> good q'"
    and complete: "\<And>pre x q r. P pre x \<Longrightarrow> good q \<Longrightarrow> rest q = enc x @ r \<Longrightarrow>
      step q pre = Inr (pre @ [x], adv (length (enc x)) q)"
    and nonempty: "\<And>x. enc x \<noteq> []"
  shows "rbind (wpLoop step (newWireParser raw) []) (\<lambda>(out, q). k out q) = Inr y \<longleftrightarrow>
    (\<exists>xs q. raw = concat (map enc xs) \<and> (\<forall>i < length xs. P (take i xs) (xs ! i)) \<and>
       wpLoop step (newWireParser raw) [] = Inr (xs, q) \<and> wpDone q = Inr () \<and> k xs q = Inr y)"
    and "raw = concat (map enc xs) \<Longrightarrow> \<forall>i < length xs. P (take i xs) (xs ! i) \<Longrightarrow>
      \<exists>q. wpLoop step (newWireParser raw) [] = Inr (xs, q) \<and> wpDone q = Inr ()"
proof -
  have reads: "raw = concat (map enc xs) \<and> (\<forall>i < length xs. P (take i xs) (xs ! i)) \<and> wpDone q = Inr ()"
    if run: "wpLoop step (newWireParser raw) [] = Inr (xs, q)" for xs q
  proof -
    from wpLoop_reads [of step "\<lambda>xs. xs" P enc "newWireParser raw" "[]", OF sound run good_new] obtain ys where
      ys: "xs = ys" "raw = concat (map enc ys)" "good q" "rest q = []" "\<forall>k < length ys. P (take k ys) (ys ! k)" by auto
    then show ?thesis using good_done [of q] by simp
  qed
  show "rbind (wpLoop step (newWireParser raw) []) (\<lambda>(out, q). k out q) = Inr y \<longleftrightarrow>
    (\<exists>xs q. raw = concat (map enc xs) \<and> (\<forall>i < length xs. P (take i xs) (xs ! i)) \<and>
       wpLoop step (newWireParser raw) [] = Inr (xs, q) \<and> wpDone q = Inr () \<and> k xs q = Inr y)"
    using reads by (auto simp: rbind_eq_Inr)
  assume raw: "raw = concat (map enc xs)" and P: "\<forall>i < length xs. P (take i xs) (xs ! i)"
  have "wpLoop step (newWireParser raw) [] = Inr (xs, adv (length (concat (map enc xs))) (newWireParser raw))"
  proof (rule wpLoop_run [of xs enc step "\<lambda>xs. xs"])
    fix pre x post q r
    assume x: "xs = pre @ x # post" "good q" "rest q = enc x @ r"
    have "P pre x" using P [rule_format, of "length pre"] x(1) by simp
    from complete [OF this x(2,3)] show "step q pre = Inr (pre @ [x], adv (length (enc x)) q)" .
  qed (use raw nonempty in simp_all)
  then show "\<exists>q. wpLoop step (newWireParser raw) [] = Inr (xs, q) \<and> wpDone q = Inr ()" using reads by blast
qed

lemma wpLoop_items_iff:
  assumes sound: "\<And>pre q q' s'. good q \<Longrightarrow> step q pre = Inr (s', q') \<Longrightarrow>
      \<exists>x. s' = pre @ [x] \<and> P pre x \<and> rest q = enc x @ rest q' \<and> good q'"
    and complete: "\<And>pre x q r. P pre x \<Longrightarrow> good q \<Longrightarrow> rest q = enc x @ r \<Longrightarrow>
      step q pre = Inr (pre @ [x], adv (length (enc x)) q)"
    and nonempty: "\<And>x. enc x \<noteq> []"
    and k: "\<And>xs q. wpDone q = Inr () \<Longrightarrow> k xs q = f xs"
  shows "rbind (wpLoop step (newWireParser raw) []) (\<lambda>(out, q). k out q) = Inr y \<longleftrightarrow>
    (\<exists>xs. raw = concat (map enc xs) \<and> (\<forall>i < length xs. P (take i xs) (xs ! i)) \<and> f xs = Inr y)"
proof -
  have one: "rbind (wpLoop step (newWireParser raw) []) (\<lambda>(out, q). k out q) = Inr y \<longleftrightarrow>
    (\<exists>xs q. raw = concat (map enc xs) \<and> (\<forall>i < length xs. P (take i xs) (xs ! i)) \<and>
       wpLoop step (newWireParser raw) [] = Inr (xs, q) \<and> wpDone q = Inr () \<and> k xs q = Inr y)"
    by (rule wpLoop_items(1) [OF sound complete nonempty]) assumption+
  have two: "\<exists>q. wpLoop step (newWireParser raw) [] = Inr (xs, q) \<and> wpDone q = Inr ()"
    if "raw = concat (map enc xs)" "\<forall>i < length xs. P (take i xs) (xs ! i)" for xs
    by (rule wpLoop_items(2) [OF sound complete nonempty that]) assumption+
  show ?thesis unfolding one
  proof
    assume "\<exists>xs q. raw = concat (map enc xs) \<and> (\<forall>i < length xs. P (take i xs) (xs ! i)) \<and>
       wpLoop step (newWireParser raw) [] = Inr (xs, q) \<and> wpDone q = Inr () \<and> k xs q = Inr y"
    then show "\<exists>xs. raw = concat (map enc xs) \<and> (\<forall>i < length xs. P (take i xs) (xs ! i)) \<and> f xs = Inr y" using k by auto
  next
    assume "\<exists>xs. raw = concat (map enc xs) \<and> (\<forall>i < length xs. P (take i xs) (xs ! i)) \<and> f xs = Inr y"
    then obtain xs where xs: "raw = concat (map enc xs)" "\<forall>i < length xs. P (take i xs) (xs ! i)" "f xs = Inr y" by blast
    from two [OF xs(1,2)] obtain q where "wpLoop step (newWireParser raw) [] = Inr (xs, q)" "wpDone q = Inr ()" by blast
    then show "\<exists>xs q. raw = concat (map enc xs) \<and> (\<forall>i < length xs. P (take i xs) (xs ! i)) \<and>
       wpLoop step (newWireParser raw) [] = Inr (xs, q) \<and> wpDone q = Inr () \<and> k xs q = Inr y" using xs k by metis
  qed
qed

end
