(* ===== verification/Hello_Extensions.thy ===== *)
theory Hello_Extensions
  imports Wire Plain_Record Codec_Interfaces "HOL-Library.AList"
begin

text \<open>
  The extension codecs of \<^verbatim>\<open>src/hello.go\<close>, and the ones of other files that the ClientHello
  parser calls: \<^verbatim>\<open>src/cached_information.go\<close>, \<^verbatim>\<open>src/certificate_compression.go\<close>,
  \<^verbatim>\<open>src/certificate_selection.go\<close>, \<^verbatim>\<open>src/raw_public_key.go\<close>, \<^verbatim>\<open>src/handshake_metadata.go\<close>,
  \<^verbatim>\<open>src/ech.go\<close>. Strings are byte sequences. Whether views alias their input and how many bytes
  are allocated in advance is not represented.
\<close>

abbreviation VersionDTLS13 :: u16 where "VersionDTLS13 \<equiv> 0xfefc"
abbreviation extServerName :: u16 where "extServerName \<equiv> 0"
abbreviation extStatusRequest :: u16 where "extStatusRequest \<equiv> 5"
abbreviation extSupportedGroups :: u16 where "extSupportedGroups \<equiv> 10"
abbreviation extSignatureAlgorithms :: u16 where "extSignatureAlgorithms \<equiv> 13"
abbreviation extALPN :: u16 where "extALPN \<equiv> 16"
abbreviation extClientCertificateType :: u16 where "extClientCertificateType \<equiv> 19"
abbreviation extServerCertificateType :: u16 where "extServerCertificateType \<equiv> 20"
abbreviation extPadding :: u16 where "extPadding \<equiv> 21"
abbreviation extCachedInfo :: u16 where "extCachedInfo \<equiv> 25"
abbreviation extCompressCertificate :: u16 where "extCompressCertificate \<equiv> 27"
abbreviation extRecordSizeLimit :: u16 where "extRecordSizeLimit \<equiv> 28"
abbreviation extDelegatedCredential :: u16 where "extDelegatedCredential \<equiv> 34"
abbreviation extPreSharedKey :: u16 where "extPreSharedKey \<equiv> 41"
abbreviation extEarlyData :: u16 where "extEarlyData \<equiv> 42"
abbreviation extSupportedVersions :: u16 where "extSupportedVersions \<equiv> 43"
abbreviation extCookie :: u16 where "extCookie \<equiv> 44"
abbreviation extPSKKeyExchangeModes :: u16 where "extPSKKeyExchangeModes \<equiv> 45"
abbreviation extCertificateAuthorities :: u16 where "extCertificateAuthorities \<equiv> 47"
abbreviation extOIDFilters :: u16 where "extOIDFilters \<equiv> 48"
abbreviation extPostHandshakeAuth :: u16 where "extPostHandshakeAuth \<equiv> 49"
abbreviation extSignatureAlgorithmsCert :: u16 where "extSignatureAlgorithmsCert \<equiv> 50"
abbreviation extKeyShare :: u16 where "extKeyShare \<equiv> 51"
abbreviation extConnectionID :: u16 where "extConnectionID \<equiv> 54"
abbreviation extTicketRequest :: u16 where "extTicketRequest \<equiv> 58"
abbreviation extReturnRoutability :: u16 where "extReturnRoutability \<equiv> 61"
abbreviation extECHOuterExtensions :: u16 where "extECHOuterExtensions \<equiv> 0xfd00"
abbreviation extECH :: u16 where "extECH \<equiv> 0xfe0d"
abbreviation extHandshakeMetadata :: u16 where "extHandshakeMetadata \<equiv> 0xff02"
abbreviation statusTypeOCSP :: u8 where "statusTypeOCSP \<equiv> 1"

definition decodeError :: "string \<Rightarrow> go_error" where
  "decodeError text = alertError alertDecodeError (ProtocolError text)"

definition knownExtensionType :: "u16 \<Rightarrow> bool" where
  "knownExtensionType t \<longleftrightarrow>
     t \<in> set [extServerName, extSupportedGroups, extSupportedVersions, extKeyShare,
       extSignatureAlgorithms, extALPN, extPadding, extCompressCertificate, extRecordSizeLimit, extPreSharedKey, extEarlyData,
       extCookie, extPSKKeyExchangeModes, extPostHandshakeAuth,
       extCertificateAuthorities, extOIDFilters, extSignatureAlgorithmsCert, extConnectionID, extTicketRequest,
       extReturnRoutability, extStatusRequest,
       extECH, extECHOuterExtensions, extClientCertificateType, extServerCertificateType, extCachedInfo,
       extDelegatedCredential, extHandshakeMetadata]"

definition greaseValue :: "u8 \<Rightarrow> u16" where
  "greaseValue seed = 0x0a0a + ucast (seed AND 0x0f) * 0x1010"

section \<open>Status requests and OCSP responses\<close>

definition marshalStatusRequest :: bytes where
  "marshalStatusRequest = [statusTypeOCSP, 0, 0, 0, 0]"

definition parseStatusRequest :: "bytes \<Rightarrow> bool result" where
  "parseStatusRequest raw =
     (let (statusType, p) = wpU8 (newWireParser raw);
          (_, p) = wpBytes16 p;
          (_, p) = wpBytes16 p
      in rbind (wpDone p) (\<lambda>_. Inr (statusType = unat statusTypeOCSP)))"

definition marshalOCSPResponse :: "bytes \<Rightarrow> bytes result" where
  "marshalOCSPResponse response =
     (if length response = 0 then Inl (ProtocolError ''empty OCSP response'')
      else wbResult (wbBytes24 (wbU8 newWireBuilder (uint statusTypeOCSP)) response))"

definition parseOCSPResponse :: "bytes \<Rightarrow> bytes result" where
  "parseOCSPResponse raw =
     (let (statusType, p) = wpU8 (newWireParser raw) in
      if statusType \<noteq> unat statusTypeOCSP then Inl (decodeError ''unsupported OCSP response status type'')
      else
        let (response, p) = wpBytes24 p in
        rbind (wpDone p) (\<lambda>_.
          if length response = 0 then Inl (decodeError ''empty OCSP response'') else Inr response))"

section \<open>Lists of 16-bit values\<close>

text \<open>The loop over a slice of even length that reads one value after the other.\<close>

fun u16List :: "bytes \<Rightarrow> u16 list" where
  "u16List (a # b # raw) = getUint16 [a, b] # u16List raw"
| "u16List _ = []"

definition wbU16List :: "u16 list \<Rightarrow> wireBuilder \<Rightarrow> wireBuilder" where
  "wbU16List vs w = fold (\<lambda>v w. wbU16 w (uint v)) vs w"

definition defaultSignatureSchemes :: "u16 list" where
  "defaultSignatureSchemes =
     [0x0807, 0x0403, 0x0804, 0x0503, 0x0805, 0x0603, 0x0806, 0x0401, 0x0501, 0x0601]"

definition marshalSignatureSchemes :: "u16 list \<Rightarrow> bytes result" where
  "marshalSignatureSchemes schemes0 =
     (let schemes = (if length schemes0 = 0 then defaultSignatureSchemes else schemes0) in
      if 65535 div 2 < length schemes then Inl (ProtocolError ''16-bit vector overflow'')
      else
        let (start, out) = startVector16 newWireBuilder;
            out = wbU16List schemes out
        in wbResult (endVector16 out start))"

definition parseSignatureSchemes :: "bytes \<Rightarrow> u16 list result" where
  "parseSignatureSchemes b =
     (let (raw, p) = wpBytes16 (newWireParser b) in
      rbind (wpDone p) (\<lambda>_.
        if length raw < 2 \<or> length raw mod 2 \<noteq> 0
          then Inl (decodeError ''invalid signature_algorithms extension length'')
        else Inr (u16List raw)))"

definition parseClientSupportedVersions :: "bytes \<Rightarrow> bool result" where
  "parseClientSupportedVersions b =
     (if length b < 3 \<or> unat (b ! 0) \<noteq> length b - 1 \<or> (length b - 1) mod 2 \<noteq> 0
        then Inl (decodeError ''invalid supported_versions extension length'')
      else Inr (VersionDTLS13 \<in> set (u16List (drop 1 b))))"

definition offeredDTLS13 :: "bytes \<Rightarrow> bool" where
  "offeredDTLS13 b = (case parseClientSupportedVersions b of Inl _ \<Rightarrow> False | Inr offered \<Rightarrow> offered)"

record keyShareEntry =
  ks_group :: u16
  ks_data :: bytes

definition marshalSupportedGroups :: "u16 list \<Rightarrow> keyShareEntry list \<Rightarrow> bytes result" where
  "marshalSupportedGroups groups0 shares =
     (let groups = (if length groups0 = 0 then groups0 @ map ks_group shares else groups0) in
      if length groups = 0 then Inl (ProtocolError ''empty supported_groups'')
      else if 65535 div 2 < length groups then Inl (ProtocolError ''16-bit vector overflow'')
      else
        let (start, out) = startVector16 newWireBuilder;
            out = wbU16List groups out
        in wbResult (endVector16 out start))"

definition parseSupportedGroups :: "bytes \<Rightarrow> u16 list result" where
  "parseSupportedGroups b =
     (let (raw, p) = wpBytes16 (newWireParser b) in
      rbind (wpDone p) (\<lambda>_.
        if length raw < 2 \<or> length raw mod 2 \<noteq> 0
          then Inl (decodeError ''invalid supported_groups extension length'')
        else Inr (u16List raw)))"

section \<open>Server name, protocols, cookie, connection ID\<close>

definition marshalServerName :: "bytes \<Rightarrow> bytes result" where
  "marshalServerName name =
     (if name = [] then Inr []
      else if 65535 - 3 < length name then Inl (ProtocolError ''16-bit vector overflow'')
      else
        let (start, out) = startVector16 newWireBuilder;
            out = wbU8 out 0;
            out = wbString16 out name
        in wbResult (endVector16 out start))"

definition parseServerName :: "bytes \<Rightarrow> bytes result" where
  "parseServerName b =
     (let (raw, p) = wpBytes16 (newWireParser b) in
      rbind (wpDone p) (\<lambda>_.
        let (nameType, q) = wpU8 (newWireParser raw) in
        if nameType \<noteq> 0 then Inl (ProtocolError ''unsupported server name type'')
        else
          let (name, q) = wpBytes16 q in
          rbind (wpDone q) (\<lambda>_.
            if length name = 0 then Inl (decodeError ''empty server name'') else Inr name)))"

fun alpnLength :: "nat \<Rightarrow> bytes list \<Rightarrow> nat result" where
  "alpnLength n [] = Inr n"
| "alpnLength n (protocol # protocols) =
     (if protocol = [] then Inl (ProtocolError ''empty ALPN protocol'')
      else if 255 < length protocol then Inl (ProtocolError ''8-bit vector overflow'')
      else alpnLength (n + 1 + length protocol) protocols)"

definition marshalALPN :: "bytes list \<Rightarrow> bytes result" where
  "marshalALPN protocols =
     (if length protocols = 0 then Inr []
      else
        rbind (alpnLength 0 protocols) (\<lambda>n.
          if 65535 < n then Inl (ProtocolError ''16-bit vector overflow'')
          else
            let (start, out) = startVector16 newWireBuilder;
                out = fold (\<lambda>protocol w. wbString8 w protocol) protocols out
            in wbResult (endVector16 out start)))"

definition alpnStep :: "wireParser \<Rightarrow> bytes list \<Rightarrow> (bytes list \<times> wireParser) result" where
  "alpnStep q out =
     (let (v, q) = wpBytes8 q in
      case wp_err q of
        Some err \<Rightarrow> Inl err
      | None \<Rightarrow> if length v = 0 then Inl (decodeError ''empty ALPN protocol'') else Inr (out @ [v], q))"

definition parseALPN :: "bytes \<Rightarrow> bytes list result" where
  "parseALPN b =
     (let (raw, p) = wpBytes16 (newWireParser b) in
      rbind (wpDone p) (\<lambda>_.
        if length raw = 0 then Inl (decodeError ''empty ALPN protocol list'')
        else rbind (wpLoop alpnStep (newWireParser raw) []) (\<lambda>(out, q). Inr out)))"

definition marshalCookie :: "bytes \<Rightarrow> bytes result" where
  "marshalCookie cookie =
     (if length cookie = 0 then Inl (ProtocolError ''empty cookie extension'')
      else if 65535 < length cookie then Inl (ProtocolError ''16-bit vector overflow'')
      else wbResult (wbBytes16 newWireBuilder cookie))"

definition parseCookie :: "bytes \<Rightarrow> bytes result" where
  "parseCookie b =
     (let (cookie, p) = wpBytes16 (newWireParser b) in
      rbind (wpDone p) (\<lambda>_. if length cookie = 0 then Inl (decodeError ''empty cookie extension'') else Inr cookie))"

definition marshalConnectionID :: "bytes \<Rightarrow> bytes result" where
  "marshalConnectionID connectionID =
     (if 255 < length connectionID then Inl (ProtocolError ''8-bit vector overflow'')
      else wbResult (wbBytes8 newWireBuilder connectionID))"

definition parseConnectionID :: "bytes \<Rightarrow> bytes result" where
  "parseConnectionID b =
     (let (connectionID, p) = wpBytes8 (newWireParser b) in rbind (wpDone p) (\<lambda>_. Inr connectionID))"

section \<open>Pre-shared keys\<close>

definition marshalPSKKeyExchangeModes :: bytes where
  "marshalPSKKeyExchangeModes = [1, 1]"

definition parsePSKKeyExchangeModes :: "bytes \<Rightarrow> bool result" where
  "parsePSKKeyExchangeModes b =
     (if length b < 2 \<or> unat (b ! 0) \<noteq> length b - 1
        then Inl (decodeError ''invalid psk_key_exchange_modes extension length'')
      else if 1 \<in> set (drop 1 b) then Inr True
      else Inr False)"

record pskIdentityEntry =
  psk_identity :: bytes
  psk_obfuscatedAge :: u32

fun identitiesLength :: "nat \<Rightarrow> pskIdentityEntry list \<Rightarrow> nat result" where
  "identitiesLength n [] = Inr n"
| "identitiesLength n (i # is) =
     (if 65535 < length (psk_identity i) \<or> 65535 - 6 - int (length (psk_identity i)) < int n
        then Inl (ProtocolError ''16-bit vector overflow'')
      else identitiesLength (n + 6 + length (psk_identity i)) is)"

fun bindersLength :: "nat \<Rightarrow> bytes list \<Rightarrow> nat result" where
  "bindersLength n [] = Inr n"
| "bindersLength n (b # bs) =
     (if 255 < length b then Inl (ProtocolError ''8-bit vector overflow'')
      else if 65535 - 1 - int (length b) < int n then Inl (ProtocolError ''16-bit vector overflow'')
      else bindersLength (n + 1 + length b) bs)"

definition marshalClientPSKs :: "pskIdentityEntry list \<Rightarrow> bytes list \<Rightarrow> bytes result" where
  "marshalClientPSKs identityList binderList =
     (if length identityList = 0 \<or> length identityList \<noteq> length binderList
        then Inl (ProtocolError ''invalid pre_shared_key offer'')
      else if list_ex (\<lambda>(i, b). length (psk_identity i) = 0 \<or> length b < 32) (zip identityList binderList)
        then Inl (ProtocolError ''invalid pre_shared_key offer'')
      else
        rbind (identitiesLength 0 identityList) (\<lambda>_.
        rbind (bindersLength 0 binderList) (\<lambda>_.
          let (identitiesStart, out) = startVector16 newWireBuilder;
              out = fold (\<lambda>i w. wbU32 (wbBytes16 w (psk_identity i)) (psk_obfuscatedAge i)) identityList out;
              out = endVector16 out identitiesStart;
              (bindersStart, out) = startVector16 out;
              out = fold (\<lambda>b w. wbBytes8 w b) binderList out
          in wbResult (endVector16 out bindersStart))))"

definition marshalClientPSK :: "bytes \<Rightarrow> u32 \<Rightarrow> bytes \<Rightarrow> bytes result" where
  "marshalClientPSK identity obfuscatedAge binder =
     marshalClientPSKs [\<lparr>psk_identity = identity, psk_obfuscatedAge = obfuscatedAge\<rparr>] [binder]"

definition identityStep :: "wireParser \<Rightarrow> pskIdentityEntry list \<Rightarrow> (pskIdentityEntry list \<times> wireParser) result" where
  "identityStep q out =
     (let (identity, q) = wpBytes16 q;
          (age, q) = wpU32 q
      in if wp_err q \<noteq> None \<or> length identity = 0 then Inl (decodeError ''invalid pre_shared_key identity'')
         else Inr (out @ [\<lparr>psk_identity = identity, psk_obfuscatedAge = age\<rparr>], q))"

definition binderStep :: "wireParser \<Rightarrow> bytes list \<Rightarrow> (bytes list \<times> wireParser) result" where
  "binderStep q out =
     (let (binder, q) = wpBytes8 q
      in if wp_err q \<noteq> None \<or> length binder < 32 then Inl (decodeError ''invalid pre_shared_key binder length'')
         else Inr (out @ [binder], q))"

definition parseClientPSKs :: "bytes \<Rightarrow> (pskIdentityEntry list \<times> bytes list) result" where
  "parseClientPSKs b =
     (let (identities, p) = wpBytes16 (newWireParser b);
          (binders, p) = wpBytes16 p
      in rbind (wpDone p) (\<lambda>_.
         rbind (wpLoop identityStep (newWireParser identities) []) (\<lambda>(identityList, _).
         rbind (wpLoop binderStep (newWireParser binders) []) (\<lambda>(binderList, _).
           if length identityList = 0 \<or> length identityList \<noteq> length binderList
             then Inl (ProtocolError ''pre_shared_key identity and binder counts differ'')
           else Inr (identityList, binderList)))))"

section \<open>Key shares\<close>

fun keySharesLength :: "nat \<Rightarrow> keyShareEntry list \<Rightarrow> nat result" where
  "keySharesLength n [] = Inr n"
| "keySharesLength n (s # ss) =
     (if 65535 < length (ks_data s) then Inl (ProtocolError ''16-bit vector overflow'')
      else keySharesLength (n + 4 + length (ks_data s)) ss)"

definition marshalKeyShares :: "keyShareEntry list \<Rightarrow> bool \<Rightarrow> bytes result" where
  "marshalKeyShares shares vector =
     rbind (keySharesLength 0 shares) (\<lambda>n.
       if vector \<and> 65535 < n then Inl (ProtocolError ''16-bit vector overflow'')
       else
         let appendEntries = fold (\<lambda>s w. wbBytes16 (wbU16 w (uint (ks_group s))) (ks_data s)) shares
         in if vector
            then (let (start, out) = startVector16 newWireBuilder;
                      out = appendEntries out
                  in wbResult (endVector16 out start))
            else wbResult (appendEntries newWireBuilder))"

text \<open>
  Duplicate groups are detected with an array of eight entries first and with a map after
  that. The state of the loop is the array, the map once it exists, and the number of shares.
\<close>

definition keyShareStep ::
  "wireParser \<Rightarrow> u16 list \<times> u16 list option \<times> nat \<Rightarrow> ((u16 list \<times> u16 list option \<times> nat) \<times> wireParser) result" where
  "keyShareStep q = (\<lambda>(groups, seen, count).
     let (g, q) = wpU16 q;
         group = of_nat g;
         (data, q) = wpBytes16 q
     in case wp_err q of
          Some err \<Rightarrow> Inl err
        | None \<Rightarrow>
            if length data = 0 then Inl (decodeError ''empty key share'')
            else
              (case seen of
                 None \<Rightarrow>
                   if group \<in> set groups
                     then Inl (alertError alertIllegalParameter (ProtocolError ''duplicate key_share group''))
                   else if length groups < 8 then Inr ((groups @ [group], None, count + 1), q)
                   else Inr ((groups, Some (group # groups), count + 1), q)
               | Some m \<Rightarrow>
                   if group \<in> set m
                     then Inl (alertError alertIllegalParameter (ProtocolError ''duplicate key_share group''))
                   else Inr ((groups, Some (group # m), count + 1), q)))"

fun keyShareEntries :: "nat \<Rightarrow> wireParser \<Rightarrow> keyShareEntry list" where
  "keyShareEntries 0 q = []"
| "keyShareEntries (Suc n) q =
     (let (g, q) = wpU16 q;
          (data, q) = wpBytes16 q
      in \<lparr>ks_group = of_nat g, ks_data = data\<rparr> # keyShareEntries n q)"

definition parseKeySharesMode :: "bytes \<Rightarrow> bool \<Rightarrow> keyShareEntry list result" where
  "parseKeySharesMode b vector =
     rbind (if vector
            then (let (raw, p) = wpBytes16 (newWireParser b) in rbind (wpDone p) (\<lambda>_. Inr raw))
            else Inr b) (\<lambda>entries.
     rbind (wpLoop keyShareStep (newWireParser entries) ([], None, 0)) (\<lambda>((groups, seen, count), _).
       if count = 0 then (if vector then Inr [] else Inl (decodeError ''empty key share list''))
       else Inr (keyShareEntries count (newWireParser entries))))"

section \<open>Extension lists\<close>

record orderedExtension =
  oe_typ :: u16
  oe_value :: bytes

type_synonym extensionMap = "(u16 \<times> bytes) list"

fun extensionsLengthFrom :: "nat \<Rightarrow> bytes list \<Rightarrow> nat result" where
  "extensionsLengthFrom n [] = Inr (2 + n)"
| "extensionsLengthFrom n (v # vs) =
     (if 65535 < length v \<or> 65535 - 4 - int (length v) < int n then Inl (ProtocolError ''16-bit vector overflow'')
      else extensionsLengthFrom (n + 4 + length v) vs)"

definition extensionsWireLength :: "extensionMap \<Rightarrow> u16 list \<Rightarrow> nat result" where
  "extensionsWireLength items order = extensionsLengthFrom 0 (List.map_filter (map_of items) order)"

definition allExtensionsWireLength :: "extensionMap \<Rightarrow> nat result" where
  "allExtensionsWireLength items = extensionsLengthFrom 0 (map snd items)"

definition orderedExtensionsWireLength :: "orderedExtension list \<Rightarrow> nat result" where
  "orderedExtensionsWireLength items = extensionsLengthFrom 0 (map oe_value items)"

definition appendExtensions :: "wireBuilder \<Rightarrow> extensionMap \<Rightarrow> u16 list \<Rightarrow> wireBuilder" where
  "appendExtensions w items order =
     (let (start, w) = startVector16 w;
          w = fold (\<lambda>t w. case map_of items t of
                            None \<Rightarrow> w
                          | Some v \<Rightarrow> wbBytes16 (wbU16 w (uint t)) v) order w
      in endVector16 w start)"

definition appendOrderedExtensions :: "wireBuilder \<Rightarrow> orderedExtension list \<Rightarrow> wireBuilder" where
  "appendOrderedExtensions w items =
     (let (start, w) = startVector16 w;
          w = fold (\<lambda>item w. wbBytes16 (wbU16 w (uint (oe_typ item))) (oe_value item)) items w
      in endVector16 w start)"

definition orderedStep :: "wireParser \<Rightarrow> orderedExtension list \<Rightarrow> (orderedExtension list \<times> wireParser) result" where
  "orderedStep q items =
     (let (t, q) = wpU16 q;
          (value, q) = wpBytes16 q
      in case wp_err q of
           Some err \<Rightarrow> Inl err
         | None \<Rightarrow>
             if list_ex (\<lambda>item. oe_typ item = of_nat t) items
               then Inl (alertError alertIllegalParameter (ProtocolError ''duplicate extension''))
             else Inr (items @ [\<lparr>oe_typ = of_nat t, oe_value = value\<rparr>], q))"

definition parseOrderedExtensionsView :: "bytes \<Rightarrow> orderedExtension list result" where
  "parseOrderedExtensionsView b =
     (let (raw, p) = wpBytes16 (newWireParser b) in
      rbind (wpDone p) (\<lambda>_.
      rbind (wpLoop orderedStep (newWireParser raw) []) (\<lambda>(items, q).
      rbind (wpDone q) (\<lambda>_. Inr items))))"

definition orderedExtensionValue :: "orderedExtension list \<Rightarrow> u16 \<Rightarrow> bytes option" where
  "orderedExtensionValue items t = map_option oe_value (find (\<lambda>item. oe_typ item = t) items)"

definition marshalExtensions :: "extensionMap \<Rightarrow> u16 list \<Rightarrow> bytes result" where
  "marshalExtensions items order =
     rbind (extensionsWireLength items order) (\<lambda>_. wbResult (appendExtensions newWireBuilder items order))"

definition parseExtensionsMode :: "bytes \<Rightarrow> extensionMap result" where
  "parseExtensionsMode b =
     rbind (parseOrderedExtensionsView b) (\<lambda>items.
       Inr (fold (\<lambda>item out. AList.update (oe_typ item) (oe_value item) out) items []))"

section \<open>Codecs of other files\<close>

definition parseRecordSizeLimit :: "bytes \<Rightarrow> bool \<Rightarrow> u16 result" where
  "parseRecordSizeLimit raw rejectAboveMaximum =
     (if length raw \<noteq> 2 then Inl (decodeError ''invalid record_size_limit extension length'')
      else
        let limit = getUint16 raw in
        if limit < minRecordSizeLimit \<or> rejectAboveMaximum \<and> defaultRecordSizeLimit < limit
          then Inl (alertError alertIllegalParameter (ProtocolError ''invalid record_size_limit value''))
        else Inr limit)"

definition parseCertificateTypes :: "bytes \<Rightarrow> bytes result" where
  "parseCertificateTypes raw =
     (if length raw < 2 \<or> unat (raw ! 0) \<noteq> length raw - 1 then Inl (decodeError ''invalid certificate type list'')
      else Inr (drop 1 raw))"

abbreviation cachedCert :: u8 where "cachedCert \<equiv> 1"
abbreviation cachedCertRequest :: u8 where "cachedCertRequest \<equiv> 2"

definition cachedStep :: "wireParser \<Rightarrow> (u8 \<times> bytes) list \<Rightarrow> ((u8 \<times> bytes) list \<times> wireParser) result" where
  "cachedStep q offers =
     (let (t, q) = wpU8 q;
          typ = of_nat t;
          (hash, q) = wpBytes8 q
      in if length hash = 0 \<or> (typ = cachedCert \<or> typ = cachedCertRequest) \<and> length hash \<noteq> 32
           then Inl (decodeError ''invalid cached_info fingerprint length'')
         else Inr (if typ = cachedCert \<or> typ = cachedCertRequest then offers @ [(typ, hash)] else offers, q))"

definition parseCachedInformationOffer :: "bytes \<Rightarrow> (u8 \<times> bytes) list result" where
  "parseCachedInformationOffer raw =
     (let (objects, p) = wpBytes16 (newWireParser raw) in
      rbind (wpDone p) (\<lambda>_.
        if length objects = 0 then Inl (decodeError ''empty cached_info offer'')
        else rbind (wpLoop cachedStep (newWireParser objects) []) (\<lambda>(offers, q).
               rbind (wpDone q) (\<lambda>_. Inr offers))))"

definition certificateCompressionZlibOffer :: bytes where
  "certificateCompressionZlibOffer = [2, 0, 1]"

definition marshalCertificateCompressionAlgorithms :: "bytes option \<Rightarrow> bytes result" where
  "marshalCertificateCompressionAlgorithms algorithms =
     (case algorithms of
        None \<Rightarrow> Inl (ProtocolError ''invalid certificate compression algorithm list'')
      | Some raw \<Rightarrow>
          if length raw < 3 \<or> 255 < length raw \<or> unat (raw ! 0) \<noteq> length raw - 1 \<or> raw ! 0 mod 2 \<noteq> 0
            then Inl (ProtocolError ''invalid certificate compression algorithm list'')
          else Inr raw)"

definition parseCertificateCompressionAlgorithms :: "bytes \<Rightarrow> bytes result" where
  "parseCertificateCompressionAlgorithms raw =
     (if length raw < 3 \<or> unat (raw ! 0) \<noteq> length raw - 1 \<or> raw ! 0 mod 2 \<noteq> 0
        then Inl (decodeError ''invalid compress_certificate extension'')
      else if length raw = 3 \<and> raw ! 0 = 2 \<and> raw ! 1 = 0 \<and> raw ! 2 = 1 then Inr certificateCompressionZlibOffer
      else Inr raw)"

text \<open>\<open>validName\<close> says whether the ASN.1 decoder reads the bytes, all of them, as an RDNSequence.\<close>

definition validateDistinguishedName :: "(bytes \<Rightarrow> bool) \<Rightarrow> bytes \<Rightarrow> unit result" where
  "validateDistinguishedName validName data =
     (if length data = 0 then Inl (ProtocolError ''empty certificate authority distinguished name'')
      else if \<not> validName data then Inl (decodeError ''malformed certificate authority distinguished name'')
      else Inr ())"

definition authorityStep :: "(bytes \<Rightarrow> bool) \<Rightarrow> wireParser \<Rightarrow> bytes list \<Rightarrow> (bytes list \<times> wireParser) result" where
  "authorityStep validName q out =
     (let (authority, q) = wpBytes16 q in
      case wp_err q of
        Some err \<Rightarrow> Inl err
      | None \<Rightarrow>
          (case validateDistinguishedName validName authority of
             Inl err \<Rightarrow> Inl (alertError alertDecodeError err)
           | Inr _ \<Rightarrow> Inr (out @ [authority], q)))"

definition forEachCertificateAuthority :: "(bytes \<Rightarrow> bool) \<Rightarrow> bytes \<Rightarrow> bytes list result" where
  "forEachCertificateAuthority validName data =
     (let (raw, p) = wpBytes16 (newWireParser data) in
      rbind (wpDone p) (\<lambda>_.
        if length raw < 3 then Inl (decodeError ''invalid certificate_authorities extension length'')
        else rbind (wpLoop (authorityStep validName) (newWireParser raw) []) (\<lambda>(out, _). Inr out)))"

abbreviation maxHandshakeMetadata :: nat where "maxHandshakeMetadata \<equiv> 4096"

definition marshalHandshakeMetadata :: "bytes \<Rightarrow> bytes result" where
  "marshalHandshakeMetadata data =
     (if maxHandshakeMetadata < length data then Inl (ConfigError ''handshake metadata exceeds 4096 bytes'')
      else Inr ([1] @ data))"

definition parseHandshakeMetadata :: "bytes \<Rightarrow> bytes result" where
  "parseHandshakeMetadata raw =
     (if length raw = 0 \<or> maxHandshakeMetadata + 1 < length raw
        then Inl (decodeError ''invalid handshake metadata length'')
      else if raw ! 0 \<noteq> 1
        then Inl (alertError alertIllegalParameter (ProtocolError ''unsupported handshake metadata version''))
      else Inr (drop 1 raw))"

abbreviation echOuterType :: u8 where "echOuterType \<equiv> 0"
abbreviation echInnerType :: u8 where "echInnerType \<equiv> 1"

definition errMalformedECHExt :: go_error where
  "errMalformedECHExt = ErrorString ''dtls13: malformed encrypted_client_hello extension''"

definition errInvalidECHExt :: go_error where
  "errInvalidECHExt = ErrorString ''dtls13: invalid encrypted_client_hello extension''"

record echExtension =
  ech_typ :: u8
  ech_kdfID :: u16
  ech_aeadID :: u16
  ech_configID :: u8
  ech_enc :: bytes
  ech_payload :: bytes

definition parseECHExt :: "bytes \<Rightarrow> echExtension result" where
  "parseECHExt raw =
     (let (t, p) = wpU8 (newWireParser raw); typ = of_nat t in
      if typ = echInnerType
        then (case wpDone p of
                Inl _ \<Rightarrow> Inl errMalformedECHExt
              | Inr _ \<Rightarrow> Inr \<lparr>ech_typ = typ, ech_kdfID = 0, ech_aeadID = 0, ech_configID = 0, ech_enc = [], ech_payload = []\<rparr>)
      else if typ \<noteq> echOuterType then Inl errInvalidECHExt
      else
        let (kdf, p) = wpU16 p;
            (aead, p) = wpU16 p;
            (config, p) = wpU8 p;
            (enc, p) = wpBytes16 p;
            (payload, p) = wpBytes16 p
        in if wpDone p \<noteq> Inr () \<or> length payload = 0 then Inl errMalformedECHExt
           else Inr \<lparr>ech_typ = typ, ech_kdfID = of_nat kdf, ech_aeadID = of_nat aead, ech_configID = of_nat config,
                     ech_enc = enc, ech_payload = payload\<rparr>)"

section \<open>Lists of 16-bit values as bytes\<close>

definition putU16s :: "u16 list \<Rightarrow> bytes" where
  "putU16s vs = concat (map putUint16 vs)"

lemma length_putU16s [simp]: "length (putU16s vs) = 2 * length vs"
  by (induction vs) (simp_all add: putU16s_def)

lemma u16List_put [simp]: "u16List (putU16s vs) = vs"
proof (induction vs)
  case (Cons v vs)
  obtain a b where ab: "putUint16 v = [a, b]" by (simp add: putUint16_def)
  then have "getUint16 [a, b] = v" using get_putUint_Nil(1) [of v] by simp
  then show ?case using Cons ab by (simp add: putU16s_def)
qed (simp add: putU16s_def)

lemma put_u16List: "even (length raw) \<Longrightarrow> putU16s (u16List raw) = raw"
proof (induction raw rule: u16List.induct)
  case (1 a b raw)
  then show ?case using put_getUint(1) [of "[a, b]"] by (simp add: putU16s_def)
qed (simp_all add: putU16s_def)

lemma length_u16List: "length (u16List raw) = length raw div 2"
  by (induction raw rule: u16List.induct) simp_all

lemma wbU16_word [build_simps]: "wb_err w = None \<Longrightarrow> wbU16 w (uint v) = wbAppend w (putUint16 (v :: u16))"
  using uint_bounded [of v] by (simp add: wb_numbers)

lemma build_u16s:
  assumes "length vs \<le> 32767"
  shows "(let (start, out) = startVector16 newWireBuilder; out = wbU16List vs out in wbResult (endVector16 out start)) =
     Inr (putUint16 (of_nat (2 * length vs)) @ putU16s vs)"
proof -
  have "length (concat (map putUint16 vs)) \<le> 65535" using assms length_putU16s [of vs] by (simp add: putU16s_def)
  from build_vector16 [of vs "\<lambda>v w. wbU16 w (uint v)" putUint16, OF _ this newWireBuilder_err] show ?thesis
    unfolding wbU16List_def by (simp add: wbU16_word Let_def case_prod_unfold wbResult_append putU16s_def [symmetric])
qed

section \<open>The codecs accept what they produce\<close>

lemma u16s_iff:
  "(\<exists>raw. length raw \<le> 65535 \<and> b = putUint16 (of_nat (length raw)) @ raw \<and>
      (if length raw < 2 \<or> length raw mod 2 \<noteq> 0 then Inl e else Inr (u16List raw)) = Inr vs) \<longleftrightarrow>
   vs \<noteq> [] \<and> length vs \<le> 32767 \<and> b = putUint16 (of_nat (2 * length vs)) @ putU16s vs"
proof
  assume "\<exists>raw. length raw \<le> 65535 \<and> b = putUint16 (of_nat (length raw)) @ raw \<and>
      (if length raw < 2 \<or> length raw mod 2 \<noteq> 0 then Inl e else Inr (u16List raw)) = Inr vs"
  then obtain raw where raw: "length raw \<le> 65535" "b = putUint16 (of_nat (length raw)) @ raw"
    "2 \<le> length raw" "even (length raw)" "vs = u16List raw" by (auto simp: not_less even_iff_mod_2_eq_zero split: if_splits)
  have "2 * length vs = length raw" using raw(4,5) by (simp add: length_u16List)
  moreover have "putU16s vs = raw" using raw(4,5) by (simp add: put_u16List)
  ultimately show "vs \<noteq> [] \<and> length vs \<le> 32767 \<and> b = putUint16 (of_nat (2 * length vs)) @ putU16s vs"
    using raw(1,2,3) by auto
next
  assume "vs \<noteq> [] \<and> length vs \<le> 32767 \<and> b = putUint16 (of_nat (2 * length vs)) @ putU16s vs"
  then show "\<exists>raw. length raw \<le> 65535 \<and> b = putUint16 (of_nat (length raw)) @ raw \<and>
      (if length raw < 2 \<or> length raw mod 2 \<noteq> 0 then Inl e else Inr (u16List raw)) = Inr vs"
    by (intro exI [of _ "putU16s vs"]) (cases vs; simp)
qed

lemma parseSignatureSchemes_iff:
  "parseSignatureSchemes b = Inr vs \<longleftrightarrow> vs \<noteq> [] \<and> length vs \<le> 32767 \<and> b = putUint16 (of_nat (2 * length vs)) @ putU16s vs"
  unfolding parseSignatureSchemes_def parse_vector16 by (rule u16s_iff)

lemma parseSupportedGroups_iff:
  "parseSupportedGroups b = Inr vs \<longleftrightarrow> vs \<noteq> [] \<and> length vs \<le> 32767 \<and> b = putUint16 (of_nat (2 * length vs)) @ putU16s vs"
  unfolding parseSupportedGroups_def parse_vector16 by (rule u16s_iff)

lemma marshalSignatureSchemes_ok:
  "vs \<noteq> [] \<Longrightarrow> marshalSignatureSchemes vs =
     (if length vs \<le> 32767 then Inr (putUint16 (of_nat (2 * length vs)) @ putU16s vs) else Inl (ProtocolError ''16-bit vector overflow''))"
  using build_u16s [of vs] by (simp add: marshalSignatureSchemes_def Let_def)

lemma marshalSupportedGroups_ok:
  "vs \<noteq> [] \<Longrightarrow> marshalSupportedGroups vs ss =
     (if length vs \<le> 32767 then Inr (putUint16 (of_nat (2 * length vs)) @ putU16s vs) else Inl (ProtocolError ''16-bit vector overflow''))"
  using build_u16s [of vs] by (simp add: marshalSupportedGroups_def Let_def)

interpretation signature_codec: canonical_codec marshalSignatureSchemes parseSignatureSchemes "\<lambda>vs. vs \<noteq> [] \<and> length vs \<le> 32767"
  by unfold_locales (auto simp: marshalSignatureSchemes_ok parseSignatureSchemes_iff)

lemma parseCookie_iff: "parseCookie b = Inr c \<longleftrightarrow> c \<noteq> [] \<and> length c \<le> 65535 \<and> b = putUint16 (of_nat (length c)) @ c"
  unfolding parseCookie_def parse_vector16 by auto

interpretation cookie_codec: canonical_codec marshalCookie parseCookie "\<lambda>c. c \<noteq> [] \<and> length c \<le> 65535"
  by unfold_locales (auto simp: parseCookie_iff marshalCookie_def build_simps)

lemma parseConnectionID_iff: "parseConnectionID b = Inr c \<longleftrightarrow> length c \<le> 255 \<and> b = of_nat (length c) # c"
  unfolding parseConnectionID_def parse_vector8 by auto

interpretation connection_id_codec: canonical_codec marshalConnectionID parseConnectionID "\<lambda>c. length c \<le> 255"
  by unfold_locales (auto simp: parseConnectionID_iff marshalConnectionID_def build_simps)

interpretation metadata_codec: canonical_codec marshalHandshakeMetadata parseHandshakeMetadata "\<lambda>d. length d \<le> 4096"
  by unfold_locales
    (auto simp: marshalHandshakeMetadata_def parseHandshakeMetadata_def nth_Cons' neq_Nil_conv split: if_splits)

text \<open>Server names.\<close>

lemma marshalServerName_ok:
  "name \<noteq> [] \<Longrightarrow> marshalServerName name =
     (if length name \<le> 65532
      then Inr (putUint16 (of_nat (3 + length name)) @ 0 # putUint16 (of_nat (length name)) @ name)
      else Inl (ProtocolError ''16-bit vector overflow''))"
proof -
  assume "name \<noteq> []"
  have "endVector16 (wbAppend newWireBuilder ([0, 0] @ 0 # putUint16 (of_nat (length name)) @ name)) (int (length (wb_b newWireBuilder))) =
      wbAppend newWireBuilder (putUint16 (of_nat (length (0 # putUint16 (of_nat (length name)) @ name))) @ 0 # putUint16 (of_nat (length name)) @ name)"
    if "length name \<le> 65532" using that by (intro wb_vector16) simp_all
  then show ?thesis using \<open>name \<noteq> []\<close>
    by (simp add: marshalServerName_def wb_start wb_numbers wb_vectors wbAppend_append wbResult_append add.commute)
qed

lemma parseServerName_iff:
  "parseServerName b = Inr name \<longleftrightarrow> name \<noteq> [] \<and> length name \<le> 65532 \<and>
     b = putUint16 (of_nat (3 + length name)) @ 0 # putUint16 (of_nat (length name)) @ name"
proof -
  have inner: "(let (nameType, q) = wpU8 (newWireParser raw) in
        if nameType \<noteq> 0 then Inl (ProtocolError ''unsupported server name type'')
        else let (name, q) = wpBytes16 q in
          rbind (wpDone q) (\<lambda>_. if length name = 0 then Inl (decodeError ''empty server name'') else Inr name)) = Inr name \<longleftrightarrow>
      name \<noteq> [] \<and> length name \<le> 65535 \<and> raw = 0 # putUint16 (of_nat (length name)) @ name" (is "?l = _ \<longleftrightarrow> ?r") for raw
  proof
    assume l: "?l = Inr name"
    obtain t q where t: "wpU8 (newWireParser raw) = (t, q)" by fastforce
    obtain v q2 where v: "wpBytes16 q = (v, q2)" by fastforce
    from l t v have t0: "t = 0" and d: "wpDone q2 = Inr ()" and n: "name = v" "v \<noteq> []" by (auto split: if_splits)
    note e2 = done_err [OF d]
    note e1 = wp_err_earlier(7) [OF v e2]
    from wp_read(1) [OF good_new t e1] t0 have g: "good q" "raw = 0 # rest q" by simp_all
    from wp_read(5) [OF g(1) v e2] have q2: "good q2" "rest q = putUint16 (of_nat (length v)) @ v @ rest q2" "length v \<le> 65535" by simp_all
    moreover have "rest q2 = []" using d good_done [OF q2(1)] by simp
    ultimately show ?r using g(2) n by simp
  next
    assume r: ?r
    then have "wpU8 (newWireParser raw) = (0, adv 1 (newWireParser raw))" by (simp add: wpNumbers_good)
    moreover have "wpBytes16 (adv 1 (newWireParser raw)) = (name, adv (1 + (2 + length name)) (newWireParser raw))"
      using r by (simp add: wpVectors_good good_adv rest_adv)
    moreover have "wpDone (adv (1 + (2 + length name)) (newWireParser raw)) = Inr ()"
      using r by (subst good_done) (simp_all add: good_adv rest_adv)
    ultimately show "?l = Inr name" using r by simp
  qed
  show ?thesis unfolding parseServerName_def parse_vector16 inner by auto
qed

interpretation server_name_codec: canonical_codec marshalServerName parseServerName "\<lambda>n. n \<noteq> [] \<and> length n \<le> 65532"
  by unfold_locales (auto simp: parseServerName_iff marshalServerName_ok)

text \<open>Protocol lists.\<close>

definition alpnBytes :: "bytes \<Rightarrow> bytes" where
  "alpnBytes v = of_nat (length v) # v"

definition alpn_ok :: "bytes list \<Rightarrow> bool" where
  "alpn_ok ps \<longleftrightarrow> ps \<noteq> [] \<and> (\<forall>v \<in> set ps. v \<noteq> [] \<and> length v \<le> 255) \<and> length (concat (map alpnBytes ps)) \<le> 65535"

lemma length_alpnBytes [simp]: "length (alpnBytes v) = 1 + length v"
  by (simp add: alpnBytes_def)

lemma alpnLength_iff:
  "alpnLength n ps = Inr m \<longleftrightarrow> (\<forall>v \<in> set ps. v \<noteq> [] \<and> length v \<le> 255) \<and> m = n + length (concat (map alpnBytes ps))"
  by (induction n ps rule: alpnLength.induct) auto

lemma marshalALPN_ok: "alpn_ok ps \<Longrightarrow> marshalALPN ps =
    Inr (putUint16 (of_nat (length (concat (map alpnBytes ps)))) @ concat (map alpnBytes ps))"
proof -
  assume ok: "alpn_ok ps"
  have "alpnLength 0 ps = Inr (length (concat (map alpnBytes ps)))" using ok by (subst alpnLength_iff) (simp add: alpn_ok_def)
  moreover have "(let (start, out) = startVector16 newWireBuilder; out = fold (\<lambda>v w. wbString8 w v) ps out in endVector16 out start) =
      wbAppend newWireBuilder (putUint16 (of_nat (length (concat (map alpnBytes ps)))) @ concat (map alpnBytes ps))"
    using ok by (intro build_vector16) (auto simp: alpn_ok_def wb_vectors alpnBytes_def)
  ultimately show ?thesis using ok by (simp add: marshalALPN_def alpn_ok_def Let_def case_prod_unfold wbResult_append)
qed

lemma marshalALPN_Inr: "ps \<noteq> [] \<Longrightarrow> marshalALPN ps = Inr b \<Longrightarrow> alpn_ok ps"
  by (auto simp: marshalALPN_def alpnLength_iff alpn_ok_def split: if_splits)

lemma alpnBytes_nonempty [simp]: "alpnBytes v \<noteq> []"
  by (simp add: alpnBytes_def)

lemma all_take_nth: "(\<forall>i < length xs. Q (xs ! i)) \<longleftrightarrow> (\<forall>x \<in> set xs. Q x)"
  by (metis in_set_conv_nth)

lemma alpn_loop:
  "rbind (wpLoop alpnStep (newWireParser raw) []) (\<lambda>(out, q). Inr out) = Inr ps \<longleftrightarrow>
   raw = concat (map alpnBytes ps) \<and> (\<forall>v \<in> set ps. v \<noteq> [] \<and> length v \<le> 255)"
proof -
  have "rbind (wpLoop alpnStep (newWireParser raw) []) (\<lambda>(out, q). Inr out) = Inr ps \<longleftrightarrow>
    (\<exists>xs. raw = concat (map alpnBytes xs) \<and> (\<forall>i < length xs. (\<lambda>_ v. v \<noteq> [] \<and> length v \<le> 255) (take i xs) (xs ! i)) \<and> (Inr xs :: bytes list result) = Inr ps)"
  proof (rule wpLoop_items_iff [where P = "\<lambda>_ v. v \<noteq> [] \<and> length v \<le> 255"])
    fix pre q q' s'
    assume q: "good q" "alpnStep q pre = Inr (s', q')"
    obtain v p where v: "wpBytes8 q = (v, p)" by fastforce
    from q(2) v have "wp_err p = None" "v \<noteq> []" "s' = pre @ [v]" "q' = p"
      by (auto simp: alpnStep_def split: option.splits if_splits)
    then show "\<exists>x. s' = pre @ [x] \<and> (x \<noteq> [] \<and> length x \<le> 255) \<and> rest q = alpnBytes x @ rest q' \<and> good q'"
      using wp_read(4) [OF q(1) v] by (auto simp: alpnBytes_def)
  next
    fix pre x q r
    assume x: "x \<noteq> [] \<and> length x \<le> 255" "good q" "rest q = alpnBytes x @ r"
    then have "wpBytes8 q = (x, adv (length (alpnBytes x)) q)"
      using wpVectors_good(1) [OF x(2)] by (simp add: alpnBytes_def)
    moreover have "good (adv (length (alpnBytes x)) q)" using good_adv [OF x(2)] x(3) by simp
    ultimately show "alpnStep q pre = Inr (pre @ [x], adv (length (alpnBytes x)) q)"
      using x(1) by (simp add: alpnStep_def del: length_alpnBytes)
  qed simp_all
  then have "rbind (wpLoop alpnStep (newWireParser raw) []) (\<lambda>(out, q). Inr out) = Inr ps \<longleftrightarrow>
      raw = concat (map alpnBytes ps) \<and> (\<forall>i < length ps. ps ! i \<noteq> [] \<and> length (ps ! i) \<le> 255)" by blast
  then show ?thesis by (simp only: all_take_nth [of ps "\<lambda>v. v \<noteq> [] \<and> length v \<le> 255"])
qed

lemma parseALPN_iff:
  "parseALPN b = Inr ps \<longleftrightarrow> alpn_ok ps \<and> b = putUint16 (of_nat (length (concat (map alpnBytes ps)))) @ concat (map alpnBytes ps)"
proof -
  have ne: "length (concat (map alpnBytes ps)) = 0 \<longleftrightarrow> ps = []" by (cases ps) (auto simp: alpnBytes_def)
  show ?thesis
    unfolding parseALPN_def parse_vector16 using ne
    by (auto simp: alpn_ok_def alpn_loop simp del: rbind_eq_Inr split: if_splits intro!: exI [of _ "concat (map alpnBytes ps)"])
qed

interpretation alpn_codec: canonical_codec marshalALPN parseALPN alpn_ok
  by unfold_locales (auto simp: parseALPN_iff marshalALPN_ok)

text \<open>Pre-shared key offers: a list of identities and a list of binders of the same length.\<close>

definition identityBytes :: "pskIdentityEntry \<Rightarrow> bytes" where
  "identityBytes i = putUint16 (of_nat (length (psk_identity i))) @ psk_identity i @ putUint32 (psk_obfuscatedAge i)"

lemma length_identityBytes [simp]: "length (identityBytes i) = 6 + length (psk_identity i)"
  by (simp add: identityBytes_def)

lemma identityBytes_nonempty [simp]: "identityBytes i \<noteq> []"
  by (metis length_identityBytes length_0_conv add_is_0 zero_neq_numeral)

definition psks_ok :: "pskIdentityEntry list \<times> bytes list \<Rightarrow> bool" where
  "psks_ok offer \<longleftrightarrow> fst offer \<noteq> [] \<and> length (fst offer) = length (snd offer) \<and>
     (\<forall>i \<in> set (fst offer). psk_identity i \<noteq> [] \<and> length (psk_identity i) \<le> 65535) \<and>
     (\<forall>b \<in> set (snd offer). 32 \<le> length b \<and> length b \<le> 255) \<and>
     length (concat (map identityBytes (fst offer))) \<le> 65535 \<and> length (concat (map alpnBytes (snd offer))) \<le> 65535"

definition psksBytes :: "pskIdentityEntry list \<times> bytes list \<Rightarrow> bytes" where
  "psksBytes offer =
     putUint16 (of_nat (length (concat (map identityBytes (fst offer))))) @ concat (map identityBytes (fst offer)) @
     putUint16 (of_nat (length (concat (map alpnBytes (snd offer))))) @ concat (map alpnBytes (snd offer))"

lemma identitiesLength_iff:
  "identitiesLength n is = Inr m \<longleftrightarrow>
   m = n + length (concat (map identityBytes is)) \<and> (is \<noteq> [] \<longrightarrow> m \<le> 65535) \<and> (\<forall>i \<in> set is. length (psk_identity i) \<le> 65535)"
  by (induction n "is" rule: identitiesLength.induct) (auto simp: not_less)

lemma bindersLength_iff:
  "bindersLength n bs = Inr m \<longleftrightarrow>
   m = n + length (concat (map alpnBytes bs)) \<and> (bs \<noteq> [] \<longrightarrow> m \<le> 65535) \<and> (\<forall>b \<in> set bs. length b \<le> 255)"
  by (induction n bs rule: bindersLength.induct) (auto simp: not_less)

lemma psk_zip_iff:
  "length is = length bs \<Longrightarrow>
   list_ex (\<lambda>(i, b). length (psk_identity i) = 0 \<or> length b < 32) (zip is bs) \<longleftrightarrow>
   \<not> ((\<forall>i \<in> set is. psk_identity i \<noteq> []) \<and> (\<forall>b \<in> set bs. 32 \<le> length b))"
  by (induction "is" bs rule: list_induct2) (auto simp: not_le)

lemma identity_loop:
  "rbind (wpLoop identityStep (newWireParser raw) []) (\<lambda>(out, q). k out) = Inr y \<longleftrightarrow>
   (\<exists>is. raw = concat (map identityBytes is) \<and> (\<forall>i \<in> set is. psk_identity i \<noteq> [] \<and> length (psk_identity i) \<le> 65535) \<and> k is = Inr y)"
proof -
  have "rbind (wpLoop identityStep (newWireParser raw) []) (\<lambda>(out, q). k out) = Inr y \<longleftrightarrow>
    (\<exists>xs. raw = concat (map identityBytes xs) \<and>
       (\<forall>j < length xs. (\<lambda>_ i. psk_identity i \<noteq> [] \<and> length (psk_identity i) \<le> 65535) (take j xs) (xs ! j)) \<and> k xs = Inr y)"
  proof (rule wpLoop_items_iff [where P = "\<lambda>_ i. psk_identity i \<noteq> [] \<and> length (psk_identity i) \<le> 65535"])
    fix pre q q' s'
    assume q: "good q" "identityStep q pre = Inr (s', q')"
    obtain v p where v: "wpBytes16 q = (v, p)" by fastforce
    obtain age p2 where age: "wpU32 p = (age, p2)" by fastforce
    from q(2) v age have e2: "wp_err p2 = None" and r: "v \<noteq> []" "s' = pre @ [\<lparr>psk_identity = v, psk_obfuscatedAge = age\<rparr>]" "q' = p2"
      by (auto simp: identityStep_def split: if_splits)
    from wp_read(5) [OF q(1) v wp_err_earlier(5) [OF age e2]] have p: "good p" "length v \<le> 65535"
      "rest q = putUint16 (of_nat (length v)) @ v @ rest p" by simp_all
    from wp_read(3) [OF p(1) age e2] p r
    show "\<exists>x. s' = pre @ [x] \<and> (psk_identity x \<noteq> [] \<and> length (psk_identity x) \<le> 65535) \<and> rest q = identityBytes x @ rest q' \<and> good q'"
      by (auto simp: identityBytes_def)
  next
    fix pre x q r
    assume x: "psk_identity x \<noteq> [] \<and> length (psk_identity x) \<le> 65535" "good q" "rest q = identityBytes x @ r"
    let ?n = "length (psk_identity x)"
    have v: "wpBytes16 q = (psk_identity x, adv (2 + ?n) q)"
      using wpVectors_good(2) [OF x(2)] x by (simp add: identityBytes_def)
    have "good (adv (2 + ?n) q)" using good_adv [OF x(2)] x(3) by simp
    moreover have "rest (adv (2 + ?n) q) = putUint32 (psk_obfuscatedAge x) @ r"
      using x(3) by (simp add: rest_adv identityBytes_def)
    ultimately have "wpU32 (adv (2 + ?n) q) = (psk_obfuscatedAge x, adv (length (identityBytes x)) q)"
      by (simp add: wpNumbers_good add.commute)
    moreover have "good (adv (length (identityBytes x)) q)" using good_adv [OF x(2)] x(3) by simp
    ultimately show "identityStep q pre = Inr (pre @ [x], adv (length (identityBytes x)) q)"
      using v x(1) by (simp add: identityStep_def del: length_identityBytes)
  qed simp_all
  then show ?thesis by (simp only: all_take_nth [where Q = "\<lambda>i. psk_identity i \<noteq> [] \<and> length (psk_identity i) \<le> 65535"])
qed

lemma binder_loop:
  "rbind (wpLoop binderStep (newWireParser raw) []) (\<lambda>(out, q). k out) = Inr y \<longleftrightarrow>
   (\<exists>bs. raw = concat (map alpnBytes bs) \<and> (\<forall>b \<in> set bs. 32 \<le> length b \<and> length b \<le> 255) \<and> k bs = Inr y)"
proof -
  have "rbind (wpLoop binderStep (newWireParser raw) []) (\<lambda>(out, q). k out) = Inr y \<longleftrightarrow>
    (\<exists>xs. raw = concat (map alpnBytes xs) \<and>
       (\<forall>j < length xs. (\<lambda>_ b. 32 \<le> length b \<and> length b \<le> 255) (take j xs) (xs ! j)) \<and> k xs = Inr y)"
  proof (rule wpLoop_items_iff [where P = "\<lambda>_ b. 32 \<le> length b \<and> length b \<le> 255"])
    fix pre q q' s'
    assume q: "good q" "binderStep q pre = Inr (s', q')"
    obtain v p where v: "wpBytes8 q = (v, p)" by fastforce
    from q(2) v have "wp_err p = None" "32 \<le> length v" "s' = pre @ [v]" "q' = p"
      by (auto simp: binderStep_def split: if_splits)
    then show "\<exists>x. s' = pre @ [x] \<and> (32 \<le> length x \<and> length x \<le> 255) \<and> rest q = alpnBytes x @ rest q' \<and> good q'"
      using wp_read(4) [OF q(1) v] by (auto simp: alpnBytes_def)
  next
    fix pre x q r
    assume x: "32 \<le> length x \<and> length x \<le> 255" "good q" "rest q = alpnBytes x @ r"
    then have "wpBytes8 q = (x, adv (length (alpnBytes x)) q)"
      using wpVectors_good(1) [OF x(2)] by (simp add: alpnBytes_def)
    moreover have "good (adv (length (alpnBytes x)) q)" using good_adv [OF x(2)] x(3) by simp
    ultimately show "binderStep q pre = Inr (pre @ [x], adv (length (alpnBytes x)) q)"
      using x(1) by (simp add: binderStep_def del: length_alpnBytes)
  qed simp_all
  then show ?thesis by (simp only: all_take_nth [where Q = "\<lambda>b. 32 \<le> length b \<and> length b \<le> 255"])
qed

lemma two_vectors16:
  "(let (x, p) = wpBytes16 (newWireParser b); (y, p) = wpBytes16 p in rbind (wpDone p) (\<lambda>_. k x y)) = Inr z \<longleftrightarrow>
   (\<exists>x y. length x \<le> 65535 \<and> length y \<le> 65535 \<and>
      b = putUint16 (of_nat (length x)) @ x @ putUint16 (of_nat (length y)) @ y \<and> k x y = Inr z)" (is "?l = _ \<longleftrightarrow> ?r")
proof
  obtain x p where x: "wpBytes16 (newWireParser b) = (x, p)" by fastforce
  obtain y p2 where y: "wpBytes16 p = (y, p2)" by fastforce
  assume "?l = Inr z"
  then have d: "wpDone p2 = Inr ()" and k: "k x y = Inr z" using x y by auto
  note e2 = done_err [OF d]
  from wp_read(5) [OF good_new x wp_err_earlier(7) [OF y e2]] have p: "good p" "length x \<le> 65535"
    "b = putUint16 (of_nat (length x)) @ x @ rest p" by simp_all
  from wp_read(5) [OF p(1) y e2] have p2: "good p2" "length y \<le> 65535" "rest p = putUint16 (of_nat (length y)) @ y @ rest p2" by simp_all
  moreover have "rest p2 = []" using d good_done [OF p2(1)] by simp
  ultimately show ?r using p k by auto
next
  assume ?r
  then obtain x y where xy: "length x \<le> 65535" "length y \<le> 65535"
    "b = putUint16 (of_nat (length x)) @ x @ putUint16 (of_nat (length y)) @ y" and k: "k x y = Inr z" by blast
  have x: "wpBytes16 (newWireParser b) = (x, adv (2 + length x) (newWireParser b))"
    unfolding xy(3) using xy(1) by (simp add: wpVectors_good)
  have g: "good (adv (2 + length x) (newWireParser b))" unfolding xy(3) by (simp add: good_adv)
  have r: "rest (adv (2 + length x) (newWireParser b)) = putUint16 (of_nat (length y)) @ y"
    unfolding xy(3) by (simp add: rest_adv)
  have y: "wpBytes16 (adv (2 + length x) (newWireParser b)) = (y, adv (2 + length y) (adv (2 + length x) (newWireParser b)))"
    using wpVectors_good(2) [OF g] r xy(2) by simp
  have "good (adv (2 + length y) (adv (2 + length x) (newWireParser b)))" using good_adv [OF g, of "2 + length y"] r by simp
  moreover have "rest (adv (2 + length y) (adv (2 + length x) (newWireParser b))) = []" unfolding rest_adv [of "2 + length y"] r by simp
  ultimately have "wpDone (adv (2 + length y) (adv (2 + length x) (newWireParser b))) = Inr ()" by (simp only: good_done)
  then show "?l = Inr z" using x y k by simp
qed

lemma parseClientPSKs_iff: "parseClientPSKs b = Inr offer \<longleftrightarrow> psks_ok offer \<and> b = psksBytes offer"
proof -
  have "parseClientPSKs b = Inr offer \<longleftrightarrow>
    (\<exists>x y. length x \<le> 65535 \<and> length y \<le> 65535 \<and> b = putUint16 (of_nat (length x)) @ x @ putUint16 (of_nat (length y)) @ y \<and>
      (\<exists>is. x = concat (map identityBytes is) \<and> (\<forall>i \<in> set is. psk_identity i \<noteq> [] \<and> length (psk_identity i) \<le> 65535) \<and>
       (\<exists>bs. y = concat (map alpnBytes bs) \<and> (\<forall>b \<in> set bs. 32 \<le> length b \<and> length b \<le> 255) \<and>
         (if length is = 0 \<or> length is \<noteq> length bs then Inl (ProtocolError ''pre_shared_key identity and binder counts differ'')
          else Inr (is, bs)) = Inr offer)))"
    unfolding parseClientPSKs_def two_vectors16 identity_loop binder_loop ..
  also have "\<dots> \<longleftrightarrow> psks_ok offer \<and> b = psksBytes offer"
    unfolding psks_ok_def psksBytes_def by (cases offer) (auto split: if_splits)
  finally show ?thesis .
qed

lemma marshalClientPSKs_ok: "psks_ok offer \<Longrightarrow> marshalClientPSKs (fst offer) (snd offer) = Inr (psksBytes offer)"
proof -
  assume ok: "psks_ok offer"
  let ?is = "fst offer" and ?bs = "snd offer"
  have n: "identitiesLength 0 ?is = Inr (length (concat (map identityBytes ?is)))"
    and m: "bindersLength 0 ?bs = Inr (length (concat (map alpnBytes ?bs)))"
    using ok by (auto simp: identitiesLength_iff bindersLength_iff psks_ok_def)
  have id: "(let (start, out) = startVector16 newWireBuilder;
        out = fold (\<lambda>i w. wbU32 (wbBytes16 w (psk_identity i)) (psk_obfuscatedAge i)) ?is out in endVector16 out start) =
      wbAppend newWireBuilder (putUint16 (of_nat (length (concat (map identityBytes ?is)))) @ concat (map identityBytes ?is))"
    using ok by (intro build_vector16) (auto simp: psks_ok_def wb_vectors wb_numbers wbAppend_append identityBytes_def)
  have bi: "(let (start, out) = startVector16 w; out = fold (\<lambda>b w. wbBytes8 w b) ?bs out in endVector16 out start) =
      wbAppend w (putUint16 (of_nat (length (concat (map alpnBytes ?bs)))) @ concat (map alpnBytes ?bs))" if "wb_err w = None" for w
    using ok that by (intro build_vector16) (auto simp: psks_ok_def wb_vectors alpnBytes_def)
  have "?bs \<noteq> []" using ok by (auto simp: psks_ok_def)
  then show ?thesis
    using ok n m psk_zip_iff [of ?is ?bs] id bi [OF wbAppend_err [of newWireBuilder, unfolded newWireBuilder_err]]
    by (simp add: marshalClientPSKs_def psks_ok_def Let_def case_prod_unfold psksBytes_def wbAppend_append wbResult_append)
qed

lemma marshalClientPSKs_Inr: "marshalClientPSKs is bs = Inr b \<Longrightarrow> psks_ok (is, bs)"
  using psk_zip_iff [of "is" bs]
  by (auto simp: marshalClientPSKs_def identitiesLength_iff bindersLength_iff psks_ok_def split: if_splits)

interpretation psk_codec: canonical_codec "\<lambda>offer. marshalClientPSKs (fst offer) (snd offer)" parseClientPSKs psks_ok
  by unfold_locales (auto simp: parseClientPSKs_iff marshalClientPSKs_ok)

end
