(* ===== verification/Extension_Lists.thy ===== *)
theory Extension_Lists
  imports Hello_Extensions
begin

text \<open>
  What the parsers of the two list-valued containers of a hello accept: the ordered extension list of
  src/hello.go and the key shares, with the duplicate detector that keeps the first eight groups in a
  fixed array and moves to a map at the ninth.\<close>

lemma Suc_four: "Suc (Suc (Suc (Suc n))) = 4 + n"
  by simp

text \<open>Extension lists.\<close>

definition extensionBytes :: "orderedExtension \<Rightarrow> bytes" where
  "extensionBytes e = putUint16 (oe_typ e) @ putUint16 (of_nat (length (oe_value e))) @ oe_value e"

lemma length_extensionBytes [simp]: "length (extensionBytes e) = 4 + length (oe_value e)"
  by (simp add: extensionBytes_def)

lemma extensionBytes_nonempty [simp]: "extensionBytes e \<noteq> []"
  by (metis length_extensionBytes length_0_conv add_is_0 zero_neq_numeral)

definition extensions_ok :: "orderedExtension list \<Rightarrow> bool" where
  "extensions_ok es \<longleftrightarrow> distinct (map oe_typ es) \<and> length (concat (map extensionBytes es)) \<le> 65535"

definition extensionsBytes :: "orderedExtension list \<Rightarrow> bytes" where
  "extensionsBytes es = putUint16 (of_nat (length (concat (map extensionBytes es)))) @ concat (map extensionBytes es)"

lemma extensions_ok_value: "extensions_ok es \<Longrightarrow> e \<in> set es \<Longrightarrow> length (oe_value e) \<le> 65535"
proof -
  assume ok: "extensions_ok es" and e: "e \<in> set es"
  have "length (extensionBytes e) \<le> length (concat (map extensionBytes es))"
    using e by (induction es) auto
  then show ?thesis using ok by (simp add: extensions_ok_def)
qed

lemma ordered_checks:
  "(\<forall>i < length es. (\<lambda>pre e. length (oe_value e) \<le> 65535 \<and> oe_typ e \<notin> oe_typ ` set pre) (take i es) (es ! i)) \<longleftrightarrow>
   (\<forall>e \<in> set es. length (oe_value e) \<le> 65535) \<and> distinct (map oe_typ es)"
proof (induction es rule: rev_induct)
  case (snoc e es)
  have "(\<forall>i < length (es @ [e]). (\<lambda>pre e. length (oe_value e) \<le> 65535 \<and> oe_typ e \<notin> oe_typ ` set pre) (take i (es @ [e])) ((es @ [e]) ! i)) \<longleftrightarrow>
     (\<forall>i < length es. (\<lambda>pre e. length (oe_value e) \<le> 65535 \<and> oe_typ e \<notin> oe_typ ` set pre) (take i es) (es ! i)) \<and>
     length (oe_value e) \<le> 65535 \<and> oe_typ e \<notin> oe_typ ` set es"
    by (auto simp: nth_append less_Suc_eq)
  then show ?case unfolding snoc.IH by auto
qed simp

lemma ordered_loop:
  "rbind (wpLoop orderedStep (newWireParser raw) []) (\<lambda>(items, q). rbind (wpDone q) (\<lambda>_. Inr items)) = Inr es \<longleftrightarrow>
   raw = concat (map extensionBytes es) \<and> (\<forall>e \<in> set es. length (oe_value e) \<le> 65535) \<and> distinct (map oe_typ es)"
proof -
  have "rbind (wpLoop orderedStep (newWireParser raw) []) (\<lambda>(items, q). rbind (wpDone q) (\<lambda>_. Inr items)) = Inr es \<longleftrightarrow>
    (\<exists>xs. raw = concat (map extensionBytes xs) \<and>
      (\<forall>i < length xs. (\<lambda>pre (e :: orderedExtension). length (oe_value e) \<le> 65535 \<and> oe_typ e \<notin> oe_typ ` set pre) (take i xs) (xs ! i)) \<and>
      (Inr xs :: orderedExtension list result) = Inr es)"
  proof (rule wpLoop_items_iff [where P = "\<lambda>pre (e :: orderedExtension). length (oe_value e) \<le> 65535 \<and> oe_typ e \<notin> oe_typ ` set pre"])
    fix pre :: "orderedExtension list" and q q' s'
    assume q: "good q" "orderedStep q pre = Inr (s', q')"
    obtain t p where t: "wpU16 q = (t, p)" by fastforce
    obtain v p2 where v: "wpBytes16 p = (v, p2)" by fastforce
    from q(2) t v have e2: "wp_err p2 = None" and r: "s' = pre @ [\<lparr>oe_typ = of_nat t, oe_value = v\<rparr>]" "q' = p2"
      "of_nat t \<notin> oe_typ ` set pre"
      by (auto simp: orderedStep_def list_ex_iff split: option.splits if_splits)
    from wp_read(2) [OF q(1) t wp_err_earlier(7) [OF v e2]] have p: "good p" "rest q = putUint16 (of_nat t) @ rest p" by simp_all
    from wp_read(5) [OF p(1) v e2] p r
    show "\<exists>x. s' = pre @ [x] \<and> (length (oe_value x) \<le> 65535 \<and> oe_typ x \<notin> oe_typ ` set pre) \<and> rest q = extensionBytes x @ rest q' \<and> good q'"
      by (auto simp: extensionBytes_def)
  next
    fix pre :: "orderedExtension list" and x q r
    assume x: "length (oe_value x) \<le> 65535 \<and> oe_typ x \<notin> oe_typ ` set pre" "good q" "rest q = extensionBytes x @ r"
    have t: "wpU16 q = (unat (oe_typ x), adv 2 q)" using wpNumbers_good(2) [OF x(2)] x(3) by (simp add: extensionBytes_def)
    have g: "good (adv 2 q)" using good_adv [OF x(2)] x(3) by simp
    have "rest (adv 2 q) = putUint16 (of_nat (length (oe_value x))) @ oe_value x @ r"
      using x(3) by (simp add: rest_adv extensionBytes_def)
    then have v: "wpBytes16 (adv 2 q) = (oe_value x, adv (length (extensionBytes x)) q)"
      using wpVectors_good(2) [OF g] x(1) by (simp add: Suc_four)
    have "good (adv (length (extensionBytes x)) q)" using good_adv [OF x(2)] x(3) by simp
    then show "orderedStep q pre = Inr (pre @ [x], adv (length (extensionBytes x)) q)"
      using t v x(1) by (auto simp: orderedStep_def list_ex_iff image_iff simp del: length_extensionBytes)
  qed simp_all
  then have "rbind (wpLoop orderedStep (newWireParser raw) []) (\<lambda>(items, q). rbind (wpDone q) (\<lambda>_. Inr items)) = Inr es \<longleftrightarrow>
      raw = concat (map extensionBytes es) \<and>
      (\<forall>i < length es. (\<lambda>pre e. length (oe_value e) \<le> 65535 \<and> oe_typ e \<notin> oe_typ ` set pre) (take i es) (es ! i))" by blast
  then show ?thesis unfolding ordered_checks .
qed

lemma parseOrderedExtensionsView_iff:
  "parseOrderedExtensionsView b = Inr es \<longleftrightarrow> extensions_ok es \<and> b = extensionsBytes es"
  unfolding parseOrderedExtensionsView_def parse_vector16 ordered_loop
  using extensions_ok_value by (auto simp: extensions_ok_def extensionsBytes_def)

lemma extensionsLengthFrom_iff:
  "extensionsLengthFrom n (map oe_value es) = Inr m \<longleftrightarrow>
   m = 2 + n + length (concat (map extensionBytes es)) \<and> (es \<noteq> [] \<longrightarrow> n + length (concat (map extensionBytes es)) \<le> 65535) \<and>
   (\<forall>e \<in> set es. length (oe_value e) \<le> 65535)"
  by (induction es arbitrary: n) (auto simp: not_less)

lemma appendOrderedExtensions_ok:
  assumes "wb_err w = None" and "length (concat (map extensionBytes es)) \<le> 65535" and "\<forall>e \<in> set es. length (oe_value e) \<le> 65535"
  shows "appendOrderedExtensions w es = wbAppend w (extensionsBytes es)"
proof -
  have "(let (start, out) = startVector16 w;
      out = fold (\<lambda>item w. wbBytes16 (wbU16 w (uint (oe_typ item))) (oe_value item)) es out in endVector16 out start) =
    wbAppend w (putUint16 (of_nat (length (concat (map extensionBytes es)))) @ concat (map extensionBytes es))"
    using assms by (intro build_vector16) (auto simp: wbU16_word wb_vectors wbAppend_append extensionBytes_def)
  then show ?thesis by (simp add: appendOrderedExtensions_def extensionsBytes_def)
qed

text \<open>Key shares.\<close>

definition keyShareBytes :: "keyShareEntry \<Rightarrow> bytes" where
  "keyShareBytes s = putUint16 (ks_group s) @ putUint16 (of_nat (length (ks_data s))) @ ks_data s"

lemma length_keyShareBytes [simp]: "length (keyShareBytes s) = 4 + length (ks_data s)"
  by (simp add: keyShareBytes_def)

lemma keyShareBytes_nonempty [simp]: "keyShareBytes s \<noteq> []"
  by (metis length_keyShareBytes length_0_conv add_is_0 zero_neq_numeral)

definition keyShares_ok :: "keyShareEntry list \<Rightarrow> bool" where
  "keyShares_ok ss \<longleftrightarrow> distinct (map ks_group ss) \<and> (\<forall>s \<in> set ss. ks_data s \<noteq> [] \<and> length (ks_data s) \<le> 65535)"

lemma keyShareEntries_run:
  "good q \<Longrightarrow> rest q = concat (map keyShareBytes ss) \<Longrightarrow> \<forall>s \<in> set ss. length (ks_data s) \<le> 65535 \<Longrightarrow>
   keyShareEntries (length ss) q = ss"
proof (induction ss arbitrary: q)
  case (Cons s ss)
  have g: "good (adv 2 q)" using good_adv [OF Cons.prems(1)] Cons.prems(2) by simp
  have "wpU16 q = (unat (ks_group s), adv 2 q)"
    using wpNumbers_good(2) [OF Cons.prems(1)] Cons.prems(2) by (simp add: keyShareBytes_def [of s])
  moreover have "rest (adv 2 q) = putUint16 (of_nat (length (ks_data s))) @ ks_data s @ concat (map keyShareBytes ss)"
    using Cons.prems(2) by (simp add: rest_adv keyShareBytes_def [of s])
  then have "wpBytes16 (adv 2 q) = (ks_data s, adv (length (keyShareBytes s)) q)"
    using wpVectors_good(2) [OF g] Cons.prems(3) by (simp add: Suc_four)
  moreover have "keyShareEntries (length ss) (adv (length (keyShareBytes s)) q) = ss"
    using Cons.prems good_adv [OF Cons.prems(1), of "length (keyShareBytes s)"]
    by (intro Cons.IH) (simp_all add: rest_adv del: length_keyShareBytes)
  ultimately show ?case by (simp del: length_keyShareBytes)
qed simp

text \<open>The duplicate detector with its small array and its map.\<close>

definition seenGroups :: "keyShareEntry list \<Rightarrow> u16 list \<times> u16 list option \<times> nat" where
  "seenGroups pre =
     (let gs = map ks_group pre in
      (take 8 gs, if length gs \<le> 8 then None else Some (rev (drop 8 gs) @ take 8 gs), length gs))"

lemma seenGroups_new:
  assumes "wp_err q2 = None" and "data \<noteq> []" and "wpU16 q = (g, q1)" and "wpBytes16 q1 = (data, q2)"
  shows "keyShareStep q (seenGroups pre) =
    (if of_nat g \<in> ks_group ` set pre then Inl (alertError alertIllegalParameter (ProtocolError ''duplicate key_share group''))
     else Inr (seenGroups (pre @ [\<lparr>ks_group = of_nat g, ks_data = data\<rparr>]), q2))"
proof -
  let ?gs = "map ks_group pre"
  have all: "set (rev (drop 8 ?gs) @ take 8 ?gs) = ks_group ` set pre"
    using append_take_drop_id [of 8 ?gs] by (metis set_append set_rev Un_commute set_map)
  consider "length pre < 8" | "length pre = 8" | "8 < length pre" by linarith
  then show ?thesis
  proof cases
    case 3
    then have "keyShareStep q (seenGroups pre) =
      (if of_nat g \<in> set (rev (drop 8 ?gs) @ take 8 ?gs) then Inl (alertError alertIllegalParameter (ProtocolError ''duplicate key_share group''))
       else Inr ((take 8 ?gs, Some (of_nat g # rev (drop 8 ?gs) @ take 8 ?gs), length pre + 1), q2))"
      using assms by (simp add: keyShareStep_def seenGroups_def Let_def del: set_append set_rev)
    then show ?thesis unfolding all using 3 by (simp add: seenGroups_def)
  qed (use assms in \<open>auto simp: keyShareStep_def seenGroups_def Let_def\<close>)
qed

lemma share_checks:
  "(\<forall>k < length ss. ks_data (ss ! k) \<noteq> [] \<and> length (ks_data (ss ! k)) \<le> 65535 \<and> ks_group (ss ! k) \<notin> ks_group ` set (take k ss)) \<longleftrightarrow>
   distinct (map ks_group ss) \<and> (\<forall>s \<in> set ss. ks_data s \<noteq> [] \<and> length (ks_data s) \<le> 65535)"
proof (induction ss rule: rev_induct)
  case (snoc s ss)
  have "(\<forall>k < length (ss @ [s]). ks_data ((ss @ [s]) ! k) \<noteq> [] \<and> length (ks_data ((ss @ [s]) ! k)) \<le> 65535 \<and>
       ks_group ((ss @ [s]) ! k) \<notin> ks_group ` set (take k (ss @ [s]))) \<longleftrightarrow>
     (\<forall>k < length ss. ks_data (ss ! k) \<noteq> [] \<and> length (ks_data (ss ! k)) \<le> 65535 \<and> ks_group (ss ! k) \<notin> ks_group ` set (take k ss)) \<and>
     ks_data s \<noteq> [] \<and> length (ks_data s) \<le> 65535 \<and> ks_group s \<notin> ks_group ` set ss"
    by (auto simp: nth_append less_Suc_eq)
  then show ?case unfolding snoc.IH by auto
qed simp

lemma key_share_loop:
  "wpLoop keyShareStep (newWireParser raw) ([], None, 0) = Inr (s', q') \<Longrightarrow>
   \<exists>ss. s' = seenGroups ss \<and> raw = concat (map keyShareBytes ss) \<and> keyShares_ok ss"
proof -
  assume "wpLoop keyShareStep (newWireParser raw) ([], None, 0) = Inr (s', q')"
  then have run: "wpLoop keyShareStep (newWireParser raw) (seenGroups []) = Inr (s', q')" by (simp add: seenGroups_def)
  let ?P = "\<lambda>pre x. ks_data x \<noteq> [] \<and> length (ks_data x) \<le> 65535 \<and> ks_group x \<notin> ks_group ` set pre"
  have step: "\<exists>x. s1 = seenGroups (pre @ [x]) \<and> ?P pre x \<and> rest q = keyShareBytes x @ rest q1 \<and> good q1"
    if q: "good q" and s: "keyShareStep q (seenGroups pre) = Inr (s1, q1)" for pre q q1 s1
  proof -
    obtain g p where g: "wpU16 q = (g, p)" by fastforce
    obtain v p2 where v: "wpBytes16 p = (v, p2)" by fastforce
    have "wp_err p2 = None \<and> v \<noteq> []"
      using s g v by (cases "wp_err p2"; cases "v = []") (simp_all add: keyShareStep_def Let_def split_def)
    then have e2: "wp_err p2 = None" and ne: "v \<noteq> []" by simp_all
    from s seenGroups_new [OF e2 ne g v] have new: "of_nat g \<notin> ks_group ` set pre"
      "s1 = seenGroups (pre @ [\<lparr>ks_group = of_nat g, ks_data = v\<rparr>])" "q1 = p2" by (auto split: if_splits)
    from wp_read(2) [OF q g wp_err_earlier(7) [OF v e2]] have p: "good p" "rest q = putUint16 (of_nat g) @ rest p" by simp_all
    from wp_read(5) [OF p(1) v e2] p new ne show ?thesis by (auto simp: keyShareBytes_def)
  qed
  from wpLoop_reads [of keyShareStep seenGroups ?P keyShareBytes, OF step run good_new] obtain ss where
    ss: "s' = seenGroups ss" "raw = concat (map keyShareBytes ss)" "\<forall>k < length ss. ?P (take k ss) (ss ! k)" by auto
  from ss(3) have "distinct (map ks_group ss) \<and> (\<forall>s \<in> set ss. ks_data s \<noteq> [] \<and> length (ks_data s) \<le> 65535)"
    unfolding share_checks .
  then show ?thesis using ss(1,2) unfolding keyShares_ok_def by blast
qed

lemma key_share_loop_run:
  assumes ok: "keyShares_ok ss" and raw: "raw = concat (map keyShareBytes ss)"
  shows "\<exists>q. wpLoop keyShareStep (newWireParser raw) ([], None, 0) = Inr (seenGroups ss, q)"
proof -
  have "wpLoop keyShareStep (newWireParser raw) (seenGroups []) = Inr (seenGroups ss, adv (length (concat (map keyShareBytes ss))) (newWireParser raw))"
  proof (rule wpLoop_run)
    fix pre x post q r
    assume x: "ss = pre @ x # post" "good q" "rest q = keyShareBytes x @ r"
    have data: "ks_data x \<noteq> []" "length (ks_data x) \<le> 65535" "ks_group x \<notin> ks_group ` set pre"
      using ok x(1) by (auto simp: keyShares_ok_def)
    have t: "wpU16 q = (unat (ks_group x), adv 2 q)" using wpNumbers_good(2) [OF x(2)] x(3) by (simp add: keyShareBytes_def)
    have g: "good (adv 2 q)" using good_adv [OF x(2)] x(3) by simp
    have "rest (adv 2 q) = putUint16 (of_nat (length (ks_data x))) @ ks_data x @ r" using x(3) by (simp add: rest_adv keyShareBytes_def)
    then have v: "wpBytes16 (adv 2 q) = (ks_data x, adv (length (keyShareBytes x)) q)"
      using wpVectors_good(2) [OF g] data(2) by (simp add: Suc_four)
    have "good (adv (length (keyShareBytes x)) q)" using good_adv [OF x(2)] x(3) by simp
    from seenGroups_new [OF good_err [OF this] data(1) t v, of pre] data(3)
    show "keyShareStep q (seenGroups pre) = Inr (seenGroups (pre @ [x]), adv (length (keyShareBytes x)) q)"
      by (cases x) (simp del: length_keyShareBytes)
  qed (use raw in simp_all)
  then show ?thesis by (simp add: seenGroups_def)
qed


lemma parseKeySharesMode_entries:
  "rbind (wpLoop keyShareStep (newWireParser entries) ([], None, 0)) (\<lambda>((groups, seen, count), _).
     if count = 0 then (if vector then Inr [] else Inl (decodeError ''empty key share list''))
     else Inr (keyShareEntries count (newWireParser entries))) = Inr ss \<longleftrightarrow>
   keyShares_ok ss \<and> entries = concat (map keyShareBytes ss) \<and> (vector \<or> ss \<noteq> [])" (is "?run = Inr ss \<longleftrightarrow> _")
proof -
  have result: "?run = (if us = [] then (if vector then Inr [] else Inl (decodeError ''empty key share list'')) else Inr us)"
    if "keyShares_ok us" "entries = concat (map keyShareBytes us)" for us
  proof -
    from key_share_loop_run [OF that] obtain q where
      "wpLoop keyShareStep (newWireParser entries) ([], None, 0) = Inr (seenGroups us, q)" by blast
    moreover have "keyShareEntries (length us) (newWireParser entries) = us"
      using keyShareEntries_run [OF good_new] that by (simp add: keyShares_ok_def)
    ultimately show ?thesis by (simp add: seenGroups_def Let_def)
  qed
  show ?thesis
  proof
    assume run: "?run = Inr ss"
    then obtain s' q' where "wpLoop keyShareStep (newWireParser entries) ([], None, 0) = Inr (s', q')"
      by (auto simp: rbind_eq_Inr)
    from key_share_loop [OF this] obtain us where us: "keyShares_ok us" "entries = concat (map keyShareBytes us)" by blast
    from result [OF this] run have "us = ss \<and> (vector \<or> ss \<noteq> [])" by (cases "us = []"; cases vector) auto
    with us show "keyShares_ok ss \<and> entries = concat (map keyShareBytes ss) \<and> (vector \<or> ss \<noteq> [])" by blast
  next
    assume "keyShares_ok ss \<and> entries = concat (map keyShareBytes ss) \<and> (vector \<or> ss \<noteq> [])"
    then show "?run = Inr ss" using result [of ss] by auto
  qed
qed

definition keyShareList :: "keyShareEntry list \<Rightarrow> bool \<Rightarrow> bytes" where
  "keyShareList ss vector =
     (let entries = concat (map keyShareBytes ss) in
      if vector then putUint16 (of_nat (length entries)) @ entries else entries)"

definition keyShareList_ok :: "keyShareEntry list \<Rightarrow> bool \<Rightarrow> bool" where
  "keyShareList_ok ss vector \<longleftrightarrow>
     keyShares_ok ss \<and> (if vector then length (concat (map keyShareBytes ss)) \<le> 65535 else ss \<noteq> [])"

lemma rbind_let:
  "rbind (let (raw, p) = x in rbind (wpDone p) (\<lambda>_. Inr raw)) k = (let (raw, p) = x in rbind (wpDone p) (\<lambda>_. k raw))"
  by (simp add: case_prod_unfold rbind_assoc)

lemma parseKeySharesMode_iff:
  "parseKeySharesMode b vector = Inr ss \<longleftrightarrow> keyShareList_ok ss vector \<and> b = keyShareList ss vector"
proof (cases vector)
  case True
  have "parseKeySharesMode b True = Inr ss \<longleftrightarrow>
    (\<exists>raw. length raw \<le> 65535 \<and> b = putUint16 (of_nat (length raw)) @ raw \<and>
       keyShares_ok ss \<and> raw = concat (map keyShareBytes ss) \<and> (True \<or> ss \<noteq> []))"
    unfolding parseKeySharesMode_def if_True rbind_let parse_vector16
      parseKeySharesMode_entries [where vector = True, unfolded if_True] ..
  then show ?thesis using True by (auto simp: keyShareList_def keyShareList_ok_def Let_def)
next
  case False
  have "parseKeySharesMode b False = Inr ss \<longleftrightarrow> keyShares_ok ss \<and> b = concat (map keyShareBytes ss) \<and> (False \<or> ss \<noteq> [])"
    unfolding parseKeySharesMode_def if_False rbind_simps
      parseKeySharesMode_entries [where vector = False, unfolded if_False] ..
  then show ?thesis using False by (auto simp: keyShareList_def keyShareList_ok_def Let_def)
qed

lemma keySharesLength_iff:
  "keySharesLength n ss = Inr m \<longleftrightarrow>
   m = n + length (concat (map keyShareBytes ss)) \<and> (\<forall>s \<in> set ss. length (ks_data s) \<le> 65535)"
  by (induction ss arbitrary: n) auto

lemma marshalKeyShares_ok:
  assumes ok: "keyShareList_ok ss vector"
  shows "marshalKeyShares ss vector = Inr (keyShareList ss vector)"
proof -
  have data: "\<forall>s \<in> set ss. length (ks_data s) \<le> 65535" using ok by (simp add: keyShareList_ok_def keyShares_ok_def)
  then have len: "keySharesLength 0 ss = Inr (length (concat (map keyShareBytes ss)))" by (simp add: keySharesLength_iff)
  show ?thesis
  proof (cases vector)
    case True
    then have "length (concat (map keyShareBytes ss)) \<le> 65535" using ok by (simp add: keyShareList_ok_def)
    moreover have "(let (start, out) = startVector16 newWireBuilder;
        out = fold (\<lambda>s w. wbBytes16 (wbU16 w (uint (ks_group s))) (ks_data s)) ss out in endVector16 out start) =
      wbAppend newWireBuilder (putUint16 (of_nat (length (concat (map keyShareBytes ss)))) @ concat (map keyShareBytes ss))"
      using data calculation by (intro build_vector16) (auto simp: wbU16_word wb_vectors wbAppend_append keyShareBytes_def)
    ultimately show ?thesis using len True
      by (auto simp: marshalKeyShares_def keyShareList_def Let_def case_prod_unfold wbResult_append)
  next
    case False
    have "fold (\<lambda>s w. wbBytes16 (wbU16 w (uint (ks_group s))) (ks_data s)) ss newWireBuilder =
        wbAppend newWireBuilder (concat (map keyShareBytes ss))"
      using data by (intro wb_fold) (auto simp: wbU16_word wb_vectors wbAppend_append keyShareBytes_def)
    then show ?thesis using len False
      by (auto simp: marshalKeyShares_def keyShareList_def Let_def wbResult_append)
  qed
qed


interpretation key_share_codec: canonical_codec
  "\<lambda>ss. marshalKeyShares ss vector" "\<lambda>b. parseKeySharesMode b vector" "\<lambda>ss. keyShareList_ok ss vector" for vector
  by unfold_locales (auto simp: parseKeySharesMode_iff marshalKeyShares_ok)

lemma keyShareList_ok_iff:
  assumes "marshalKeyShares ss vector = Inr b"
  shows "keyShareList_ok ss vector \<longleftrightarrow> distinct (map ks_group ss) \<and> [] \<notin> ks_data ` set ss \<and> (vector \<or> ss \<noteq> [])"
  using assms by (auto simp: marshalKeyShares_def keySharesLength_iff keyShareList_ok_def keyShares_ok_def image_iff split: if_splits)

interpretation extension_list_codec: canonical_codec
  "\<lambda>es. wbResult (appendOrderedExtensions newWireBuilder es)" parseOrderedExtensionsView extensions_ok
proof
  fix es b
  show "\<exists>b. wbResult (appendOrderedExtensions newWireBuilder es) = Inr b" if "extensions_ok es"
    using that appendOrderedExtensions_ok [of newWireBuilder es] extensions_ok_value [OF that] by (simp add: extensions_ok_def wbResult_append)
  show "parseOrderedExtensionsView b = Inr es" if "extensions_ok es" "wbResult (appendOrderedExtensions newWireBuilder es) = Inr b"
    using that appendOrderedExtensions_ok [of newWireBuilder es] extensions_ok_value [OF that(1)]
    by (simp add: extensions_ok_def wbResult_append parseOrderedExtensionsView_iff)
  show "extensions_ok es \<and> wbResult (appendOrderedExtensions newWireBuilder es) = Inr b" if "parseOrderedExtensionsView b = Inr es"
    using that appendOrderedExtensions_ok [of newWireBuilder es] extensions_ok_value [of es]
    by (simp add: extensions_ok_def wbResult_append parseOrderedExtensionsView_iff)
qed

lemma value_small: "length (concat (map extensionBytes es)) \<le> 65535 \<Longrightarrow> e \<in> set es \<Longrightarrow> length (oe_value e) \<le> 65535"
  by (induction es) auto

lemma orderedExtensionsWireLength_ok:
  "(\<exists>n. orderedExtensionsWireLength es = Inr n) \<longleftrightarrow> length (concat (map extensionBytes es)) \<le> 65535"
  unfolding orderedExtensionsWireLength_def extensionsLengthFrom_iff using value_small [of es] by (cases es) auto

text \<open>
  C14. The key-share parser accepts exactly the encodings of share lists with pairwise different
  groups and no empty share, a server's list being non-empty, and returns the list. The duplicate
  detector, an array for the first eight groups and a map from the ninth on, therefore misses no
  duplicate and reports no false one, for any number of shares.\<close>

theorem key_shares_canonical:
  "parseKeySharesMode b vector = Inr ss \<longleftrightarrow>
   distinct (map ks_group ss) \<and> [] \<notin> ks_data ` set ss \<and> (if ss = [] then vector else True) \<and> marshalKeyShares ss vector = Inr b"
  using key_share_codec.dec_iff [of b vector ss] keyShareList_ok_iff [of ss vector b] by auto

text \<open>
  The parser of an extension list accepts exactly the bytes the list encoder writes for a list
  of pairwise different extension types whose length check succeeds, and returns the list in order.\<close>

lemma extension_list_canonical:
  "parseOrderedExtensionsView b = Inr es \<longleftrightarrow>
   distinct (map oe_typ es) \<and> (\<exists>n. orderedExtensionsWireLength es = Inr n) \<and>
   wbResult (appendOrderedExtensions newWireBuilder es) = Inr b"
  unfolding extension_list_codec.dec_iff orderedExtensionsWireLength_ok extensions_ok_def by blast


end
