(* ===== verification/Hello.thy ===== *)
theory Hello
  imports Extension_Lists "HOL-Library.Sublist"
begin

text \<open>
  The ClientHello and ServerHello messages of \<^verbatim>\<open>src/hello.go\<close>: the two structures, their encoders
  and their parsers, and the checks of what a ServerHello negotiates. A slice whose being nil is
  tested is an option, with \<open>None\<close> for nil; a parser is a sequence of stages in the order of the
  code, each a definition of its own. The array \<open>keyShareStorage\<close> is only backing memory.
\<close>

section \<open>Structures\<close>

record sessionTicketRequest =
  tr_enabled :: bool
  tr_newSessionCount :: u8
  tr_resumptionCount :: u8

record clientHello =
  ch_handshakeMetadata :: "bytes option"
  ch_random :: bytes
  ch_sessionID :: bytes
  ch_encryptedClientHelloExtension :: "bytes option"
  ch_cookie :: bytes
  ch_cipherSuites :: "u16 list"
  ch_keyShares :: "keyShareEntry list"
  ch_signatureSchemes :: "u16 list"
  ch_certificateSignatureSchemes :: "u16 list"
  ch_delegatedCredentialSchemes :: "u16 list"
  ch_supportedGroups :: "u16 list"
  ch_serverName :: bytes
  ch_alpn :: "bytes list"
  ch_pskIdentity :: bytes
  ch_obfuscatedAge :: u32
  ch_pskBinder :: bytes
  ch_pskIdentities :: "pskIdentityEntry list"
  ch_pskBinders :: "bytes list"
  ch_pskDHE :: bool
  ch_earlyData :: bool
  ch_ticketRequest :: sessionTicketRequest
  ch_connectionID :: bytes
  ch_hasConnectionID :: bool
  ch_returnRoutability :: bool
  ch_postHandshakeAuth :: bool
  ch_grease :: bool
  ch_recordSizeLimit :: u16
  ch_hasRecordSizeLimit :: bool
  ch_certificateCompressionOffered :: bool
  ch_statusRequest :: bool
  ch_statusRequestRaw :: bytes
  ch_unknownExtensions :: "(u16 \<times> bytes option) list"

definition emptyClientHello :: clientHello where
  "emptyClientHello =
     \<lparr>ch_handshakeMetadata = None, ch_random = replicate 32 0, ch_sessionID = [], ch_encryptedClientHelloExtension = None,
      ch_cookie = [], ch_cipherSuites = [], ch_keyShares = [], ch_signatureSchemes = [], ch_certificateSignatureSchemes = [],
      ch_delegatedCredentialSchemes = [], ch_supportedGroups = [], ch_serverName = [], ch_alpn = [], ch_pskIdentity = [],
      ch_obfuscatedAge = 0, ch_pskBinder = [], ch_pskIdentities = [], ch_pskBinders = [], ch_pskDHE = False,
      ch_earlyData = False, ch_ticketRequest = \<lparr>tr_enabled = False, tr_newSessionCount = 0, tr_resumptionCount = 0\<rparr>,
      ch_connectionID = [], ch_hasConnectionID = False, ch_returnRoutability = False, ch_postHandshakeAuth = False,
      ch_grease = False, ch_recordSizeLimit = 0, ch_hasRecordSizeLimit = False, ch_certificateCompressionOffered = False,
      ch_statusRequest = False, ch_statusRequestRaw = [], ch_unknownExtensions = []\<rparr>"

record serverHello =
  sh_random :: bytes
  sh_sessionID :: bytes
  sh_cipherSuite :: u16
  sh_keyShare :: keyShareEntry
  sh_selectedIdentity :: "u16 option"
  sh_connectionID :: bytes
  sh_hasConnectionID :: bool
  sh_returnRoutability :: bool

text \<open>\<open>append([]byte(nil), b...)\<close>, which is nil for an empty slice.\<close>

definition copySlice :: "bytes \<Rightarrow> bytes option" where
  "copySlice b = (if b = [] then None else Some b)"

definition nonNil :: "bytes option option \<Rightarrow> bytes option" where
  "nonNil v = (case v of Some (Some raw) \<Rightarrow> Some raw | _ \<Rightarrow> None)"

definition greaseExtension :: "clientHello \<Rightarrow> u16 option" where
  "greaseExtension h =
     (if ch_grease h then Some (greaseValue (ch_random h ! 0))
      else find (\<lambda>t. map_of (ch_unknownExtensions h) t \<noteq> None) (map (\<lambda>seed. greaseValue (of_nat seed)) [0 ..< 16]))"

definition setUnknown :: "u16 \<Rightarrow> bytes option \<Rightarrow> clientHello \<Rightarrow> clientHello" where
  "setUnknown t v h = h\<lparr>ch_unknownExtensions := AList.update t v (ch_unknownExtensions h)\<rparr>"

definition certificateCompressionAlgorithms :: "clientHello \<Rightarrow> bytes option" where
  "certificateCompressionAlgorithms h =
     (if \<not> ch_certificateCompressionOffered h then None
      else case map_of (ch_unknownExtensions h) extCompressCertificate of
             Some raw \<Rightarrow>
               (case parseCertificateCompressionAlgorithms (case raw of None \<Rightarrow> [] | Some b \<Rightarrow> b) of
                  Inl _ \<Rightarrow> None
                | Inr algorithms \<Rightarrow> Some algorithms)
           | None \<Rightarrow> Some certificateCompressionZlibOffer)"

section \<open>ServerHello validation\<close>

definition validateServerHelloConnectionID :: "clientHello option \<Rightarrow> serverHello option \<Rightarrow> unit result" where
  "validateServerHelloConnectionID hello sh =
     (case sh of
        None \<Rightarrow> Inr ()
      | Some s \<Rightarrow>
          if sh_hasConnectionID s \<and> (case hello of None \<Rightarrow> True | Some h \<Rightarrow> \<not> ch_hasConnectionID h)
            then Inl (alertError alertUnsupportedExtension (ProtocolError ''server negotiated an unoffered connection ID''))
          else Inr ())"

definition validateServerHelloReturnRoutability :: "clientHello option \<Rightarrow> serverHello option \<Rightarrow> unit result" where
  "validateServerHelloReturnRoutability hello sh =
     (case sh of
        None \<Rightarrow> Inr ()
      | Some s \<Rightarrow>
          if \<not> sh_returnRoutability s then Inr ()
          else if (case hello of None \<Rightarrow> True | Some h \<Rightarrow> \<not> ch_returnRoutability h)
            then Inl (alertError alertUnsupportedExtension (ProtocolError ''server negotiated an unoffered return routability check''))
          else if (case hello of None \<Rightarrow> True | Some h \<Rightarrow> \<not> ch_hasConnectionID h) \<or> \<not> sh_hasConnectionID s
            then Inl (alertError alertIllegalParameter (ProtocolError ''return routability check requires connection ID''))
          else Inr ())"


section \<open>Encoding a ClientHello\<close>

text \<open>A value that is only encoded under a condition, and an extension that is only added when it has a value.\<close>

definition encodeWhen :: "bool \<Rightarrow> bytes result \<Rightarrow> bytes option result" where
  "encodeWhen c m = (if c then rbind m (\<lambda>raw. Inr (Some raw)) else Inr None)"

definition optionalExtension :: "u16 \<Rightarrow> bytes option \<Rightarrow> orderedExtension list" where
  "optionalExtension t v = (case v of None \<Rightarrow> [] | Some raw \<Rightarrow> [\<lparr>oe_typ = t, oe_value = raw\<rparr>])"

abbreviation flagExtension :: "u16 \<Rightarrow> bool \<Rightarrow> bytes \<Rightarrow> orderedExtension list" where
  "flagExtension t c raw \<equiv> optionalExtension t (if c then Some raw else None)"

definition clientSupportedVersionsStorage :: bytes where
  "clientSupportedVersionsStorage = [2, 0xfe, 0xfc]"

definition serverSupportedVersionStorage :: bytes where
  "serverSupportedVersionStorage = [0xfe, 0xfc]"

definition marshalHelloPSK :: "clientHello \<Rightarrow> bytes option result" where
  "marshalHelloPSK h =
     (if ch_pskIdentities h \<noteq> []
        then rbind (marshalClientPSKs (ch_pskIdentities h) (ch_pskBinders h)) (\<lambda>psk. Inr (Some psk))
      else if ch_pskIdentity h \<noteq> []
        then rbind (marshalClientPSK (ch_pskIdentity h) (ch_obfuscatedAge h) (ch_pskBinder h)) (\<lambda>psk. Inr (Some psk))
      else if ch_pskBinder h \<noteq> [] \<or> ch_pskBinders h \<noteq> [] then Inl (ProtocolError ''PSK binder without identity'')
      else Inr None)"

record helloValues =
  hv_keyShares :: bytes
  hv_signatures :: bytes
  hv_groups :: bytes
  hv_certificateSignatures :: "bytes option"
  hv_serverName :: "bytes option"
  hv_alpn :: "bytes option"
  hv_cookie :: "bytes option"
  hv_connectionID :: "bytes option"
  hv_psk :: "bytes option"
  hv_certificateCompression :: "bytes option"
  hv_delegatedCredential :: "bytes option"
  hv_handshakeMetadata :: "bytes option"

definition marshalHelloValues :: "clientHello \<Rightarrow> helloValues result" where
  "marshalHelloValues h =
     rbind (marshalKeyShares (ch_keyShares h) True) (\<lambda>ks.
     rbind (marshalSignatureSchemes (ch_signatureSchemes h)) (\<lambda>signatures.
     rbind (marshalSupportedGroups (ch_supportedGroups h) (ch_keyShares h)) (\<lambda>groups.
     rbind (encodeWhen (ch_certificateSignatureSchemes h \<noteq> []) (marshalSignatureSchemes (ch_certificateSignatureSchemes h))) (\<lambda>certificateSignatures.
     rbind (encodeWhen (ch_serverName h \<noteq> []) (marshalServerName (ch_serverName h))) (\<lambda>serverName.
     rbind (encodeWhen (ch_alpn h \<noteq> []) (marshalALPN (ch_alpn h))) (\<lambda>alpn.
     rbind (encodeWhen (ch_cookie h \<noteq> []) (marshalCookie (ch_cookie h))) (\<lambda>cookie.
     rbind (encodeWhen (ch_hasConnectionID h) (marshalConnectionID (ch_connectionID h))) (\<lambda>connectionID.
     rbind (marshalHelloPSK h) (\<lambda>psk.
     rbind (encodeWhen (ch_certificateCompressionOffered h)
              (marshalCertificateCompressionAlgorithms (certificateCompressionAlgorithms h))) (\<lambda>certificateCompression.
     rbind (encodeWhen (ch_delegatedCredentialSchemes h \<noteq> []) (marshalSignatureSchemes (ch_delegatedCredentialSchemes h))) (\<lambda>delegated.
     rbind (case ch_handshakeMetadata h of
              None \<Rightarrow> Inr None
            | Some data \<Rightarrow> rbind (marshalHandshakeMetadata data) (\<lambda>raw. Inr (Some raw))) (\<lambda>metadata.
     Inr \<lparr>hv_keyShares = ks, hv_signatures = signatures, hv_groups = groups, hv_certificateSignatures = certificateSignatures,
          hv_serverName = serverName, hv_alpn = alpn, hv_cookie = cookie, hv_connectionID = connectionID, hv_psk = psk,
          hv_certificateCompression = certificateCompression, hv_delegatedCredential = delegated,
          hv_handshakeMetadata = metadata\<rparr>))))))))))))"

definition helloExtensions :: "clientHello \<Rightarrow> helloValues \<Rightarrow> orderedExtension list" where
  "helloExtensions h v =
     optionalExtension extServerName (hv_serverName v) @
     [\<lparr>oe_typ = extSupportedGroups, oe_value = hv_groups v\<rparr>, \<lparr>oe_typ = extSignatureAlgorithms, oe_value = hv_signatures v\<rparr>] @
     optionalExtension extSignatureAlgorithmsCert (hv_certificateSignatures v) @
     optionalExtension extDelegatedCredential (hv_delegatedCredential v) @
     optionalExtension extCertificateAuthorities (nonNil (map_of (ch_unknownExtensions h) extCertificateAuthorities)) @
     concat (map (\<lambda>t. optionalExtension t (nonNil (map_of (ch_unknownExtensions h) t)))
       [extClientCertificateType, extServerCertificateType, extCachedInfo]) @
     optionalExtension extALPN (hv_alpn v) @
     optionalExtension extCompressCertificate (hv_certificateCompression v) @
     flagExtension extStatusRequest (ch_statusRequest h) marshalStatusRequest @
     flagExtension extRecordSizeLimit (ch_hasRecordSizeLimit h) (putUint16 (ch_recordSizeLimit h)) @
     [\<lparr>oe_typ = extSupportedVersions, oe_value = clientSupportedVersionsStorage\<rparr>] @
     optionalExtension extCookie (hv_cookie v) @
     [\<lparr>oe_typ = extKeyShare, oe_value = hv_keyShares v\<rparr>] @
     flagExtension extPostHandshakeAuth (ch_postHandshakeAuth h) [] @
     flagExtension extTicketRequest (tr_enabled (ch_ticketRequest h))
       [tr_newSessionCount (ch_ticketRequest h), tr_resumptionCount (ch_ticketRequest h)] @
     optionalExtension extConnectionID (hv_connectionID v) @
     flagExtension extReturnRoutability (ch_returnRoutability h) [] @
     flagExtension extEarlyData (ch_earlyData h) [] @
     optionalExtension extECH (ch_encryptedClientHelloExtension h) @
     (case greaseExtension h of None \<Rightarrow> [] | Some grease \<Rightarrow> [\<lparr>oe_typ = grease, oe_value = []\<rparr>]) @
     optionalExtension extHandshakeMetadata (hv_handshakeMetadata v) @
     flagExtension extPSKKeyExchangeModes (hv_psk v \<noteq> None \<or> ch_pskDHE h) marshalPSKKeyExchangeModes @
     optionalExtension extPreSharedKey (hv_psk v)"

definition marshalClientHello :: "clientHello \<Rightarrow> bytes result" where
  "marshalClientHello h =
     (if ch_cipherSuites h = [] then Inl (ProtocolError ''ClientHello has no cipher suites'')
      else if ch_hasRecordSizeLimit h \<and> (ch_recordSizeLimit h < minRecordSizeLimit \<or> defaultRecordSizeLimit < ch_recordSizeLimit h)
        then Inl (ProtocolError ''invalid record_size_limit'')
      else
        rbind (marshalHelloValues h) (\<lambda>v.
        let extensions = helloExtensions h v in
        rbind (orderedExtensionsWireLength extensions) (\<lambda>_.
        if 255 < length (ch_sessionID h) then Inl (ProtocolError ''8-bit vector overflow'')
        else if 65535 div 2 < length (ch_cipherSuites h) then Inl (ProtocolError ''16-bit vector overflow'')
        else
          let w = wbU16 newWireBuilder (uint dtlsLegacyVersion);
              w = wbAppend w (ch_random h);
              w = wbBytes8 w (ch_sessionID h);
              w = wbBytes8 w [];
              (start, w) = startVector16 w;
              w = wbU16List (ch_cipherSuites h) w;
              w = endVector16 w start;
              w = wbBytes8 w [0];
              w = appendOrderedExtensions w extensions
          in wbResult w)))"

section \<open>Parsing a ClientHello\<close>

definition onExtension :: "orderedExtension list \<Rightarrow> u16 \<Rightarrow> (bytes \<Rightarrow> 's \<Rightarrow> 's result) \<Rightarrow> 's \<Rightarrow> 's result" where
  "onExtension exts t f h = (case orderedExtensionValue exts t of None \<Rightarrow> Inr h | Some raw \<Rightarrow> f raw h)"

definition parseHelloLegacy :: "bytes \<Rightarrow> (clientHello \<times> bytes) result" where
  "parseHelloLegacy b =
     (let (version, p) = wpU16 (newWireParser b) in
      if version \<noteq> unat dtlsLegacyVersion then Inl (ProtocolError ''invalid ClientHello legacy version'')
      else
        let (random, p) = wpTake p 32;
            (sessionID, p) = wpBytes8 p;
            (legacyCookie, p) = wpBytes8 p;
            (suites, p) = wpBytes16 p;
            (compression, p) = wpBytes8 p;
            (extBytes, p) = wpTake p (int (length (wp_b p)) - int (wp_off p))
        in rbind (wpDone p) (\<lambda>_.
           if length legacyCookie \<noteq> 0
             then Inl (alertError alertIllegalParameter (ProtocolError ''DTLS 1.3 ClientHello legacy_cookie must be empty''))
           else if 32 < length sessionID \<or> length suites < 2 \<or> length suites mod 2 \<noteq> 0 \<or> length compression \<noteq> 1 \<or> compression ! 0 \<noteq> 0
             then Inl (decodeError ''invalid ClientHello legacy fields'')
           else Inr (emptyClientHello\<lparr>ch_random := copy_at 0 random (replicate 32 0), ch_sessionID := sessionID,
                       ch_cipherSuites := u16List suites\<rparr>, extBytes)))"

definition parsedLater :: "u16 list" where
  "parsedLater =
     [extServerName, extSupportedGroups, extSignatureAlgorithms, extSignatureAlgorithmsCert, extCertificateAuthorities, extALPN,
      extPadding, extCompressCertificate, extRecordSizeLimit, extSupportedVersions, extCookie, extKeyShare, extPostHandshakeAuth,
      extConnectionID, extTicketRequest, extReturnRoutability, extEarlyData, extPSKKeyExchangeModes, extPreSharedKey, extECH,
      extStatusRequest]"

definition classifyExtension :: "clientHello \<Rightarrow> orderedExtension \<Rightarrow> clientHello result" where
  "classifyExtension h e =
     (let t = oe_typ e; value = oe_value e in
      if t \<in> set parsedLater then Inr h
      else if t = extOIDFilters
        then Inl (alertError alertIllegalParameter (ProtocolError ''oid_filters is not permitted in ClientHello''))
      else if t = extHandshakeMetadata
        then rbind (parseHandshakeMetadata value) (\<lambda>data. Inr (h\<lparr>ch_handshakeMetadata := Some data\<rparr>))
      else if t = extDelegatedCredential
        then rbind (parseSignatureSchemes value) (\<lambda>schemes. Inr (h\<lparr>ch_delegatedCredentialSchemes := schemes\<rparr>))
      else if t = extCachedInfo
        then rbind (parseCachedInformationOffer value) (\<lambda>_. Inr (setUnknown t (copySlice value) h))
      else if t = extClientCertificateType \<or> t = extServerCertificateType
        then rbind (parseCertificateTypes value) (\<lambda>_. Inr (setUnknown t (copySlice value) h))
      else if t = greaseValue (ch_random h ! 0) \<and> length value = 0 then Inr (h\<lparr>ch_grease := True\<rparr>)
      else Inr (setUnknown t (copySlice value) h))"

fun classifyExtensions :: "clientHello \<Rightarrow> orderedExtension list \<Rightarrow> clientHello result" where
  "classifyExtensions h [] = Inr h"
| "classifyExtensions h (e # es) = rbind (classifyExtension h e) (\<lambda>h. classifyExtensions h es)"

definition parseHelloECH :: "orderedExtension list \<Rightarrow> clientHello \<Rightarrow> clientHello result" where
  "parseHelloECH exts h =
     (if orderedExtensionValue exts extECHOuterExtensions \<noteq> None
        then Inl (alertError alertIllegalParameter (ProtocolError ''ech_outer_extensions is only valid in EncodedClientHelloInner''))
      else
        onExtension exts extECH (\<lambda>raw h.
          case parseECHExt raw of
            Inl parseErr \<Rightarrow> Inl (alertError (if parseErr = errInvalidECHExt then alertIllegalParameter else alertDecodeError) parseErr)
          | Inr _ \<Rightarrow> Inr (h\<lparr>ch_encryptedClientHelloExtension := copySlice raw\<rparr>)) h)"

definition checkHelloVersions :: "orderedExtension list \<Rightarrow> unit result" where
  "checkHelloVersions exts =
     (case orderedExtensionValue exts extSupportedVersions of
        None \<Rightarrow> Inl (alertError alertProtocolVersion (ProtocolError ''ClientHello has no supported_versions extension''))
      | Some versions \<Rightarrow>
          rbind (parseClientSupportedVersions versions) (\<lambda>offered.
            if \<not> offered then Inl (alertError alertProtocolVersion (ProtocolError ''ClientHello does not offer DTLS 1.3''))
            else Inr ()))"

definition parseHelloSignatures :: "(bytes \<Rightarrow> bool) \<Rightarrow> orderedExtension list \<Rightarrow> clientHello \<Rightarrow> clientHello result" where
  "parseHelloSignatures validName exts h =
     rbind (onExtension exts extSignatureAlgorithms
       (\<lambda>raw h. rbind (parseSignatureSchemes raw) (\<lambda>schemes. Inr (h\<lparr>ch_signatureSchemes := schemes\<rparr>))) h) (\<lambda>h.
     rbind (onExtension exts extSignatureAlgorithmsCert
       (\<lambda>raw h. rbind (parseSignatureSchemes raw) (\<lambda>schemes. Inr (h\<lparr>ch_certificateSignatureSchemes := schemes\<rparr>))) h) (\<lambda>h.
     onExtension exts extCertificateAuthorities
       (\<lambda>authorities h. rbind (forEachCertificateAuthority validName authorities) (\<lambda>_.
          Inr (setUnknown extCertificateAuthorities (copySlice authorities) h))) h))"


text \<open>The inner loop that looks for a share's group among the groups not yet passed.\<close>

fun seekGroup :: "u16 \<Rightarrow> u16 list \<Rightarrow> u16 list option" where
  "seekGroup g [] = None"
| "seekGroup g (candidate # groups) = (if candidate = g then Some groups else seekGroup g groups)"

fun checkShareOrder :: "u16 list \<Rightarrow> keyShareEntry list \<Rightarrow> unit result" where
  "checkShareOrder groups [] = Inr ()"
| "checkShareOrder groups (share # shares) =
     (case seekGroup (ks_group share) groups of
        None \<Rightarrow> Inl (alertError alertIllegalParameter (ProtocolError ''key_share groups are not an ordered subset of supported_groups''))
      | Some groups' \<Rightarrow> checkShareOrder groups' shares)"

definition parseHelloShares :: "orderedExtension list \<Rightarrow> clientHello \<Rightarrow> clientHello result" where
  "parseHelloShares exts h =
     (let groupsRaw = orderedExtensionValue exts extSupportedGroups;
          ks = orderedExtensionValue exts extKeyShare
      in rbind (case (groupsRaw, ks) of
                  (None, None) \<Rightarrow> Inr h
                | (Some groups, Some shares) \<Rightarrow>
                    rbind (parseSupportedGroups groups) (\<lambda>supportedGroups.
                    rbind (parseKeySharesMode shares True) (\<lambda>keyShares.
                    Inr (h\<lparr>ch_supportedGroups := supportedGroups, ch_keyShares := keyShares\<rparr>)))
                | _ \<Rightarrow> Inl (alertError alertMissingExtension (ProtocolError ''supported_groups and key_share must be offered together'')))
         (\<lambda>h. rbind (checkShareOrder (ch_supportedGroups h) (ch_keyShares h)) (\<lambda>_. Inr h)))"

definition parseHelloNames :: "orderedExtension list \<Rightarrow> clientHello \<Rightarrow> clientHello result" where
  "parseHelloNames exts h =
     rbind (onExtension exts extServerName
       (\<lambda>raw h. rbind (parseServerName raw) (\<lambda>name. Inr (h\<lparr>ch_serverName := name\<rparr>))) h) (\<lambda>h.
     rbind (onExtension exts extALPN
       (\<lambda>raw h. rbind (parseALPN raw) (\<lambda>alpn. Inr (h\<lparr>ch_alpn := alpn\<rparr>))) h) (\<lambda>h.
     onExtension exts extTicketRequest
       (\<lambda>raw h. if length raw \<noteq> 2 then Inl (decodeError ''invalid ticket_request extension length'')
                else Inr (h\<lparr>ch_ticketRequest := \<lparr>tr_enabled = True, tr_newSessionCount = raw ! 0, tr_resumptionCount = raw ! 1\<rparr>\<rparr>)) h))"

definition parseHelloCompression :: "orderedExtension list \<Rightarrow> clientHello \<Rightarrow> clientHello result" where
  "parseHelloCompression exts h =
     onExtension exts extCompressCertificate
       (\<lambda>raw h.
          let h = h\<lparr>ch_certificateCompressionOffered := True\<rparr>;
              h = (if length raw \<noteq> 3 \<or> raw ! 0 \<noteq> 2 \<or> raw ! 1 \<noteq> 0 \<or> raw ! 2 \<noteq> 1
                     then setUnknown extCompressCertificate (copySlice raw) h else h)
          in rbind (parseCertificateCompressionAlgorithms raw) (\<lambda>_. Inr h)) h"

definition parseHelloLimits :: "orderedExtension list \<Rightarrow> clientHello \<Rightarrow> clientHello result" where
  "parseHelloLimits exts h =
     rbind (onExtension exts extRecordSizeLimit
       (\<lambda>raw h. rbind (parseRecordSizeLimit raw False) (\<lambda>limit.
          Inr (h\<lparr>ch_recordSizeLimit := limit, ch_hasRecordSizeLimit := True\<rparr>))) h) (\<lambda>h.
     rbind (onExtension exts extStatusRequest
       (\<lambda>raw h. rbind (parseStatusRequest raw) (\<lambda>status.
          Inr (h\<lparr>ch_statusRequestRaw := raw, ch_statusRequest := status\<rparr>))) h) (\<lambda>h.
     rbind (onExtension exts extCookie
       (\<lambda>raw h. rbind (parseCookie raw) (\<lambda>cookie. Inr (h\<lparr>ch_cookie := cookie\<rparr>))) h) (\<lambda>h.
     onExtension exts extConnectionID
       (\<lambda>raw h. rbind (parseConnectionID raw) (\<lambda>cid. Inr (h\<lparr>ch_connectionID := cid, ch_hasConnectionID := True\<rparr>))) h)))"

definition emptyExtension :: "string \<Rightarrow> (clientHello \<Rightarrow> clientHello) \<Rightarrow> bytes \<Rightarrow> clientHello \<Rightarrow> clientHello result" where
  "emptyExtension text set_flag raw h = (if length raw \<noteq> 0 then Inl (decodeError text) else Inr (set_flag h))"

definition parseHelloFlags :: "orderedExtension list \<Rightarrow> clientHello \<Rightarrow> clientHello result" where
  "parseHelloFlags exts h =
     rbind (onExtension exts extReturnRoutability
       (emptyExtension ''invalid rrc extension length'' (\<lambda>h. h\<lparr>ch_returnRoutability := True\<rparr>)) h) (\<lambda>h.
     rbind (onExtension exts extPostHandshakeAuth
       (emptyExtension ''invalid post_handshake_auth extension length'' (\<lambda>h. h\<lparr>ch_postHandshakeAuth := True\<rparr>)) h) (\<lambda>h.
     rbind (onExtension exts extEarlyData
       (emptyExtension ''invalid early_data extension length'' (\<lambda>h. h\<lparr>ch_earlyData := True\<rparr>)) h) (\<lambda>h.
     rbind (onExtension exts extPadding
       (\<lambda>raw h. if list_ex (\<lambda>value. value \<noteq> 0) raw
                  then Inl (alertError alertIllegalParameter (ProtocolError ''ClientHello padding contains non-zero data''))
                else Inr h) h) (\<lambda>h.
     onExtension exts extPSKKeyExchangeModes
       (\<lambda>modes h. rbind (parsePSKKeyExchangeModes modes) (\<lambda>dhe. Inr (h\<lparr>ch_pskDHE := dhe\<rparr>))) h))))"

definition parseHelloPSK :: "orderedExtension list \<Rightarrow> clientHello \<Rightarrow> clientHello result" where
  "parseHelloPSK exts h =
     onExtension exts extPreSharedKey
       (\<lambda>raw h.
          if length exts = 0 \<or> oe_typ (last exts) \<noteq> extPreSharedKey
            then Inl (ProtocolError ''pre_shared_key must be the last ClientHello extension'')
          else if orderedExtensionValue exts extPSKKeyExchangeModes = None
            then Inl (alertError alertMissingExtension (ProtocolError ''pre_shared_key without psk_key_exchange_modes''))
          else rbind (parseClientPSKs raw) (\<lambda>(identities, binders).
            Inr (h\<lparr>ch_pskIdentities := identities, ch_pskBinders := binders, ch_pskIdentity := psk_identity (identities ! 0),
                   ch_obfuscatedAge := psk_obfuscatedAge (identities ! 0), ch_pskBinder := binders ! 0\<rparr>))) h"

definition checkHello :: "orderedExtension list \<Rightarrow> clientHello \<Rightarrow> clientHello result" where
  "checkHello exts h =
     (if ch_earlyData h \<and> length (ch_pskIdentity h) = 0 then Inl (ProtocolError ''early_data without pre_shared_key'')
      else if length (ch_pskIdentity h) = 0 \<and> length (ch_signatureSchemes h) = 0
        then Inl (alertError alertMissingExtension (ProtocolError ''certificate ClientHello has no signature_algorithms''))
      else if length (ch_pskIdentity h) = 0 \<and> orderedExtensionValue exts extSupportedGroups = None
        then Inl (alertError alertMissingExtension (ProtocolError ''certificate ClientHello has no supported_groups or key_share''))
      else Inr h)"

definition parseClientHello :: "(bytes \<Rightarrow> bool) \<Rightarrow> bytes \<Rightarrow> clientHello result" where
  "parseClientHello validName b =
     rbind (parseHelloLegacy b) (\<lambda>(h, extBytes).
     rbind (parseOrderedExtensionsView extBytes) (\<lambda>exts.
     rbind (classifyExtensions h exts) (\<lambda>h.
     rbind (parseHelloECH exts h) (\<lambda>h.
     rbind (checkHelloVersions exts) (\<lambda>_.
     rbind (parseHelloSignatures validName exts h) (\<lambda>h.
     rbind (parseHelloShares exts h) (\<lambda>h.
     rbind (parseHelloNames exts h) (\<lambda>h.
     rbind (parseHelloCompression exts h) (\<lambda>h.
     rbind (parseHelloLimits exts h) (\<lambda>h.
     rbind (parseHelloFlags exts h) (\<lambda>h.
     rbind (parseHelloPSK exts h) (\<lambda>h.
     checkHello exts h))))))))))))"

section \<open>ServerHello\<close>

definition addExtension :: "nat \<Rightarrow> nat \<Rightarrow> nat result" where
  "addExtension extsLength valueLength =
     (if 65535 < valueLength \<or> 65535 - 4 - int valueLength < int extsLength then Inl (ProtocolError ''16-bit vector overflow'')
      else Inr (extsLength + 4 + valueLength))"

definition addExtensionWhen :: "bool \<Rightarrow> nat \<Rightarrow> nat \<Rightarrow> nat result" where
  "addExtensionWhen c extsLength valueLength = (if c then addExtension extsLength valueLength else Inr extsLength)"

definition writeServerExtensions :: "serverHello \<Rightarrow> wireBuilder \<Rightarrow> wireBuilder" where
  "writeServerExtensions h w =
     (let (start, w) = startVector16 w;
          w = wbBytes16 (wbU16 w (uint extSupportedVersions)) serverSupportedVersionStorage;
          w = wbU16 (wbU16 w (uint extKeyShare)) (4 + int (length (ks_data (sh_keyShare h))));
          w = wbBytes16 (wbU16 w (uint (ks_group (sh_keyShare h)))) (ks_data (sh_keyShare h));
          w = (if sh_hasConnectionID h
                 then wbBytes8 (wbU16 (wbU16 w (uint extConnectionID)) (1 + int (length (sh_connectionID h)))) (sh_connectionID h)
               else w);
          w = (if sh_returnRoutability h then wbU16 (wbU16 w (uint extReturnRoutability)) 0 else w);
          w = (case sh_selectedIdentity h of
                 None \<Rightarrow> w
               | Some selected \<Rightarrow> wbU16 (wbU16 (wbU16 w (uint extPreSharedKey)) 2) (uint selected))
      in endVector16 w start)"

definition writeServerHello :: "serverHello \<Rightarrow> bytes result" where
  "writeServerHello h =
     (let w = wbU16 newWireBuilder (uint dtlsLegacyVersion);
          w = wbAppend w (sh_random h);
          w = wbBytes8 w (sh_sessionID h);
          w = wbU16 w (uint (sh_cipherSuite h));
          w = wbU8 w 0
      in wbResult (writeServerExtensions h w))"

definition marshalServerHello :: "serverHello \<Rightarrow> bytes result" where
  "marshalServerHello h =
     (if length (sh_sessionID h) \<noteq> 0
        then Inl (alertError alertIllegalParameter (ProtocolError ''DTLS 1.3 ServerHello legacy_session_id must be empty''))
      else if 65535 < length (ks_data (sh_keyShare h)) then Inl (ProtocolError ''16-bit vector overflow'')
      else if sh_hasConnectionID h \<and> 255 < length (sh_connectionID h) then Inl (ProtocolError ''8-bit vector overflow'')
      else
        rbind (addExtension 2 2) (\<lambda>n.
        rbind (addExtension n (4 + length (ks_data (sh_keyShare h)))) (\<lambda>n.
        rbind (addExtensionWhen (sh_hasConnectionID h) n (1 + length (sh_connectionID h))) (\<lambda>n.
        rbind (addExtensionWhen (sh_returnRoutability h) n 0) (\<lambda>n.
        rbind (addExtensionWhen (sh_selectedIdentity h \<noteq> None) n 2) (\<lambda>_.
        writeServerHello h))))))"

definition serverHelloExtensions :: "u16 list" where
  "serverHelloExtensions = [extSupportedVersions, extKeyShare, extConnectionID, extReturnRoutability, extPreSharedKey]"

fun checkServerExtensions :: "orderedExtension list \<Rightarrow> unit result" where
  "checkServerExtensions [] = Inr ()"
| "checkServerExtensions (e # es) =
     (if oe_typ e \<in> set serverHelloExtensions then checkServerExtensions es
      else if knownExtensionType (oe_typ e)
        then Inl (alertError alertIllegalParameter (ProtocolError ''recognized extension is not permitted in ServerHello''))
      else Inl (alertError alertUnsupportedExtension (ProtocolError ''unsupported ServerHello extension'')))"


definition parseServerLegacy :: "bytes \<Rightarrow> (bytes \<times> bytes \<times> u16 \<times> bytes) result" where
  "parseServerLegacy b =
     (let (version, p) = wpU16 (newWireParser b) in
      if version \<noteq> unat dtlsLegacyVersion then Inl (ProtocolError ''invalid ServerHello legacy version'')
      else
        let (random, p) = wpTake p 32;
            (sessionID, p) = wpBytes8 p;
            (suite, p) = wpU16 p;
            (compression, p) = wpU8 p
        in if compression \<noteq> 0 then Inl (ProtocolError ''invalid ServerHello compression method'')
           else
             let (extBytes, p) = wpTake p (int (length (wp_b p)) - int (wp_off p)) in
             rbind (wpDone p) (\<lambda>_.
               if length sessionID \<noteq> 0 then Inl (ProtocolError ''DTLS 1.3 ServerHello legacy_session_id must be empty'')
               else Inr (copy_at 0 random (replicate 32 0), sessionID, of_nat suite, extBytes)))"

definition checkServerVersion :: "orderedExtension list \<Rightarrow> unit result" where
  "checkServerVersion exts =
     (case orderedExtensionValue exts extSupportedVersions of
        None \<Rightarrow> Inl (alertError alertProtocolVersion (ProtocolError ''ServerHello has no supported_versions extension''))
      | Some v \<Rightarrow>
          if length v \<noteq> 2 then Inl (decodeError ''invalid ServerHello supported_versions length'')
          else if getUint16 v \<noteq> VersionDTLS13
            then Inl (alertError alertIllegalParameter (ProtocolError ''server did not select DTLS 1.3''))
          else Inr ())"

definition parseServerShare :: "orderedExtension list \<Rightarrow> keyShareEntry result" where
  "parseServerShare exts =
     (case orderedExtensionValue exts extKeyShare of
        None \<Rightarrow> Inl (alertError alertMissingExtension (ProtocolError ''ServerHello has no key_share''))
      | Some raw \<Rightarrow>
          rbind (parseKeySharesMode raw False) (\<lambda>shares.
            if length shares \<noteq> 1 then Inl (ProtocolError ''ServerHello must contain one key share'')
            else Inr (shares ! 0)))"

definition parseServerOptions :: "orderedExtension list \<Rightarrow> serverHello \<Rightarrow> serverHello result" where
  "parseServerOptions exts h =
     rbind (onExtension exts extConnectionID
       (\<lambda>raw h. rbind (parseConnectionID raw) (\<lambda>cid. Inr (h\<lparr>sh_connectionID := cid, sh_hasConnectionID := True\<rparr>))) h) (\<lambda>h.
     rbind (onExtension exts extReturnRoutability
       (\<lambda>raw h. if length raw \<noteq> 0 then Inl (decodeError ''invalid ServerHello rrc extension length'')
                else Inr (h\<lparr>sh_returnRoutability := True\<rparr>)) h) (\<lambda>h.
     onExtension exts extPreSharedKey
       (\<lambda>raw h. if length raw \<noteq> 2 then Inl (decodeError ''invalid ServerHello pre_shared_key extension length'')
                else Inr (h\<lparr>sh_selectedIdentity := Some (getUint16 raw)\<rparr>)) h))"

definition parseServerHello :: "bytes \<Rightarrow> serverHello result" where
  "parseServerHello b =
     rbind (parseServerLegacy b) (\<lambda>(random, sessionID, suite, extBytes).
     rbind (parseOrderedExtensionsView extBytes) (\<lambda>exts.
     rbind (checkServerExtensions exts) (\<lambda>_.
     rbind (checkServerVersion exts) (\<lambda>_.
     rbind (parseServerShare exts) (\<lambda>share.
     parseServerOptions exts
       \<lparr>sh_random = random, sh_sessionID = sessionID, sh_cipherSuite = suite, sh_keyShare = share, sh_selectedIdentity = None,
        sh_connectionID = [], sh_hasConnectionID = False, sh_returnRoutability = False\<rparr>)))))"

end
