(* ===== verification/Hello_Correct.thy ===== *)
theory Hello_Correct
  imports Hello
begin

text \<open>
  What the hello parsers accept and that they read back what the encoders write.
\<close>

section \<open>Reading one field after the other\<close>

lemma wp_next:
  "good p \<Longrightarrow> rest p = x # r \<Longrightarrow> \<exists>p'. wpU8 p = (unat x, p') \<and> good p' \<and> rest p' = r"
  "good p \<Longrightarrow> rest p = putUint16 y @ r \<Longrightarrow> \<exists>p'. wpU16 p = (unat y, p') \<and> good p' \<and> rest p' = r"
  "good p \<Longrightarrow> rest p = a @ r \<Longrightarrow> length a = n \<Longrightarrow> \<exists>p'. wpTake p (int n) = (a, p') \<and> good p' \<and> rest p' = r"
  "good p \<Longrightarrow> rest p = of_nat (length v) # v @ r \<Longrightarrow> length v \<le> 255 \<Longrightarrow>
   \<exists>p'. wpBytes8 p = (v, p') \<and> good p' \<and> rest p' = r"
  "good p \<Longrightarrow> rest p = putUint16 (of_nat (length v)) @ v @ r \<Longrightarrow> length v \<le> 65535 \<Longrightarrow>
   \<exists>p'. wpBytes16 p = (v, p') \<and> good p' \<and> rest p' = r"
  using wpNumbers_good(1,2) wpTake_good wpVectors_good(1,2) good_adv rest_adv by (fastforce simp: rest_adv)+

lemma wp_remaining:
  assumes "good p" shows "\<exists>p'. wpTake p (int (length (wp_b p)) - int (wp_off p)) = (rest p, p') \<and> wpDone p' = Inr ()"
proof -
  have n: "int (length (wp_b p)) - int (wp_off p) = int (length (rest p))" using length_rest [OF assms] good_bound [OF assms] by simp
  show ?thesis unfolding n using wp_next(3) [OF assms, of "rest p" "[]"] good_done by fastforce
qed


section \<open>Looking up extensions\<close>

lemma lookup_simps [simp]:
  "orderedExtensionValue [] t = None"
  "orderedExtensionValue (e # es) t = (if oe_typ e = t then Some (oe_value e) else orderedExtensionValue es t)"
  "orderedExtensionValue (optionalExtension u v @ es) t = (if u = t \<and> v \<noteq> None then v else orderedExtensionValue es t)"
  "orderedExtensionValue (optionalExtension u v) t = (if u = t then v else None)"
  by (auto simp: orderedExtensionValue_def optionalExtension_def split: option.splits)

lemma lookup_append:
  "orderedExtensionValue (xs @ ys) t =
     (case orderedExtensionValue xs t of None \<Rightarrow> orderedExtensionValue ys t | Some v \<Rightarrow> Some v)"
  by (induction xs) auto

lemma lookup_None_iff: "orderedExtensionValue es t = None \<longleftrightarrow> t \<notin> oe_typ ` set es"
  by (auto simp: orderedExtensionValue_def find_None_iff)

lemma lookup_member: "orderedExtensionValue es t = Some v \<Longrightarrow> \<lparr>oe_typ = t, oe_value = v\<rparr> \<in> set es"
  by (induction es) (auto split: if_splits)

lemma onExtension_simps [simp]:
  "orderedExtensionValue es t = None \<Longrightarrow> onExtension es t f h = Inr h"
  "orderedExtensionValue es t = Some raw \<Longrightarrow> onExtension es t f h = f raw h"
  by (simp_all add: onExtension_def)

lemma onExtension_Inr:
  "onExtension es t f h = Inr h' \<longleftrightarrow>
   (orderedExtensionValue es t = None \<and> h' = h) \<or> (\<exists>raw. orderedExtensionValue es t = Some raw \<and> f raw h = Inr h')"
  by (auto simp: onExtension_def split: option.splits)

lemma optional_typ [simp]: "map oe_typ (optionalExtension t v) = (if v = None then [] else [t])"
  by (simp add: optionalExtension_def split: option.splits)

lemma optional_set: "e \<in> set (optionalExtension t v) \<longleftrightarrow> v \<noteq> None \<and> oe_typ e = t \<and> Some (oe_value e) = v"
  by (cases e) (auto simp: optionalExtension_def split: option.splits)

section \<open>The fixed part of the messages\<close>

definition helloLegacyBytes :: "bytes \<Rightarrow> bytes \<Rightarrow> u16 list \<Rightarrow> bytes" where
  "helloLegacyBytes random sessionID suites =
     putUint16 dtlsLegacyVersion @ random @ (of_nat (length sessionID) # sessionID) @ [0] @
     putUint16 (of_nat (2 * length suites)) @ putU16s suites @ [1, 0]"

definition helloStart :: "bytes \<Rightarrow> bytes \<Rightarrow> u16 list \<Rightarrow> clientHello" where
  "helloStart random sessionID suites =
     emptyClientHello\<lparr>ch_random := random, ch_sessionID := sessionID, ch_cipherSuites := suites\<rparr>"

lemma parseHelloLegacy_run:
  assumes r: "length random = 32" and s: "length sessionID \<le> 32" and c: "suites \<noteq> []" "length suites \<le> 32767"
  shows "parseHelloLegacy (helloLegacyBytes random sessionID suites @ exts) = Inr (helloStart random sessionID suites, exts)"
proof -
  let ?b = "helloLegacyBytes random sessionID suites @ exts"
  obtain p1 where p1: "wpU16 (newWireParser ?b) = (unat dtlsLegacyVersion, p1)" "good p1"
    "rest p1 = random @ (of_nat (length sessionID) # sessionID) @ [0] @ putUint16 (of_nat (2 * length suites)) @ putU16s suites @ [1, 0] @ exts"
    using wp_next(2) [of "newWireParser ?b" dtlsLegacyVersion] by (auto simp: helloLegacyBytes_def)
  from wp_next(3) [OF p1(2) this(3) r] obtain p2 where p2: "wpTake p1 32 = (random, p2)" "good p2"
    "rest p2 = of_nat (length sessionID) # sessionID @ [0] @ putUint16 (of_nat (2 * length suites)) @ putU16s suites @ [1, 0] @ exts" by auto
  from wp_next(4) [OF p2(2,3)] s obtain p3 where p3: "wpBytes8 p2 = (sessionID, p3)" "good p3"
    "rest p3 = of_nat (length ([] :: bytes)) # [] @ putUint16 (of_nat (length (putU16s suites))) @ putU16s suites @ [1, 0] @ exts" by auto
  from wp_next(4) [OF p3(2,3)] obtain p4 where p4: "wpBytes8 p3 = ([], p4)" "good p4"
    "rest p4 = putUint16 (of_nat (length (putU16s suites))) @ putU16s suites @ [1, 0] @ exts" by auto
  from wp_next(5) [OF p4(2,3)] c obtain p5 where p5: "wpBytes16 p4 = (putU16s suites, p5)" "good p5"
    "rest p5 = of_nat (length ([0] :: bytes)) # [0] @ exts" by auto
  from wp_next(4) [OF p5(2,3)] obtain p6 where p6: "wpBytes8 p5 = ([0], p6)" "good p6" "rest p6 = exts" by auto
  from wp_remaining [OF p6(2)] p6(3) obtain p7 where p7: "wpTake p6 (int (length (wp_b p6)) - int (wp_off p6)) = (exts, p7)"
    "wpDone p7 = Inr ()" by auto
  have "copy_at 0 random (replicate 32 0) = random" using copy_at_zeros [of "[]" 0 random 32 0] r by simp
  moreover have "0 < length suites" using c by simp
  ultimately show ?thesis
    using s c by (simp add: parseHelloLegacy_def p1 p2 p3 p4 p5 p6 p7 helloStart_def)
qed

definition serverLegacyBytes :: "bytes \<Rightarrow> u16 \<Rightarrow> bytes" where
  "serverLegacyBytes random suite = putUint16 dtlsLegacyVersion @ random @ [0] @ putUint16 suite @ [0]"

lemma parseServerLegacy_run:
  assumes r: "length random = 32"
  shows "parseServerLegacy (serverLegacyBytes random suite @ exts) = Inr (random, [], suite, exts)"
proof -
  let ?b = "serverLegacyBytes random suite @ exts"
  obtain p1 where p1: "wpU16 (newWireParser ?b) = (unat dtlsLegacyVersion, p1)" "good p1"
    "rest p1 = random @ [0] @ putUint16 suite @ [0] @ exts"
    using wp_next(2) [of "newWireParser ?b" dtlsLegacyVersion] by (auto simp: serverLegacyBytes_def)
  from wp_next(3) [OF p1(2) this(3) r] obtain p2 where p2: "wpTake p1 32 = (random, p2)" "good p2"
    "rest p2 = of_nat (length ([] :: bytes)) # [] @ putUint16 suite @ [0] @ exts" by auto
  from wp_next(4) [OF p2(2,3)] obtain p3 where p3: "wpBytes8 p2 = ([], p3)" "good p3" "rest p3 = putUint16 suite @ 0 # exts" by auto
  from wp_next(2) [OF p3(2,3)] obtain p4 where p4: "wpU16 p3 = (unat suite, p4)" "good p4" "rest p4 = 0 # exts" by auto
  from wp_next(1) [OF p4(2,3)] obtain p5 where p5: "wpU8 p4 = (0, p5)" "good p5" "rest p5 = exts" by auto
  from wp_remaining [OF p5(2)] p5(3) obtain p6 where p6: "wpTake p5 (int (length (wp_b p5)) - int (wp_off p5)) = (exts, p6)"
    "wpDone p6 = Inr ()" by auto
  have "copy_at 0 random (replicate 32 0) = random" using copy_at_zeros [of "[]" 0 random 32 0] r by simp
  then show ?thesis by (simp add: parseServerLegacy_def p1 p2 p3 p4 p5 p6)
qed


section \<open>ServerHello\<close>

definition serverExtensions :: "serverHello \<Rightarrow> orderedExtension list" where
  "serverExtensions h =
     [\<lparr>oe_typ = extSupportedVersions, oe_value = serverSupportedVersionStorage\<rparr>,
      \<lparr>oe_typ = extKeyShare, oe_value = keyShareBytes (sh_keyShare h)\<rparr>] @
     flagExtension extConnectionID (sh_hasConnectionID h) (of_nat (length (sh_connectionID h)) # sh_connectionID h) @
     flagExtension extReturnRoutability (sh_returnRoutability h) [] @
     optionalExtension extPreSharedKey (map_option putUint16 (sh_selectedIdentity h))"

lemma serverExtensions_length:
  "length (concat (map extensionBytes (serverExtensions h))) = 14 + length (ks_data (sh_keyShare h)) +
     (if sh_hasConnectionID h then 5 + length (sh_connectionID h) else 0) +
     (if sh_returnRoutability h then 4 else 0) + (if sh_selectedIdentity h \<noteq> None then 6 else 0)"
  by (auto simp: serverExtensions_def optionalExtension_def serverSupportedVersionStorage_def)

lemma writeServerExtensions_run:
  assumes "wb_err w = None" and "length (concat (map extensionBytes (serverExtensions h))) \<le> 65535"
    and "sh_hasConnectionID h \<longrightarrow> length (sh_connectionID h) \<le> 255"
  shows "writeServerExtensions h w = wbAppend w (extensionsBytes (serverExtensions h))"
proof -
  have data: "length (ks_data (sh_keyShare h)) + 4 \<le> 65535" using assms(2) unfolding serverExtensions_length by (auto split: if_splits)
  have u: "wbU16 v (4 + int (length (ks_data (sh_keyShare h)))) = wbAppend v (putUint16 (of_nat (length (keyShareBytes (sh_keyShare h)))))"
    if "wb_err v = None" for v using that data by (simp add: wb_numbers)
  have c: "wbU16 v (1 + int (length (sh_connectionID h))) = wbAppend v (putUint16 (of_nat (Suc (length (sh_connectionID h)))))"
    if "wb_err v = None" "sh_hasConnectionID h" for v using that assms(3) by (simp add: wb_numbers)
  have body: "writeServerExtensions h w = endVector16 (wbAppend w ([0, 0] @ concat (map extensionBytes (serverExtensions h)))) (int (length (wb_b w)))"
    using assms(1,3) data
    by (simp add: writeServerExtensions_def serverExtensions_def wb_start wbU16_word wb_vectors wbAppend_append u c
        extensionBytes_def keyShareBytes_def [of "sh_keyShare h"] serverSupportedVersionStorage_def optionalExtension_def wb_numbers Let_def
        split: option.split)
  show ?thesis unfolding body wb_vector16 [OF assms(1,2)] extensionsBytes_def ..
qed


lemma addExtension_Inr: "addExtension n v = Inr m \<longleftrightarrow> m = n + 4 + v \<and> n + 4 + v \<le> 65535"
  by (auto simp: addExtension_def)

lemma addExtensionWhen_Inr:
  "addExtensionWhen c n v = Inr m \<longleftrightarrow> (if c then m = n + 4 + v \<and> n + 4 + v \<le> 65535 else m = n)"
  by (auto simp: addExtensionWhen_def addExtension_Inr)

lemma writeServerHello_run:
  assumes "length (sh_sessionID h) = 0" and "length (concat (map extensionBytes (serverExtensions h))) \<le> 65535"
    and "sh_hasConnectionID h \<longrightarrow> length (sh_connectionID h) \<le> 255"
  shows "writeServerHello h = Inr (serverLegacyBytes (sh_random h) (sh_cipherSuite h) @ extensionsBytes (serverExtensions h))"
proof -
  have w: "wbU8 (wbU16 (wbBytes8 (wbAppend (wbU16 newWireBuilder (uint dtlsLegacyVersion)) (sh_random h)) (sh_sessionID h)) (uint (sh_cipherSuite h))) 0 =
      wbAppend newWireBuilder (serverLegacyBytes (sh_random h) (sh_cipherSuite h))"
    unfolding serverLegacyBytes_def
    using assms(1) by (simp only: wbU16_word newWireBuilder_err wbAppend_err) (simp add: wbU16_word wb_vectors wb_numbers wbAppend_append)
  show ?thesis unfolding writeServerHello_def Let_def w
    using writeServerExtensions_run [of "wbAppend newWireBuilder (serverLegacyBytes (sh_random h) (sh_cipherSuite h))" h] assms(2,3)
    by (simp add: wbAppend_append wbResult_append)
qed

lemma marshalServerHello_iff:
  "marshalServerHello h = Inr b \<longleftrightarrow>
   sh_sessionID h = [] \<and> (sh_hasConnectionID h \<longrightarrow> length (sh_connectionID h) \<le> 255) \<and>
   2 + length (concat (map extensionBytes (serverExtensions h))) \<le> 65535 \<and>
   b = serverLegacyBytes (sh_random h) (sh_cipherSuite h) @ extensionsBytes (serverExtensions h)"
proof -
  have "marshalServerHello h = Inr b \<longleftrightarrow> sh_sessionID h = [] \<and> (sh_hasConnectionID h \<longrightarrow> length (sh_connectionID h) \<le> 255) \<and>
     2 + length (concat (map extensionBytes (serverExtensions h))) \<le> 65535 \<and> writeServerHello h = Inr b"
    unfolding serverExtensions_length
    by (auto simp: marshalServerHello_def addExtension_Inr addExtensionWhen_Inr)
  then show ?thesis using writeServerHello_run [of h] by auto
qed

lemma serverExtensions_ok:
  "length (concat (map extensionBytes (serverExtensions h))) \<le> 65535 \<Longrightarrow> extensions_ok (serverExtensions h)"
  by (simp add: extensions_ok_def serverExtensions_def)

lemma checkServerExtensions_run: "checkServerExtensions (serverExtensions h) = Inr ()"
  by (auto simp: serverExtensions_def optionalExtension_def serverHelloExtensions_def split: option.splits)

lemma parseServerShare_run:
  assumes "ks_data (sh_keyShare h) \<noteq> []" and "length (ks_data (sh_keyShare h)) \<le> 65535"
  shows "parseServerShare (serverExtensions h) = Inr (sh_keyShare h)"
proof -
  have "parseKeySharesMode (keyShareBytes (sh_keyShare h)) False = Inr [sh_keyShare h]"
    using assms by (simp add: parseKeySharesMode_iff keyShareList_ok_def keyShares_ok_def keyShareList_def)
  then show ?thesis by (simp add: parseServerShare_def serverExtensions_def)
qed

lemma parseServerOptions_run:
  assumes "if sh_hasConnectionID h then length (sh_connectionID h) \<le> 255 else sh_connectionID h = []" and "sh_sessionID h = []"
  shows "parseServerOptions (serverExtensions h)
    \<lparr>sh_random = sh_random h, sh_sessionID = [], sh_cipherSuite = sh_cipherSuite h, sh_keyShare = sh_keyShare h,
     sh_selectedIdentity = None, sh_connectionID = [], sh_hasConnectionID = False, sh_returnRoutability = False\<rparr> = Inr h"
  using assms
  by (cases h; cases "sh_hasConnectionID h"; cases "sh_returnRoutability h"; cases "sh_selectedIdentity h")
    (simp_all add: parseServerOptions_def onExtension_def serverExtensions_def parseConnectionID_iff)

text \<open>
  C35. Whatever ServerHello the encoder writes, the parser reads back unchanged: for a hello with a
  32-byte random and a non-empty key share whose connection ID is empty unless it is negotiated,
  every field, including the optional connection ID, return routability and selected identity,
  survives the encoding.\<close>

theorem server_hello_roundtrip:
  assumes "marshalServerHello h = Inr b" and "length (sh_random h) = 32" and "ks_data (sh_keyShare h) \<noteq> []"
    and "sh_hasConnectionID h \<or> sh_connectionID h = []"
  shows "parseServerHello b = Inr h"
proof -
  from assms(1) have m: "sh_sessionID h = []" "sh_hasConnectionID h \<longrightarrow> length (sh_connectionID h) \<le> 255"
    "length (concat (map extensionBytes (serverExtensions h))) \<le> 65535"
    "b = serverLegacyBytes (sh_random h) (sh_cipherSuite h) @ extensionsBytes (serverExtensions h)"
    by (auto simp: marshalServerHello_iff)
  have data: "length (ks_data (sh_keyShare h)) \<le> 65535" using m(3) unfolding serverExtensions_length by (auto split: if_splits)
  have view: "parseOrderedExtensionsView (extensionsBytes (serverExtensions h)) = Inr (serverExtensions h)"
    using serverExtensions_ok [OF m(3)] by (simp add: parseOrderedExtensionsView_iff)
  have version: "checkServerVersion (serverExtensions h) = Inr ()"
    by (simp add: checkServerVersion_def serverExtensions_def serverSupportedVersionStorage_def getUint16_def)
  have cid: "if sh_hasConnectionID h then length (sh_connectionID h) \<le> 255 else sh_connectionID h = []" using assms(4) m(2) by auto
  show ?thesis
    by (simp add: parseServerHello_def m(4) parseServerLegacy_run [OF assms(2)] view checkServerExtensions_run version
        parseServerShare_run [OF assms(3) data] parseServerOptions_run [OF cid m(1)])
qed

theorem server_hello_roundtrip_witness:
  "\<exists>b. marshalServerHello \<lparr>sh_random = replicate 32 7, sh_sessionID = [], sh_cipherSuite = 0x1301, sh_keyShare = \<lparr>ks_group = 29, ks_data = [1, 2, 3]\<rparr>,
     sh_selectedIdentity = Some 0, sh_connectionID = [9], sh_hasConnectionID = True, sh_returnRoutability = True\<rparr> = Inr b \<and>
   parseServerHello b = Inr \<lparr>sh_random = replicate 32 7, sh_sessionID = [], sh_cipherSuite = 0x1301, sh_keyShare = \<lparr>ks_group = 29, ks_data = [1, 2, 3]\<rparr>,
     sh_selectedIdentity = Some 0, sh_connectionID = [9], sh_hasConnectionID = True, sh_returnRoutability = True\<rparr>"
  (is "\<exists>b. marshalServerHello ?h = Inr b \<and> _")
proof -
  have m: "marshalServerHello ?h = Inr (serverLegacyBytes (sh_random ?h) (sh_cipherSuite ?h) @ extensionsBytes (serverExtensions ?h))"
    unfolding marshalServerHello_iff serverExtensions_length by simp
  show ?thesis using m server_hello_roundtrip [OF m] by auto
qed


section \<open>What each stage of the ClientHello parser changes\<close>

lemma classifyExtension_changes:
  assumes "classifyExtension h e = Inr h'"
  shows "h' = h\<lparr>ch_handshakeMetadata := ch_handshakeMetadata h', ch_delegatedCredentialSchemes := ch_delegatedCredentialSchemes h',
      ch_unknownExtensions := ch_unknownExtensions h', ch_grease := ch_grease h'\<rparr>"
  using assms by (cases h) (auto simp: classifyExtension_def Let_def setUnknown_def split: if_splits)

lemma classifyExtensions_changes:
  "classifyExtensions h es = Inr h' \<Longrightarrow>
   h' = h\<lparr>ch_handshakeMetadata := ch_handshakeMetadata h', ch_delegatedCredentialSchemes := ch_delegatedCredentialSchemes h',
      ch_unknownExtensions := ch_unknownExtensions h', ch_grease := ch_grease h'\<rparr>"
proof (induction es arbitrary: h)
  case (Cons e es)
  then obtain k where k: "classifyExtension h e = Inr k" "classifyExtensions k es = Inr h'" by auto
  from classifyExtension_changes [OF k(1)] Cons.IH [OF k(2)] show ?case by (cases h; cases k; cases h') simp
qed simp

lemma parseHelloECH_changes:
  "parseHelloECH es h = Inr h' \<Longrightarrow> h' = h\<lparr>ch_encryptedClientHelloExtension := ch_encryptedClientHelloExtension h'\<rparr>"
  by (cases h; cases "orderedExtensionValue es extECH"; cases "parseECHExt (the (orderedExtensionValue es extECH))")
    (auto simp: parseHelloECH_def split: if_splits)

lemma parseHelloSignatures_changes:
  "parseHelloSignatures validName es h = Inr h' \<Longrightarrow>
   h' = h\<lparr>ch_signatureSchemes := ch_signatureSchemes h', ch_certificateSignatureSchemes := ch_certificateSignatureSchemes h',
      ch_unknownExtensions := ch_unknownExtensions h'\<rparr>"
  by (cases h) (auto simp: parseHelloSignatures_def onExtension_Inr setUnknown_def)

lemma parseHelloShares_changes:
  "parseHelloShares es h = Inr h' \<Longrightarrow> h' = h\<lparr>ch_supportedGroups := ch_supportedGroups h', ch_keyShares := ch_keyShares h'\<rparr>"
  by (cases h) (auto simp: parseHelloShares_def Let_def split: option.splits)

lemma parseHelloNames_changes:
  "parseHelloNames es h = Inr h' \<Longrightarrow>
   h' = h\<lparr>ch_serverName := ch_serverName h', ch_alpn := ch_alpn h', ch_ticketRequest := ch_ticketRequest h'\<rparr>"
  by (cases h) (auto simp: parseHelloNames_def onExtension_Inr split: if_splits)

lemma parseHelloCompression_changes:
  "parseHelloCompression es h = Inr h' \<Longrightarrow>
   h' = h\<lparr>ch_certificateCompressionOffered := ch_certificateCompressionOffered h', ch_unknownExtensions := ch_unknownExtensions h'\<rparr>"
  by (cases h) (auto simp: parseHelloCompression_def onExtension_Inr Let_def setUnknown_def)

lemma parseHelloLimits_changes:
  "parseHelloLimits es h = Inr h' \<Longrightarrow>
   h' = h\<lparr>ch_recordSizeLimit := ch_recordSizeLimit h', ch_hasRecordSizeLimit := ch_hasRecordSizeLimit h',
      ch_statusRequestRaw := ch_statusRequestRaw h', ch_statusRequest := ch_statusRequest h', ch_cookie := ch_cookie h',
      ch_connectionID := ch_connectionID h', ch_hasConnectionID := ch_hasConnectionID h'\<rparr>"
  by (cases h) (auto simp: parseHelloLimits_def onExtension_Inr)

lemma parseHelloFlags_changes:
  "parseHelloFlags es h = Inr h' \<Longrightarrow>
   h' = h\<lparr>ch_returnRoutability := ch_returnRoutability h', ch_postHandshakeAuth := ch_postHandshakeAuth h',
      ch_earlyData := ch_earlyData h', ch_pskDHE := ch_pskDHE h'\<rparr>"
  by (cases h) (auto simp: parseHelloFlags_def onExtension_Inr emptyExtension_def split: if_splits)

lemma parseHelloPSK_changes:
  "parseHelloPSK es h = Inr h' \<Longrightarrow>
   h' = h\<lparr>ch_pskIdentities := ch_pskIdentities h', ch_pskBinders := ch_pskBinders h', ch_pskIdentity := ch_pskIdentity h',
      ch_obfuscatedAge := ch_obfuscatedAge h', ch_pskBinder := ch_pskBinder h'\<rparr>"
  by (cases h) (auto simp: parseHelloPSK_def onExtension_Inr split: if_splits)


section \<open>What an accepted ClientHello satisfies\<close>

lemma seekGroup_Some: "seekGroup g gs = Some gs' \<Longrightarrow> \<exists>pre. gs = pre @ g # gs' \<and> g \<notin> set pre"
proof (induction gs)
  case (Cons x gs)
  show ?case
  proof (cases "x = g")
    case True
    then show ?thesis using Cons.prems by (intro exI [of _ "[]"]) simp
  next
    case False
    then obtain pre where "gs = pre @ g # gs'" "g \<notin> set pre" using Cons by auto
    then show ?thesis using False by (intro exI [of _ "x # pre"]) simp
  qed
qed simp

lemma seekGroup_None: "seekGroup g gs = None \<longleftrightarrow> g \<notin> set gs"
  by (induction gs) auto

text \<open>The greedy search is complete: it finds an order-preserving embedding whenever there is one.\<close>

lemma checkShareOrder_subseq: "checkShareOrder gs ss = Inr () \<longleftrightarrow> subseq (map ks_group ss) gs"
proof (induction ss arbitrary: gs)
  case (Cons s ss)
  show ?case
  proof (cases "seekGroup (ks_group s) gs")
    case None
    then have "ks_group s \<notin> set gs" by (simp add: seekGroup_None)
    then have "\<not> subseq (map ks_group (s # ss)) gs" using list_emb_set [of "(=)" "map ks_group (s # ss)" gs "ks_group s"] by auto
    then show ?thesis using None by simp
  next
    case (Some gs')
    from seekGroup_Some [OF this] obtain pre where pre: "gs = pre @ ks_group s # gs'" "ks_group s \<notin> set pre" by blast
    have "subseq (ks_group s # map ks_group ss) (pre @ ks_group s # gs') \<longleftrightarrow> subseq (map ks_group ss) gs'"
      using pre(2) by (induction pre) auto
    then show ?thesis using Some Cons.IH [of gs'] pre(1) by simp
  qed
qed simp

definition clientHello_wf :: "clientHello \<Rightarrow> bool" where
  "clientHello_wf h \<longleftrightarrow>
     length (ch_random h) = 32 \<and> length (ch_sessionID h) \<le> 32 \<and> ch_cipherSuites h \<noteq> [] \<and>
     keyShares_ok (ch_keyShares h) \<and> subseq (map ks_group (ch_keyShares h)) (ch_supportedGroups h) \<and>
     (ch_alpn h = [] \<or> alpn_ok (ch_alpn h)) \<and>
     length (ch_connectionID h) \<le> 255 \<and> (ch_hasConnectionID h \<or> ch_connectionID h = []) \<and>
     (ch_hasRecordSizeLimit h \<longrightarrow> minRecordSizeLimit \<le> ch_recordSizeLimit h) \<and>
     (ch_earlyData h \<longrightarrow> ch_pskIdentities h \<noteq> []) \<and>
     (if ch_pskIdentities h = []
      then ch_pskBinders h = [] \<and> ch_pskIdentity h = [] \<and> ch_signatureSchemes h \<noteq> [] \<and> ch_supportedGroups h \<noteq> []
      else psks_ok (ch_pskIdentities h, ch_pskBinders h) \<and> ch_pskIdentity h = psk_identity (hd (ch_pskIdentities h)) \<and>
           ch_obfuscatedAge h = psk_obfuscatedAge (hd (ch_pskIdentities h)) \<and> ch_pskBinder h = hd (ch_pskBinders h))"

lemma parseHelloLegacy_sound:
  assumes "parseHelloLegacy b = Inr (h, exts)"
  shows "\<exists>random sessionID suites. h = helloStart random sessionID suites \<and> length random = 32 \<and> length sessionID \<le> 32 \<and> suites \<noteq> []"
proof -
  obtain v p0 where v: "wpU16 (newWireParser b) = (v, p0)" by fastforce
  obtain random p1 where r: "wpTake p0 32 = (random, p1)" by fastforce
  obtain sid p2 where s: "wpBytes8 p1 = (sid, p2)" by fastforce
  obtain lc p3 where c: "wpBytes8 p2 = (lc, p3)" by fastforce
  obtain suites p4 where u: "wpBytes16 p3 = (suites, p4)" by fastforce
  obtain comp p5 where m: "wpBytes8 p4 = (comp, p5)" by fastforce
  obtain e p6 where e: "wpTake p5 (int (length (wp_b p5)) - int (wp_off p5)) = (e, p6)" by fastforce
  have h: "wpDone p6 = Inr ()" "length sid \<le> 32" "2 \<le> length suites"
    "h = emptyClientHello\<lparr>ch_random := copy_at 0 random (replicate 32 0), ch_sessionID := sid, ch_cipherSuites := u16List suites\<rparr>"
    using assms by (auto simp: parseHelloLegacy_def v r s c u m e not_less split: if_splits)
  have "length (copy_at 0 random (replicate 32 0)) = 32" by simp
  moreover have "u16List suites \<noteq> []" using h(3) length_u16List [of suites] by auto
  ultimately show ?thesis using h(2,4) unfolding helloStart_def by blast
qed


lemma parseHelloShares_sound:
  assumes "parseHelloShares es h = Inr h'" and "ch_supportedGroups h = []" and "ch_keyShares h = []"
  shows "keyShares_ok (ch_keyShares h') \<and> subseq (map ks_group (ch_keyShares h')) (ch_supportedGroups h') \<and>
    (orderedExtensionValue es extSupportedGroups \<noteq> None \<longrightarrow> ch_supportedGroups h' \<noteq> [])"
proof (cases "orderedExtensionValue es extSupportedGroups")
  case None
  then have "h' = h" using assms by (auto simp: parseHelloShares_def Let_def split: option.splits)
  then show ?thesis using None assms by (simp add: keyShares_ok_def)
next
  case (Some groups)
  then obtain gs ks raw where p: "parseSupportedGroups groups = Inr gs" "parseKeySharesMode raw True = Inr ks"
    "h' = h\<lparr>ch_supportedGroups := gs, ch_keyShares := ks\<rparr>" "checkShareOrder gs ks = Inr ()"
    using assms by (auto simp: parseHelloShares_def Let_def split: option.splits)
  then show ?thesis by (simp add: parseSupportedGroups_iff parseKeySharesMode_iff keyShareList_ok_def checkShareOrder_subseq)
qed

lemma parseHelloNames_sound:
  "parseHelloNames es h = Inr h' \<Longrightarrow> ch_alpn h = [] \<Longrightarrow> ch_alpn h' = [] \<or> alpn_ok (ch_alpn h')"
  by (auto simp: parseHelloNames_def onExtension_Inr parseALPN_iff split: if_splits)

lemma parseHelloLimits_sound:
  "parseHelloLimits es h = Inr h' \<Longrightarrow> ch_connectionID h = [] \<Longrightarrow> \<not> ch_hasRecordSizeLimit h \<Longrightarrow>
   length (ch_connectionID h') \<le> 255 \<and> (ch_hasConnectionID h' \<or> ch_connectionID h' = []) \<and>
   (ch_hasRecordSizeLimit h' \<longrightarrow> minRecordSizeLimit \<le> ch_recordSizeLimit h')"
  by (auto simp: parseHelloLimits_def onExtension_Inr parseConnectionID_iff parseRecordSizeLimit_def Let_def not_less split: if_splits)

lemma parseHelloPSK_sound:
  "parseHelloPSK es h = Inr h' \<Longrightarrow> ch_pskIdentities h = [] \<Longrightarrow> ch_pskBinders h = [] \<Longrightarrow> ch_pskIdentity h = [] \<Longrightarrow>
   (ch_pskIdentities h' = [] \<and> ch_pskBinders h' = [] \<and> ch_pskIdentity h' = []) \<or>
   (ch_pskIdentity h' \<noteq> [] \<and> psks_ok (ch_pskIdentities h', ch_pskBinders h') \<and>
    ch_pskIdentity h' = psk_identity (hd (ch_pskIdentities h')) \<and>
    ch_obfuscatedAge h' = psk_obfuscatedAge (hd (ch_pskIdentities h')) \<and> ch_pskBinder h' = hd (ch_pskBinders h'))"
proof -
  assume p: "parseHelloPSK es h = Inr h'" "ch_pskIdentities h = []" "ch_pskBinders h = []" "ch_pskIdentity h = []"
  show ?thesis
  proof (cases "orderedExtensionValue es extPreSharedKey")
    case None
    then show ?thesis using p by (simp add: parseHelloPSK_def)
  next
    case (Some raw)
    then obtain ids bs where r: "parseClientPSKs raw = Inr (ids, bs)"
      "h' = h\<lparr>ch_pskIdentities := ids, ch_pskBinders := bs, ch_pskIdentity := psk_identity (ids ! 0),
         ch_obfuscatedAge := psk_obfuscatedAge (ids ! 0), ch_pskBinder := bs ! 0\<rparr>"
      using p(1) by (auto simp: parseHelloPSK_def split: if_splits)
    from r(1) have ok: "psks_ok (ids, bs)" by (simp add: parseClientPSKs_iff)
    then have "ids \<noteq> []" "bs \<noteq> []" by (auto simp: psks_ok_def)
    then show ?thesis using ok r(2) by (simp add: hd_conv_nth) (auto simp: psks_ok_def)
  qed
qed

end
