(* ===== verification/Hello_Roundtrip.thy ===== *)
theory Hello_Roundtrip
  imports Hello_Correct
begin

text \<open>
  The ClientHello a server reads is the one the client wrote. \<open>receivedHello\<close> says what changes on
  the way: the raw status request appears, a PSK offer implies the PSK-with-DHE mode, and of the
  unknown extensions exactly those the encoder writes arrive.
\<close>

section \<open>GREASE\<close>

lemma greaseValue_cases:
  "greaseValue s \<in> set [0x0a0a, 0x1a1a, 0x2a2a, 0x3a3a, 0x4a4a, 0x5a5a, 0x6a6a, 0x7a7a, 0x8a8a, 0x9a9a, 0xaaaa, 0xbaba, 0xcaca, 0xdada, 0xeaea, 0xfafa]"
proof -
  have "unat (s AND 0x0f) < 16" using word_and_le1 [of s "0x0f"] by (simp add: word_le_nat_alt word_and_le2)
  then have "unat (s AND 0x0f) \<in> set [0 ..< 16]" by simp
  moreover have "s AND 0x0f = of_nat (unat (s AND 0x0f))" by simp
  ultimately have "s AND 0x0f \<in> set (map of_nat [0 ..< 16])" unfolding set_map by (rule rev_image_eqI)
  then show ?thesis unfolding greaseValue_def by (auto simp: upt_rec)
qed

lemma grease_unknown: "knownExtensionType t \<Longrightarrow> greaseValue s \<noteq> t"
  using greaseValue_cases [of s] by (auto simp: knownExtensionType_def)

section \<open>Values that arrive\<close>

definition carries :: "(bytes \<Rightarrow> 'a result) \<Rightarrow> 'a \<Rightarrow> bytes option \<Rightarrow> 'a \<Rightarrow> bool" where
  "carries parse absent v x \<longleftrightarrow> (case v of None \<Rightarrow> x = absent | Some raw \<Rightarrow> parse raw = Inr x)"

lemma on_carried:
  assumes "carries parse absent (orderedExtensionValue es t) x" and "orderedExtensionValue es t = None \<Longrightarrow> upd absent h = h"
  shows "onExtension es t (\<lambda>raw h. rbind (parse raw) (\<lambda>x. Inr (upd x h))) h = Inr (upd x h)"
  using assms by (auto simp: carries_def split: option.splits)


section \<open>Hellos a client sends\<close>

text \<open>The raw extensions the encoder copies from the map of unknown extensions.\<close>

abbreviation rawExtension :: "clientHello \<Rightarrow> u16 \<Rightarrow> bytes option" where
  "rawExtension h t \<equiv> nonNil (map_of (ch_unknownExtensions h) t)"

definition readable :: "(bytes \<Rightarrow> 'a result) \<Rightarrow> bytes option \<Rightarrow> bool" where
  "readable parse v \<longleftrightarrow> (case v of None \<Rightarrow> True | Some raw \<Rightarrow> \<exists>x. parse raw = Inr x)"

definition sendableHello :: "(bytes \<Rightarrow> bool) \<Rightarrow> clientHello \<Rightarrow> bool" where
  "sendableHello validName h \<longleftrightarrow>
     clientHello_wf h \<and> ch_signatureSchemes h \<noteq> [] \<and> ch_supportedGroups h \<noteq> [] \<and>
     (ch_hasRecordSizeLimit h \<or> ch_recordSizeLimit h = 0) \<and>
     (tr_enabled (ch_ticketRequest h) \<or> ch_ticketRequest h = \<lparr>tr_enabled = False, tr_newSessionCount = 0, tr_resumptionCount = 0\<rparr>) \<and>
     (ch_pskIdentities h \<noteq> [] \<or> ch_obfuscatedAge h = 0 \<and> ch_pskBinder h = []) \<and>
     readable parseECHExt (ch_encryptedClientHelloExtension h) \<and>
     readable parseCertificateTypes (rawExtension h extClientCertificateType) \<and>
     readable parseCertificateTypes (rawExtension h extServerCertificateType) \<and>
     readable parseCachedInformationOffer (rawExtension h extCachedInfo) \<and>
     readable (forEachCertificateAuthority validName) (rawExtension h extCertificateAuthorities) \<and>
     fst ` set (ch_unknownExtensions h) \<subseteq>
       {extClientCertificateType, extServerCertificateType, extCachedInfo, extCertificateAuthorities, extCompressCertificate}"

definition receivedUnknown :: "clientHello \<Rightarrow> (u16 \<times> bytes option) list" where
  "receivedUnknown h =
     concat (map (\<lambda>t. case rawExtension h t of None \<Rightarrow> [] | Some raw \<Rightarrow> [(t, Some raw)])
       [extClientCertificateType, extServerCertificateType, extCachedInfo, extCertificateAuthorities]) @
     (case certificateCompressionAlgorithms h of
        None \<Rightarrow> []
      | Some algorithms \<Rightarrow> if algorithms = certificateCompressionZlibOffer then [] else [(extCompressCertificate, Some algorithms)])"

definition receivedHello :: "clientHello \<Rightarrow> clientHello" where
  "receivedHello h =
     h\<lparr>ch_statusRequestRaw := (if ch_statusRequest h then marshalStatusRequest else []),
       ch_pskDHE := (ch_pskIdentities h \<noteq> [] \<or> ch_pskDHE h), ch_unknownExtensions := receivedUnknown h\<rparr>"

section \<open>The encoder's values are read back\<close>

lemma encodeWhen_carries:
  assumes "encodeWhen c m = Inr v" and "c \<Longrightarrow> (\<And>raw. m = Inr raw \<Longrightarrow> parse raw = Inr x)" and "\<not> c \<Longrightarrow> x = absent"
  shows "carries parse absent v x"
  using assms by (auto simp: encodeWhen_def carries_def split: if_splits)

lemma encodeWhen_present: "encodeWhen c m = Inr v \<Longrightarrow> v \<noteq> None \<longleftrightarrow> c"
  by (auto simp: encodeWhen_def split: if_splits)

lemma marshalKeyShares_Inr:
  "marshalKeyShares ss True = Inr b \<Longrightarrow> keyShares_ok ss \<Longrightarrow> parseKeySharesMode b True = Inr ss"
proof -
  assume m: "marshalKeyShares ss True = Inr b" and ok: "keyShares_ok ss"
  then have "keyShareList_ok ss True" by (auto simp: marshalKeyShares_def keyShareList_ok_def keySharesLength_iff split: if_splits)
  then show ?thesis using m marshalKeyShares_ok [of ss True] by (simp add: parseKeySharesMode_iff)
qed

lemma marshalSignatureSchemes_Inr:
  "marshalSignatureSchemes vs = Inr b \<Longrightarrow> vs \<noteq> [] \<Longrightarrow> parseSignatureSchemes b = Inr vs"
  by (auto simp: marshalSignatureSchemes_ok parseSignatureSchemes_iff split: if_splits)

lemma marshalSupportedGroups_Inr:
  "marshalSupportedGroups vs ss = Inr b \<Longrightarrow> vs \<noteq> [] \<Longrightarrow> parseSupportedGroups b = Inr vs"
  by (auto simp: marshalSupportedGroups_ok parseSupportedGroups_iff split: if_splits)

lemma marshalServerName_Inr: "marshalServerName n = Inr b \<Longrightarrow> n \<noteq> [] \<Longrightarrow> parseServerName b = Inr n"
  by (auto simp: marshalServerName_ok parseServerName_iff split: if_splits)

lemma marshalCookie_Inr: "marshalCookie c = Inr b \<Longrightarrow> parseCookie b = Inr c"
  by (auto simp: marshalCookie_def parseCookie_iff wb_vectors wbResult_append split: if_splits)

lemma marshalConnectionID_Inr: "marshalConnectionID c = Inr b \<Longrightarrow> parseConnectionID b = Inr c"
  by (auto simp: marshalConnectionID_def parseConnectionID_iff wb_vectors wbResult_append split: if_splits)

lemma marshalHelloPSK_carries:
  assumes "marshalHelloPSK h = Inr v" and "clientHello_wf h" and "ch_pskIdentities h \<noteq> [] \<or> ch_obfuscatedAge h = 0 \<and> ch_pskBinder h = []"
  shows "carries parseClientPSKs ([], []) v (ch_pskIdentities h, ch_pskBinders h) \<and> (v = None \<longleftrightarrow> ch_pskIdentities h = [])"
proof (cases "ch_pskIdentities h = []")
  case True
  then show ?thesis using assms by (simp add: marshalHelloPSK_def clientHello_wf_def carries_def)
next
  case False
  then have ok: "psks_ok (ch_pskIdentities h, ch_pskBinders h)" using assms(2) by (simp add: clientHello_wf_def)
  from False assms(1) marshalClientPSKs_ok [OF ok] have "v = Some (psksBytes (ch_pskIdentities h, ch_pskBinders h))"
    by (simp add: marshalHelloPSK_def)
  then show ?thesis using False ok by (simp add: carries_def parseClientPSKs_iff)
qed

lemma compression_carried:
  assumes "encodeWhen (ch_certificateCompressionOffered h) (marshalCertificateCompressionAlgorithms (certificateCompressionAlgorithms h)) = Inr v"
  shows "v = certificateCompressionAlgorithms h \<and> (ch_certificateCompressionOffered h \<longleftrightarrow> certificateCompressionAlgorithms h \<noteq> None) \<and>
    readable parseCertificateCompressionAlgorithms (certificateCompressionAlgorithms h)"
proof (cases "ch_certificateCompressionOffered h")
  case False
  then have "certificateCompressionAlgorithms h = None" by (simp add: certificateCompressionAlgorithms_def)
  then show ?thesis using False assms by (simp add: encodeWhen_def readable_def)
next
  case True
  show ?thesis
  proof (cases "certificateCompressionAlgorithms h")
    case None
    then show ?thesis using True assms by (simp add: encodeWhen_def marshalCertificateCompressionAlgorithms_def)
  next
    case (Some raw)
    have "v = Some raw" "\<exists>x. parseCertificateCompressionAlgorithms raw = Inr x"
      using True assms unfolding Some
      by (auto simp: encodeWhen_def marshalCertificateCompressionAlgorithms_def parseCertificateCompressionAlgorithms_def split: if_splits)
    then show ?thesis using True Some by (simp add: readable_def)
  qed
qed

lemma metadata_carried:
  assumes "(case m of None \<Rightarrow> Inr None | Some data \<Rightarrow> rbind (marshalHandshakeMetadata data) (\<lambda>raw. Inr (Some raw))) = Inr v"
  shows "carries (\<lambda>raw. rbind (parseHandshakeMetadata raw) (\<lambda>d. Inr (Some d))) None v m"
  using assms by (cases m) (auto simp: carries_def marshalHandshakeMetadata_def parseHandshakeMetadata_def split: if_splits)

lemma helloValues_carried:
  assumes v: "marshalHelloValues h = Inr v" and ok: "sendableHello validName h"
  shows "parseKeySharesMode (hv_keyShares v) True = Inr (ch_keyShares h)"
    and "parseSignatureSchemes (hv_signatures v) = Inr (ch_signatureSchemes h)"
    and "parseSupportedGroups (hv_groups v) = Inr (ch_supportedGroups h)"
    and "carries parseSignatureSchemes [] (hv_certificateSignatures v) (ch_certificateSignatureSchemes h)"
    and "carries parseServerName [] (hv_serverName v) (ch_serverName h)"
    and "carries parseALPN [] (hv_alpn v) (ch_alpn h)"
    and "carries parseCookie [] (hv_cookie v) (ch_cookie h)"
    and "carries parseConnectionID [] (hv_connectionID v) (ch_connectionID h)"
    and "hv_connectionID v \<noteq> None \<longleftrightarrow> ch_hasConnectionID h"
    and "carries parseClientPSKs ([], []) (hv_psk v) (ch_pskIdentities h, ch_pskBinders h)"
    and "hv_psk v = None \<longleftrightarrow> ch_pskIdentities h = []"
    and "hv_certificateCompression v = certificateCompressionAlgorithms h"
    and "ch_certificateCompressionOffered h \<longleftrightarrow> certificateCompressionAlgorithms h \<noteq> None"
    and "readable parseCertificateCompressionAlgorithms (certificateCompressionAlgorithms h)"
    and "carries parseSignatureSchemes [] (hv_delegatedCredential v) (ch_delegatedCredentialSchemes h)"
    and "carries (\<lambda>raw. rbind (parseHandshakeMetadata raw) (\<lambda>d. Inr (Some d))) None (hv_handshakeMetadata v) (ch_handshakeMetadata h)"
proof -
  have wf: "clientHello_wf h" and psk: "ch_pskIdentities h \<noteq> [] \<or> ch_obfuscatedAge h = 0 \<and> ch_pskBinder h = []"
    using ok by (simp_all add: sendableHello_def)
  from v have m:
    "marshalKeyShares (ch_keyShares h) True = Inr (hv_keyShares v)"
    "marshalSignatureSchemes (ch_signatureSchemes h) = Inr (hv_signatures v)"
    "marshalSupportedGroups (ch_supportedGroups h) (ch_keyShares h) = Inr (hv_groups v)"
    "encodeWhen (ch_certificateSignatureSchemes h \<noteq> []) (marshalSignatureSchemes (ch_certificateSignatureSchemes h)) = Inr (hv_certificateSignatures v)"
    "encodeWhen (ch_serverName h \<noteq> []) (marshalServerName (ch_serverName h)) = Inr (hv_serverName v)"
    "encodeWhen (ch_alpn h \<noteq> []) (marshalALPN (ch_alpn h)) = Inr (hv_alpn v)"
    "encodeWhen (ch_cookie h \<noteq> []) (marshalCookie (ch_cookie h)) = Inr (hv_cookie v)"
    "encodeWhen (ch_hasConnectionID h) (marshalConnectionID (ch_connectionID h)) = Inr (hv_connectionID v)"
    "marshalHelloPSK h = Inr (hv_psk v)"
    "encodeWhen (ch_certificateCompressionOffered h) (marshalCertificateCompressionAlgorithms (certificateCompressionAlgorithms h)) = Inr (hv_certificateCompression v)"
    "encodeWhen (ch_delegatedCredentialSchemes h \<noteq> []) (marshalSignatureSchemes (ch_delegatedCredentialSchemes h)) = Inr (hv_delegatedCredential v)"
    "(case ch_handshakeMetadata h of None \<Rightarrow> Inr None | Some data \<Rightarrow> rbind (marshalHandshakeMetadata data) (\<lambda>raw. Inr (Some raw))) = Inr (hv_handshakeMetadata v)"
    by (auto simp: marshalHelloValues_def)
  show "parseKeySharesMode (hv_keyShares v) True = Inr (ch_keyShares h)"
    using marshalKeyShares_Inr [OF m(1)] wf by (simp add: clientHello_wf_def)
  show "parseSignatureSchemes (hv_signatures v) = Inr (ch_signatureSchemes h)"
    using marshalSignatureSchemes_Inr [OF m(2)] ok by (simp add: sendableHello_def)
  show "parseSupportedGroups (hv_groups v) = Inr (ch_supportedGroups h)"
    using marshalSupportedGroups_Inr [OF m(3)] ok by (simp add: sendableHello_def)
  show "carries parseSignatureSchemes [] (hv_certificateSignatures v) (ch_certificateSignatureSchemes h)"
    by (rule encodeWhen_carries [OF m(4)]) (auto intro: marshalSignatureSchemes_Inr)
  show "carries parseServerName [] (hv_serverName v) (ch_serverName h)"
    by (rule encodeWhen_carries [OF m(5)]) (auto intro: marshalServerName_Inr)
  show "carries parseALPN [] (hv_alpn v) (ch_alpn h)"
    using wf by (intro encodeWhen_carries [OF m(6)]) (auto intro: alpn_codec.dec_enc simp: clientHello_wf_def)
  show "carries parseCookie [] (hv_cookie v) (ch_cookie h)"
    by (rule encodeWhen_carries [OF m(7)]) (auto intro: marshalCookie_Inr)
  show "carries parseConnectionID [] (hv_connectionID v) (ch_connectionID h)"
    using wf by (intro encodeWhen_carries [OF m(8)]) (auto intro: marshalConnectionID_Inr simp: clientHello_wf_def)
  show "hv_connectionID v \<noteq> None \<longleftrightarrow> ch_hasConnectionID h" by (rule encodeWhen_present [OF m(8)])
  show "carries parseClientPSKs ([], []) (hv_psk v) (ch_pskIdentities h, ch_pskBinders h)" "hv_psk v = None \<longleftrightarrow> ch_pskIdentities h = []"
    using marshalHelloPSK_carries [OF m(9) wf psk] by simp_all
  show "hv_certificateCompression v = certificateCompressionAlgorithms h"
    "ch_certificateCompressionOffered h \<longleftrightarrow> certificateCompressionAlgorithms h \<noteq> None"
    "readable parseCertificateCompressionAlgorithms (certificateCompressionAlgorithms h)"
    using compression_carried [OF m(10)] by blast+
  show "carries parseSignatureSchemes [] (hv_delegatedCredential v) (ch_delegatedCredentialSchemes h)"
    by (rule encodeWhen_carries [OF m(11)]) (auto intro: marshalSignatureSchemes_Inr)
  show "carries (\<lambda>raw. rbind (parseHandshakeMetadata raw) (\<lambda>d. Inr (Some d))) None (hv_handshakeMetadata v) (ch_handshakeMetadata h)"
    by (rule metadata_carried [OF m(12)])
qed


section \<open>The encoder's extension list\<close>

lemma grease_types: "t \<in> set (map fst items) \<Longrightarrow> \<forall>t \<in> set (map fst items). knownExtensionType t \<Longrightarrow> greaseValue s \<noteq> t"
  using grease_unknown by blast

lemma greaseExtension_sendable:
  assumes "sendableHello validName h"
  shows "greaseExtension h = (if ch_grease h then Some (greaseValue (ch_random h ! 0)) else None)"
proof -
  have "map_of (ch_unknownExtensions h) (greaseValue s) = None" for s
  proof -
    have "greaseValue s \<notin> {extClientCertificateType, extServerCertificateType, extCachedInfo, extCertificateAuthorities, extCompressCertificate}"
      using grease_unknown [of _ s] by (auto simp: knownExtensionType_def)
    then show ?thesis using assms unfolding sendableHello_def map_of_eq_None_iff by blast
  qed
  then show ?thesis by (simp add: greaseExtension_def find_None_iff)
qed

definition greaseList :: "clientHello \<Rightarrow> orderedExtension list" where
  "greaseList h = flagExtension (greaseValue (ch_random h ! 0)) (ch_grease h) []"

lemma helloExtensions_sendable:
  assumes "sendableHello validName h"
  shows "helloExtensions h v =
     optionalExtension extServerName (hv_serverName v) @
     optionalExtension extSupportedGroups (Some (hv_groups v)) @
     optionalExtension extSignatureAlgorithms (Some (hv_signatures v)) @
     optionalExtension extSignatureAlgorithmsCert (hv_certificateSignatures v) @
     optionalExtension extDelegatedCredential (hv_delegatedCredential v) @
     optionalExtension extCertificateAuthorities (rawExtension h extCertificateAuthorities) @
     optionalExtension extClientCertificateType (rawExtension h extClientCertificateType) @
     optionalExtension extServerCertificateType (rawExtension h extServerCertificateType) @
     optionalExtension extCachedInfo (rawExtension h extCachedInfo) @
     optionalExtension extALPN (hv_alpn v) @
     optionalExtension extCompressCertificate (hv_certificateCompression v) @
     flagExtension extStatusRequest (ch_statusRequest h) marshalStatusRequest @
     flagExtension extRecordSizeLimit (ch_hasRecordSizeLimit h) (putUint16 (ch_recordSizeLimit h)) @
     optionalExtension extSupportedVersions (Some clientSupportedVersionsStorage) @
     optionalExtension extCookie (hv_cookie v) @
     optionalExtension extKeyShare (Some (hv_keyShares v)) @
     flagExtension extPostHandshakeAuth (ch_postHandshakeAuth h) [] @
     flagExtension extTicketRequest (tr_enabled (ch_ticketRequest h))
       [tr_newSessionCount (ch_ticketRequest h), tr_resumptionCount (ch_ticketRequest h)] @
     optionalExtension extConnectionID (hv_connectionID v) @
     flagExtension extReturnRoutability (ch_returnRoutability h) [] @
     flagExtension extEarlyData (ch_earlyData h) [] @
     optionalExtension extECH (ch_encryptedClientHelloExtension h) @
     flagExtension (greaseValue (ch_random h ! 0)) (ch_grease h) [] @
     optionalExtension extHandshakeMetadata (hv_handshakeMetadata v) @
     flagExtension extPSKKeyExchangeModes (hv_psk v \<noteq> None \<or> ch_pskDHE h) marshalPSKKeyExchangeModes @
     optionalExtension extPreSharedKey (hv_psk v)"
  by (simp add: helloExtensions_def greaseExtension_sendable [OF assms] optionalExtension_def)

lemma grease_other [simp]:
  "greaseValue s \<noteq> extServerName" "greaseValue s \<noteq> extSupportedGroups" "greaseValue s \<noteq> extSignatureAlgorithms"
  "greaseValue s \<noteq> extSignatureAlgorithmsCert" "greaseValue s \<noteq> extDelegatedCredential" "greaseValue s \<noteq> extCertificateAuthorities"
  "greaseValue s \<noteq> extClientCertificateType" "greaseValue s \<noteq> extServerCertificateType" "greaseValue s \<noteq> extCachedInfo"
  "greaseValue s \<noteq> extALPN" "greaseValue s \<noteq> extCompressCertificate" "greaseValue s \<noteq> extStatusRequest"
  "greaseValue s \<noteq> extRecordSizeLimit" "greaseValue s \<noteq> extSupportedVersions" "greaseValue s \<noteq> extCookie"
  "greaseValue s \<noteq> extKeyShare" "greaseValue s \<noteq> extPostHandshakeAuth" "greaseValue s \<noteq> extTicketRequest"
  "greaseValue s \<noteq> extConnectionID" "greaseValue s \<noteq> extReturnRoutability" "greaseValue s \<noteq> extEarlyData"
  "greaseValue s \<noteq> extECH" "greaseValue s \<noteq> extHandshakeMetadata" "greaseValue s \<noteq> extPSKKeyExchangeModes"
  "greaseValue s \<noteq> extPreSharedKey" "greaseValue s \<noteq> extPadding" "greaseValue s \<noteq> extOIDFilters"
  "greaseValue s \<noteq> extECHOuterExtensions"
  by (rule grease_unknown, simp add: knownExtensionType_def)+

lemmas other_grease [simp] = grease_other [symmetric]

lemma lookups:
  assumes "sendableHello validName h"
  shows "orderedExtensionValue (helloExtensions h v) extServerName = hv_serverName v"
    "orderedExtensionValue (helloExtensions h v) extSupportedGroups = Some (hv_groups v)"
    "orderedExtensionValue (helloExtensions h v) extSignatureAlgorithms = Some (hv_signatures v)"
    "orderedExtensionValue (helloExtensions h v) extSignatureAlgorithmsCert = hv_certificateSignatures v"
    "orderedExtensionValue (helloExtensions h v) extCertificateAuthorities = rawExtension h extCertificateAuthorities"
    "orderedExtensionValue (helloExtensions h v) extALPN = hv_alpn v"
    "orderedExtensionValue (helloExtensions h v) extCompressCertificate = hv_certificateCompression v"
    "orderedExtensionValue (helloExtensions h v) extStatusRequest = (if ch_statusRequest h then Some marshalStatusRequest else None)"
    "orderedExtensionValue (helloExtensions h v) extRecordSizeLimit = (if ch_hasRecordSizeLimit h then Some (putUint16 (ch_recordSizeLimit h)) else None)"
    "orderedExtensionValue (helloExtensions h v) extSupportedVersions = Some clientSupportedVersionsStorage"
    "orderedExtensionValue (helloExtensions h v) extCookie = hv_cookie v"
    "orderedExtensionValue (helloExtensions h v) extKeyShare = Some (hv_keyShares v)"
    "orderedExtensionValue (helloExtensions h v) extPostHandshakeAuth = (if ch_postHandshakeAuth h then Some [] else None)"
    "orderedExtensionValue (helloExtensions h v) extTicketRequest = (if tr_enabled (ch_ticketRequest h)
       then Some [tr_newSessionCount (ch_ticketRequest h), tr_resumptionCount (ch_ticketRequest h)] else None)"
    "orderedExtensionValue (helloExtensions h v) extConnectionID = hv_connectionID v"
    "orderedExtensionValue (helloExtensions h v) extReturnRoutability = (if ch_returnRoutability h then Some [] else None)"
    "orderedExtensionValue (helloExtensions h v) extEarlyData = (if ch_earlyData h then Some [] else None)"
    "orderedExtensionValue (helloExtensions h v) extECH = ch_encryptedClientHelloExtension h"
    "orderedExtensionValue (helloExtensions h v) extECHOuterExtensions = None"
    "orderedExtensionValue (helloExtensions h v) extPadding = None"
    "orderedExtensionValue (helloExtensions h v) extPSKKeyExchangeModes =
       (if hv_psk v \<noteq> None \<or> ch_pskDHE h then Some marshalPSKKeyExchangeModes else None)"
    "orderedExtensionValue (helloExtensions h v) extPreSharedKey = hv_psk v"
  unfolding helloExtensions_sendable [OF assms] by simp_all

lemma distinct_optional:
  "t \<notin> oe_typ ` set es \<Longrightarrow> distinct (map oe_typ es) \<Longrightarrow> distinct (map oe_typ (optionalExtension t v @ es))"
  "distinct (map oe_typ (optionalExtension t v))"
  by (simp_all add: optionalExtension_def split: option.split)

lemma notin_optional:
  "t \<noteq> u \<Longrightarrow> t \<notin> oe_typ ` set es \<Longrightarrow> t \<notin> oe_typ ` set (optionalExtension u v @ es)"
  "t \<noteq> u \<Longrightarrow> t \<notin> oe_typ ` set (optionalExtension u v)"
  by (auto simp: optional_set)

lemma helloExtensions_distinct:
  assumes "sendableHello validName h" shows "distinct (map oe_typ (helloExtensions h v))"
  unfolding helloExtensions_sendable [OF assms]
  by (intro distinct_optional notin_optional) simp_all


section \<open>Classifying the extensions\<close>

definition arrivedUnknown :: "clientHello \<Rightarrow> u16 list \<Rightarrow> (u16 \<times> bytes option) list" where
  "arrivedUnknown h ts = concat (map (\<lambda>t. case rawExtension h t of None \<Rightarrow> [] | Some raw \<Rightarrow> [(t, Some raw)]) ts)"

lemma update_fresh: "t \<notin> fst ` set al \<Longrightarrow> AList.update t v al = al @ [(t, v)]"
  by (induction al) auto

lemma arrived_keys: "fst ` set (arrivedUnknown h ts) \<subseteq> set ts"
  by (auto simp: arrivedUnknown_def split: option.splits)

definition keepUnknown :: "u16 \<Rightarrow> bytes option \<Rightarrow> clientHello \<Rightarrow> clientHello" where
  "keepUnknown t v k = (case v of None \<Rightarrow> k | Some raw \<Rightarrow> setUnknown t (copySlice raw) k)"

lemma keepUnknown_arrived:
  assumes "t \<notin> set ts" and "rawExtension h t \<noteq> Some []" and "ch_unknownExtensions k = arrivedUnknown h ts"
  shows "keepUnknown t (rawExtension h t) k = k\<lparr>ch_unknownExtensions := arrivedUnknown h (ts @ [t])\<rparr>"
proof (cases "rawExtension h t")
  case None
  then show ?thesis using assms(3) by (cases k) (simp add: keepUnknown_def arrivedUnknown_def)
next
  case (Some raw)
  have "t \<notin> fst ` set (arrivedUnknown h ts)" using assms(1) arrived_keys by blast
  from update_fresh [OF this] show ?thesis using Some assms(2,3)
    by (simp add: keepUnknown_def setUnknown_def copySlice_def arrivedUnknown_def)
qed

lemma classify_append:
  "classifyExtensions k (xs @ ys) = rbind (classifyExtensions k xs) (\<lambda>k. classifyExtensions k ys)"
  by (induction xs arbitrary: k) (simp_all add: rbind_assoc)

lemma classify_later [simp]:
  "t \<in> set parsedLater \<Longrightarrow> classifyExtensions k (optionalExtension t v @ es) = classifyExtensions k es"
  "t \<in> set parsedLater \<Longrightarrow> classifyExtensions k (optionalExtension t v) = Inr k"
  by (auto simp: optionalExtension_def classifyExtension_def Let_def split: option.splits)

lemma classify_kept:
  "t = extClientCertificateType \<or> t = extServerCertificateType \<Longrightarrow> readable parseCertificateTypes v \<Longrightarrow>
   classifyExtensions k (optionalExtension t v @ es) = classifyExtensions (keepUnknown t v k) es"
  "readable parseCachedInformationOffer v \<Longrightarrow>
   classifyExtensions k (optionalExtension extCachedInfo v @ es) = classifyExtensions (keepUnknown extCachedInfo v k) es"
  by (auto simp: optionalExtension_def classifyExtension_def readable_def keepUnknown_def parsedLater_def Let_def split: option.splits)

lemma classify_delegated:
  assumes "carries parseSignatureSchemes [] v x" and "ch_delegatedCredentialSchemes k = []"
  shows "classifyExtensions k (optionalExtension extDelegatedCredential v @ es) = classifyExtensions (k\<lparr>ch_delegatedCredentialSchemes := x\<rparr>) es"
  using assms by (cases k) (auto simp: optionalExtension_def classifyExtension_def carries_def parsedLater_def Let_def split: option.splits)

lemma classify_metadata:
  assumes "carries (\<lambda>raw. rbind (parseHandshakeMetadata raw) (\<lambda>d. Inr (Some d))) None v x" and "ch_handshakeMetadata k = None"
  shows "classifyExtensions k (optionalExtension extHandshakeMetadata v @ es) = classifyExtensions (k\<lparr>ch_handshakeMetadata := x\<rparr>) es"
  using assms by (cases k) (auto simp: optionalExtension_def classifyExtension_def carries_def parsedLater_def Let_def split: option.splits)

lemma classify_grease:
  assumes "\<not> ch_grease k"
  shows "classifyExtensions k (flagExtension (greaseValue (ch_random k ! 0)) c [] @ es) = classifyExtensions (k\<lparr>ch_grease := c\<rparr>) es"
  using assms by (cases k) (auto simp: optionalExtension_def classifyExtension_def parsedLater_def Let_def)

lemma classifyExtensions_run:
  assumes ok: "sendableHello validName h" and v: "marshalHelloValues h = Inr v"
  shows "classifyExtensions (helloStart (ch_random h) sid suites) (helloExtensions h v) =
    Inr (helloStart (ch_random h) sid suites\<lparr>ch_delegatedCredentialSchemes := ch_delegatedCredentialSchemes h,
       ch_unknownExtensions := arrivedUnknown h [extClientCertificateType, extServerCertificateType, extCachedInfo],
       ch_grease := ch_grease h, ch_handshakeMetadata := ch_handshakeMetadata h\<rparr>)"
proof -
  let ?s = "helloStart (ch_random h) sid suites\<lparr>ch_delegatedCredentialSchemes := ch_delegatedCredentialSchemes h\<rparr>"
  note c = helloValues_carried [OF v ok]
  have r: "readable parseCertificateTypes (rawExtension h extClientCertificateType)" "readable parseCertificateTypes (rawExtension h extServerCertificateType)"
    "readable parseCachedInformationOffer (rawExtension h extCachedInfo)" using ok by (simp_all add: sendableHello_def)
  have empty: "parseCertificateTypes [] \<noteq> Inr x" "parseCachedInformationOffer [] \<noteq> Inr y" for x y
    by (simp_all add: parseCertificateTypes_def parseCachedInformationOffer_def wpBytes16_def wpU16_def wpTake_def newWireParser_def wpDone_def)
  have ne: "rawExtension h extClientCertificateType \<noteq> Some []" "rawExtension h extServerCertificateType \<noteq> Some []" "rawExtension h extCachedInfo \<noteq> Some []"
    using r empty by (auto simp: readable_def)
  have kept: "keepUnknown extCachedInfo (rawExtension h extCachedInfo) (keepUnknown extServerCertificateType (rawExtension h extServerCertificateType)
      (keepUnknown extClientCertificateType (rawExtension h extClientCertificateType) ?s)) =
    ?s\<lparr>ch_unknownExtensions := arrivedUnknown h [extClientCertificateType, extServerCertificateType, extCachedInfo]\<rparr>"
    using keepUnknown_arrived [OF _ ne(1), of "[]" ?s] keepUnknown_arrived [OF _ ne(2), of "[extClientCertificateType]"]
      keepUnknown_arrived [OF _ ne(3), of "[extClientCertificateType, extServerCertificateType]"]
    by (simp add: arrivedUnknown_def [of h "[]"] helloStart_def emptyClientHello_def)
  have start: "ch_random (helloStart (ch_random h) sid suites) = ch_random h" "\<not> ch_grease (helloStart (ch_random h) sid suites)"
    "ch_delegatedCredentialSchemes (helloStart (ch_random h) sid suites) = []" "ch_handshakeMetadata (helloStart (ch_random h) sid suites) = None"
    by (simp_all add: helloStart_def emptyClientHello_def)
  have grease: "classifyExtensions k (flagExtension (greaseValue (ch_random h ! 0)) (ch_grease h) [] @ es) =
      classifyExtensions (k\<lparr>ch_grease := ch_grease h\<rparr>) es" if "ch_random k = ch_random h" "\<not> ch_grease k" for k es
    using classify_grease [OF that(2)] that(1) by simp
  show ?thesis
    unfolding helloExtensions_sendable [OF ok]
    by (simp add: classify_delegated [OF c(15)] classify_kept r kept grease classify_metadata [OF c(16)] start parsedLater_def split del: if_split)
qed


section \<open>Running the other stages\<close>

lemma parseECHExt_nonempty: "parseECHExt [] \<noteq> Inr x"
  by (simp add: parseECHExt_def wpU8_def wpTake_def newWireParser_def wpDone_def wpU16_def wpBytes16_def)

lemma forEach_nonempty: "forEachCertificateAuthority validName [] \<noteq> Inr x"
  by (simp add: forEachCertificateAuthority_def wpBytes16_def wpU16_def wpTake_def newWireParser_def wpDone_def)

lemma parseHelloECH_run:
  assumes ok: "sendableHello validName h" and k: "ch_encryptedClientHelloExtension k = None"
  shows "parseHelloECH (helloExtensions h v) k = Inr (k\<lparr>ch_encryptedClientHelloExtension := ch_encryptedClientHelloExtension h\<rparr>)"
proof (cases "ch_encryptedClientHelloExtension h")
  case None
  then show ?thesis using k by (cases k) (simp add: parseHelloECH_def lookups [OF ok])
next
  case (Some raw)
  then obtain x where "parseECHExt raw = Inr x" using ok by (auto simp: sendableHello_def readable_def)
  moreover have "raw \<noteq> []" using calculation parseECHExt_nonempty by auto
  ultimately show ?thesis using Some by (simp add: parseHelloECH_def lookups [OF ok] copySlice_def)
qed

lemma checkHelloVersions_run: "sendableHello validName h \<Longrightarrow> checkHelloVersions (helloExtensions h v) = Inr ()"
  by (simp add: checkHelloVersions_def lookups clientSupportedVersionsStorage_def parseClientSupportedVersions_def getUint16_def)

lemma parseHelloSignatures_run:
  assumes ok: "sendableHello validName h" and v: "marshalHelloValues h = Inr v"
    and k: "ch_certificateSignatureSchemes k = []" "ch_unknownExtensions k = arrivedUnknown h ts" "extCertificateAuthorities \<notin> set ts"
  shows "parseHelloSignatures validName (helloExtensions h v) k =
    Inr (k\<lparr>ch_signatureSchemes := ch_signatureSchemes h, ch_certificateSignatureSchemes := ch_certificateSignatureSchemes h,
       ch_unknownExtensions := arrivedUnknown h (ts @ [extCertificateAuthorities])\<rparr>)"
proof -
  note c = helloValues_carried [OF v ok]
  let ?k = "k\<lparr>ch_signatureSchemes := ch_signatureSchemes h, ch_certificateSignatureSchemes := ch_certificateSignatureSchemes h\<rparr>"
  have r: "readable (forEachCertificateAuthority validName) (rawExtension h extCertificateAuthorities)" using ok by (simp add: sendableHello_def)
  have ne: "rawExtension h extCertificateAuthorities \<noteq> Some []" using r forEach_nonempty by (auto simp: readable_def)
  have "onExtension (helloExtensions h v) extSignatureAlgorithmsCert
      (\<lambda>raw h. rbind (parseSignatureSchemes raw) (\<lambda>schemes. Inr (h\<lparr>ch_certificateSignatureSchemes := schemes\<rparr>)))
      (k\<lparr>ch_signatureSchemes := ch_signatureSchemes h\<rparr>) = Inr ?k"
    using c(4) k(1) by (intro on_carried) (cases k, simp add: lookups [OF ok])+
  moreover have "onExtension (helloExtensions h v) extCertificateAuthorities (\<lambda>authorities h. rbind (forEachCertificateAuthority validName authorities) (\<lambda>_.
          Inr (setUnknown extCertificateAuthorities (copySlice authorities) h))) ?k =
      Inr (keepUnknown extCertificateAuthorities (rawExtension h extCertificateAuthorities) ?k)"
    using r by (auto simp: onExtension_def lookups [OF ok] readable_def keepUnknown_def split: option.splits)
  ultimately show ?thesis
    using keepUnknown_arrived [OF k(3) ne, of ?k] k(2) by (simp add: parseHelloSignatures_def lookups [OF ok] c(2))
qed

lemma parseHelloShares_run:
  assumes ok: "sendableHello validName h" and v: "marshalHelloValues h = Inr v"
  shows "parseHelloShares (helloExtensions h v) k = Inr (k\<lparr>ch_supportedGroups := ch_supportedGroups h, ch_keyShares := ch_keyShares h\<rparr>)"
proof -
  have "checkShareOrder (ch_supportedGroups h) (ch_keyShares h) = Inr ()"
    using ok unfolding checkShareOrder_subseq by (simp add: sendableHello_def clientHello_wf_def)
  then show ?thesis by (simp add: parseHelloShares_def lookups [OF ok] helloValues_carried [OF v ok])
qed

lemma parseHelloNames_run:
  assumes ok: "sendableHello validName h" and v: "marshalHelloValues h = Inr v"
    and k: "ch_serverName k = []" "ch_alpn k = []"
      "ch_ticketRequest k = \<lparr>tr_enabled = False, tr_newSessionCount = 0, tr_resumptionCount = 0\<rparr>"
  shows "parseHelloNames (helloExtensions h v) k =
    Inr (k\<lparr>ch_serverName := ch_serverName h, ch_alpn := ch_alpn h, ch_ticketRequest := ch_ticketRequest h\<rparr>)"
proof -
  note c = helloValues_carried [OF v ok]
  have "onExtension (helloExtensions h v) extServerName (\<lambda>raw h. rbind (parseServerName raw) (\<lambda>name. Inr (h\<lparr>ch_serverName := name\<rparr>))) k =
      Inr (k\<lparr>ch_serverName := ch_serverName h\<rparr>)"
    using c(5) k(1) by (intro on_carried) (cases k, simp add: lookups [OF ok])+
  moreover have "onExtension (helloExtensions h v) extALPN (\<lambda>raw h. rbind (parseALPN raw) (\<lambda>alpn. Inr (h\<lparr>ch_alpn := alpn\<rparr>)))
      (k\<lparr>ch_serverName := ch_serverName h\<rparr>) = Inr (k\<lparr>ch_serverName := ch_serverName h, ch_alpn := ch_alpn h\<rparr>)"
    using c(6) k(2) by (intro on_carried) (cases k, simp add: lookups [OF ok])+
  moreover have "tr_enabled (ch_ticketRequest h) \<or> ch_ticketRequest h = ch_ticketRequest k" using ok k(3) by (simp add: sendableHello_def)
  ultimately show ?thesis
    by (cases "tr_enabled (ch_ticketRequest h)") (auto simp: parseHelloNames_def onExtension_def lookups [OF ok] k(3))
qed


lemma parseHelloCompression_run:
  assumes ok: "sendableHello validName h" and v: "marshalHelloValues h = Inr v"
    and k: "\<not> ch_certificateCompressionOffered k" "ch_unknownExtensions k = arrivedUnknown h ts" "extCompressCertificate \<notin> set ts"
  shows "parseHelloCompression (helloExtensions h v) k =
    Inr (k\<lparr>ch_certificateCompressionOffered := ch_certificateCompressionOffered h,
       ch_unknownExtensions := arrivedUnknown h ts @
         (case certificateCompressionAlgorithms h of
            None \<Rightarrow> []
          | Some algorithms \<Rightarrow> if algorithms = certificateCompressionZlibOffer then [] else [(extCompressCertificate, Some algorithms)])\<rparr>)"
proof (cases "certificateCompressionAlgorithms h")
  case None
  then show ?thesis using k(1,2) helloValues_carried(12,13) [OF v ok] by (cases k) (simp add: parseHelloCompression_def lookups [OF ok])
next
  case (Some raw)
  note c = helloValues_carried(12-14) [OF v ok]
  have zlib: "length raw \<noteq> 3 \<or> raw ! 0 \<noteq> 2 \<or> raw ! 1 \<noteq> 0 \<or> raw ! 2 \<noteq> 1 \<longleftrightarrow> raw \<noteq> certificateCompressionZlibOffer"
  proof -
    have "length raw = 3 \<Longrightarrow> raw = [raw ! 0, raw ! 1, raw ! 2]" by (auto simp: numeral_3_eq_3 numeral_2_eq_2 length_Suc_conv)
    then show ?thesis unfolding certificateCompressionZlibOffer_def by fastforce
  qed
  obtain x where x: "parseCertificateCompressionAlgorithms raw = Inr x" using c(3) Some by (auto simp: readable_def)
  then have "raw \<noteq> []" by (auto simp: parseCertificateCompressionAlgorithms_def)
  moreover have "extCompressCertificate \<notin> fst ` set (arrivedUnknown h ts)" using arrived_keys k(3) by blast
  ultimately have kept: "setUnknown extCompressCertificate (copySlice raw) (k\<lparr>ch_certificateCompressionOffered := True\<rparr>) =
      k\<lparr>ch_certificateCompressionOffered := True, ch_unknownExtensions := arrivedUnknown h ts @ [(extCompressCertificate, Some raw)]\<rparr>"
    using update_fresh [of extCompressCertificate "arrivedUnknown h ts"] k(2) by (simp add: setUnknown_def copySlice_def)
  have "parseHelloCompression (helloExtensions h v) k = Inr (if raw \<noteq> certificateCompressionZlibOffer
      then setUnknown extCompressCertificate (copySlice raw) (k\<lparr>ch_certificateCompressionOffered := True\<rparr>)
      else k\<lparr>ch_certificateCompressionOffered := True\<rparr>)"
    unfolding zlib [symmetric] using c(1) Some x by (simp add: parseHelloCompression_def lookups [OF ok] Let_def)
  then show ?thesis using kept c(2) Some k(2) by (cases k) simp
qed

lemma parseHelloLimits_run:
  assumes ok: "sendableHello validName h" and v: "marshalHelloValues h = Inr v"
    and k: "ch_recordSizeLimit k = 0" "\<not> ch_hasRecordSizeLimit k" "\<not> ch_statusRequest k" "ch_statusRequestRaw k = []"
      "ch_cookie k = []" "ch_connectionID k = []" "\<not> ch_hasConnectionID k"
  shows "parseHelloLimits (helloExtensions h v) k =
    Inr (k\<lparr>ch_recordSizeLimit := ch_recordSizeLimit h, ch_hasRecordSizeLimit := ch_hasRecordSizeLimit h,
       ch_statusRequestRaw := (if ch_statusRequest h then marshalStatusRequest else []), ch_statusRequest := ch_statusRequest h,
       ch_cookie := ch_cookie h, ch_connectionID := ch_connectionID h, ch_hasConnectionID := ch_hasConnectionID h\<rparr>)"
proof -
  note c = helloValues_carried [OF v ok]
  let ?k1 = "k\<lparr>ch_recordSizeLimit := ch_recordSizeLimit h, ch_hasRecordSizeLimit := ch_hasRecordSizeLimit h\<rparr>"
  let ?k2 = "?k1\<lparr>ch_statusRequestRaw := (if ch_statusRequest h then marshalStatusRequest else []), ch_statusRequest := ch_statusRequest h\<rparr>"
  let ?k3 = "?k2\<lparr>ch_cookie := ch_cookie h\<rparr>"
  have limit: "ch_hasRecordSizeLimit h \<longrightarrow> minRecordSizeLimit \<le> ch_recordSizeLimit h" "ch_hasRecordSizeLimit h \<or> ch_recordSizeLimit h = 0"
    using ok by (simp_all add: sendableHello_def clientHello_wf_def)
  have "onExtension (helloExtensions h v) extRecordSizeLimit (\<lambda>raw h. rbind (parseRecordSizeLimit raw False) (\<lambda>limit.
      Inr (h\<lparr>ch_recordSizeLimit := limit, ch_hasRecordSizeLimit := True\<rparr>))) k = Inr ?k1"
    using limit k(1,2) by (cases k) (auto simp: onExtension_def lookups [OF ok] parseRecordSizeLimit_def Let_def)
  moreover have "parseStatusRequest marshalStatusRequest = Inr True" by code_simp
  then have "onExtension (helloExtensions h v) extStatusRequest (\<lambda>raw h. rbind (parseStatusRequest raw) (\<lambda>status.
      Inr (h\<lparr>ch_statusRequestRaw := raw, ch_statusRequest := status\<rparr>))) ?k1 = Inr ?k2"
    using k(3,4) by (cases k) (simp add: onExtension_def lookups [OF ok])
  moreover have "onExtension (helloExtensions h v) extCookie (\<lambda>raw h. rbind (parseCookie raw) (\<lambda>cookie. Inr (h\<lparr>ch_cookie := cookie\<rparr>))) ?k2 = Inr ?k3"
    using c(7) k(5) by (intro on_carried) (cases k, simp add: lookups [OF ok])+
  moreover have "onExtension (helloExtensions h v) extConnectionID (\<lambda>raw h. rbind (parseConnectionID raw) (\<lambda>cid.
      Inr (h\<lparr>ch_connectionID := cid, ch_hasConnectionID := True\<rparr>))) ?k3 =
    Inr (?k3\<lparr>ch_connectionID := ch_connectionID h, ch_hasConnectionID := ch_hasConnectionID h\<rparr>)"
  proof (cases "hv_connectionID v")
    case None
    then show ?thesis using c(8,9) k(6,7) by (cases k) (simp add: lookups [OF ok] carries_def)
  next
    case (Some raw)
    then show ?thesis using c(8,9) by (cases k) (simp add: lookups [OF ok] carries_def)
  qed
  ultimately show ?thesis unfolding parseHelloLimits_def by simp
qed

lemma on_flag:
  "orderedExtensionValue es t = (if c then Some [] else None) \<Longrightarrow>
   onExtension es t (emptyExtension text f) k = Inr (if c then f k else k)"
  by (simp add: onExtension_def emptyExtension_def)

lemma parseHelloFlags_run:
  assumes ok: "sendableHello validName h" and v: "marshalHelloValues h = Inr v"
    and k: "\<not> ch_returnRoutability k" "\<not> ch_postHandshakeAuth k" "\<not> ch_earlyData k" "\<not> ch_pskDHE k"
  shows "parseHelloFlags (helloExtensions h v) k =
    Inr (k\<lparr>ch_returnRoutability := ch_returnRoutability h, ch_postHandshakeAuth := ch_postHandshakeAuth h,
       ch_earlyData := ch_earlyData h, ch_pskDHE := (ch_pskIdentities h \<noteq> [] \<or> ch_pskDHE h)\<rparr>)"
proof -
  have "parsePSKKeyExchangeModes marshalPSKKeyExchangeModes = Inr True"
    by (simp add: parsePSKKeyExchangeModes_def marshalPSKKeyExchangeModes_def)
  moreover have "hv_psk v \<noteq> None \<longleftrightarrow> ch_pskIdentities h \<noteq> []" using helloValues_carried(11) [OF v ok] by simp
  ultimately show ?thesis
    using k by (cases k; cases "ch_pskIdentities h \<noteq> [] \<or> ch_pskDHE h")
      (simp_all add: parseHelloFlags_def on_flag lookups [OF ok])
qed

lemma parseHelloPSK_run:
  assumes ok: "sendableHello validName h" and v: "marshalHelloValues h = Inr v"
    and k: "ch_pskIdentities k = []" "ch_pskBinders k = []" "ch_pskIdentity k = []" "ch_obfuscatedAge k = 0" "ch_pskBinder k = []"
  shows "parseHelloPSK (helloExtensions h v) k =
    Inr (k\<lparr>ch_pskIdentities := ch_pskIdentities h, ch_pskBinders := ch_pskBinders h, ch_pskIdentity := ch_pskIdentity h,
       ch_obfuscatedAge := ch_obfuscatedAge h, ch_pskBinder := ch_pskBinder h\<rparr>)"
proof (cases "hv_psk v")
  case None
  then have "ch_pskIdentities h = []" using helloValues_carried(11) [OF v ok] by simp
  moreover have "ch_obfuscatedAge h = 0 \<and> ch_pskBinder h = []" "ch_pskBinders h = [] \<and> ch_pskIdentity h = []"
    using ok calculation by (auto simp: sendableHello_def clientHello_wf_def)
  ultimately show ?thesis using None k by (cases k) (simp add: parseHelloPSK_def lookups [OF ok])
next
  case (Some raw)
  have ids: "ch_pskIdentities h \<noteq> []" using helloValues_carried(11) [OF v ok] Some by auto
  then have wf: "psks_ok (ch_pskIdentities h, ch_pskBinders h)" "ch_pskIdentity h = psk_identity (hd (ch_pskIdentities h))"
    "ch_obfuscatedAge h = psk_obfuscatedAge (hd (ch_pskIdentities h))" "ch_pskBinder h = hd (ch_pskBinders h)"
    using ok by (auto simp: sendableHello_def clientHello_wf_def)
  then have "ch_pskBinders h \<noteq> []" by (auto simp: psks_ok_def)
  moreover have "parseClientPSKs raw = Inr (ch_pskIdentities h, ch_pskBinders h)"
    using helloValues_carried(10) [OF v ok] Some by (simp add: carries_def)
  moreover have "helloExtensions h v \<noteq> []" "oe_typ (last (helloExtensions h v)) = extPreSharedKey"
    unfolding helloExtensions_def by (simp_all add: Some optionalExtension_def)
  ultimately show ?thesis using Some ids wf by (simp add: parseHelloPSK_def lookups [OF ok] hd_conv_nth)
qed


section \<open>The bytes of a ClientHello\<close>

lemma suites_vector:
  assumes "length suites \<le> 32767" and "wb_err w = None"
  shows "endVector16 (wbU16List suites (snd (startVector16 w))) (fst (startVector16 w)) =
    wbAppend w (putUint16 (of_nat (2 * length suites)) @ putU16s suites)"
proof -
  have len: "length (concat (map putUint16 suites)) \<le> 65535" using assms(1) length_putU16s [of suites] by (simp add: putU16s_def)
  have "(let (start, out) = startVector16 w; out = fold (\<lambda>v w. wbU16 w (uint v)) suites out in endVector16 out start) =
      wbAppend w (putUint16 (of_nat (length (concat (map putUint16 suites)))) @ concat (map putUint16 suites))"
    by (rule build_vector16) (use len assms(2) in \<open>simp_all add: wbU16_word\<close>)
  then show ?thesis using length_putU16s [of suites]
    by (simp add: wbU16List_def case_prod_unfold Let_def putU16s_def)
qed

lemma marshalClientHello_iff:
  "marshalClientHello h = Inr b \<longleftrightarrow>
   ch_cipherSuites h \<noteq> [] \<and> (ch_hasRecordSizeLimit h \<longrightarrow> minRecordSizeLimit \<le> ch_recordSizeLimit h \<and> ch_recordSizeLimit h \<le> defaultRecordSizeLimit) \<and>
   length (ch_sessionID h) \<le> 255 \<and> length (ch_cipherSuites h) \<le> 32767 \<and>
   (\<exists>v. marshalHelloValues h = Inr v \<and> length (concat (map extensionBytes (helloExtensions h v))) \<le> 65535 \<and>
      b = helloLegacyBytes (ch_random h) (ch_sessionID h) (ch_cipherSuites h) @ extensionsBytes (helloExtensions h v))" (is "_ \<longleftrightarrow> ?r")
proof -
  let ?w0 = "wbBytes8 (wbBytes8 (wbAppend (wbU16 newWireBuilder (uint dtlsLegacyVersion)) (ch_random h)) (ch_sessionID h)) []"
  let ?w1 = "wbBytes8 (endVector16 (wbU16List (ch_cipherSuites h) (snd (startVector16 ?w0))) (fst (startVector16 ?w0))) [0]"
  have w: "wbResult (appendOrderedExtensions ?w1 es) = Inr (helloLegacyBytes (ch_random h) (ch_sessionID h) (ch_cipherSuites h) @ extensionsBytes es)"
    if s: "length (ch_sessionID h) \<le> 255" "length (ch_cipherSuites h) \<le> 32767" and es: "length (concat (map extensionBytes es)) \<le> 65535" for es
  proof -
    have w0: "?w0 = wbAppend newWireBuilder (putUint16 dtlsLegacyVersion @ ch_random h @ of_nat (length (ch_sessionID h)) # ch_sessionID h @ [0])"
      using s(1) by (simp only: wbU16_word newWireBuilder_err wbAppend_err) (simp add: wb_vectors wbAppend_append)
    have w1: "?w1 = wbAppend newWireBuilder (helloLegacyBytes (ch_random h) (ch_sessionID h) (ch_cipherSuites h))"
      unfolding w0 by (simp add: suites_vector [OF s(2)] wb_vectors wbAppend_append helloLegacyBytes_def)
    show ?thesis unfolding w1 using appendOrderedExtensions_ok [of _ es] value_small [OF es] es by (simp add: wbAppend_append wbResult_append)
  qed
  have "marshalClientHello h = Inr b \<longleftrightarrow>
    ch_cipherSuites h \<noteq> [] \<and> (ch_hasRecordSizeLimit h \<longrightarrow> minRecordSizeLimit \<le> ch_recordSizeLimit h \<and> ch_recordSizeLimit h \<le> defaultRecordSizeLimit) \<and>
    length (ch_sessionID h) \<le> 255 \<and> length (ch_cipherSuites h) \<le> 32767 \<and>
    (\<exists>v. marshalHelloValues h = Inr v \<and> (\<exists>n. orderedExtensionsWireLength (helloExtensions h v) = Inr n) \<and>
       wbResult (appendOrderedExtensions ?w1 (helloExtensions h v)) = Inr b)"
    by (auto simp: marshalClientHello_def Let_def case_prod_unfold not_less)
  also have "\<dots> \<longleftrightarrow> ?r" unfolding orderedExtensionsWireLength_ok using w by auto
  finally show ?thesis .
qed

section \<open>The round trip\<close>

lemma client_hello_received:
  assumes ok: "sendableHello validName h" and m: "marshalClientHello h = Inr b"
  shows "parseClientHello validName b = Inr (receivedHello h)"
proof -
  from m obtain v where v: "marshalHelloValues h = Inr v" and len: "length (concat (map extensionBytes (helloExtensions h v))) \<le> 65535" and n: "length (ch_cipherSuites h) \<le> 32767"
    and b: "b = helloLegacyBytes (ch_random h) (ch_sessionID h) (ch_cipherSuites h) @ extensionsBytes (helloExtensions h v)"
    unfolding marshalClientHello_iff by blast
  have es: "extensions_ok (helloExtensions h v)" using len helloExtensions_distinct [OF ok] by (simp add: extensions_ok_def)
  have wf: "length (ch_random h) = 32" "length (ch_sessionID h) \<le> 32" "ch_cipherSuites h \<noteq> []"
    and early: "ch_earlyData h \<longrightarrow> ch_pskIdentity h \<noteq> []" "ch_signatureSchemes h \<noteq> []"
    using ok by (auto simp: sendableHello_def clientHello_wf_def psks_ok_def split: if_splits)
  have view: "parseOrderedExtensionsView (extensionsBytes (helloExtensions h v)) = Inr (helloExtensions h v)"
    using es by (simp add: parseOrderedExtensionsView_iff)
  have check: "checkHello (helloExtensions h v) k = Inr k"
    if "ch_earlyData k = ch_earlyData h" "ch_pskIdentity k = ch_pskIdentity h" "ch_signatureSchemes k = ch_signatureSchemes h" for k
    using early that by (auto simp: checkHello_def lookups [OF ok])
  have unknown: "receivedUnknown h = arrivedUnknown h [extClientCertificateType, extServerCertificateType, extCachedInfo, extCertificateAuthorities] @
      (case certificateCompressionAlgorithms h of None \<Rightarrow> []
       | Some algorithms \<Rightarrow> if algorithms = certificateCompressionZlibOffer then [] else [(extCompressCertificate, Some algorithms)])"
    by (simp only: receivedUnknown_def arrivedUnknown_def)
  note start = helloStart_def emptyClientHello_def
  note stages = parseHelloECH_run [OF ok] checkHelloVersions_run [OF ok] parseHelloShares_run [OF ok v]
    parseHelloSignatures_run [OF ok v, where ts = "[extClientCertificateType, extServerCertificateType, extCachedInfo]"]
    parseHelloNames_run [OF ok v] parseHelloCompression_run [OF ok v, where
      ts = "[extClientCertificateType, extServerCertificateType, extCachedInfo, extCertificateAuthorities]"] parseHelloLimits_run [OF ok v] parseHelloFlags_run [OF ok v]
    parseHelloPSK_run [OF ok v] check
  show ?thesis
    unfolding parseClientHello_def b parseHelloLegacy_run [OF wf n] rbind_simps prod.case view classifyExtensions_run [OF ok v]
    by (simp add: stages start del: rbind_eq_Inr) (simp add: receivedHello_def unknown)
qed


text \<open>
  C13. Every ClientHello the parser accepts is well formed: the random has 32 bytes, the legacy
  session ID at most 32, there is a cipher suite, the key shares have pairwise different groups and
  non-empty data and follow the order of the supported groups, protocol names and connection IDs have
  legal lengths, a record size limit is at least 64, early data only comes with a pre-shared key, a
  PSK offer has as many binders as identities with the first copied to the single-PSK fields, and a
  hello without PSK has signature algorithms and groups.\<close>

theorem accepted_client_hello_wf:
  assumes "parseClientHello validName b = Inr h"
  shows "clientHello_wf h"
proof -
  from assms obtain s eb es h1 h2 h3 h4 h5 h6 h7 h8 where
    st: "parseHelloLegacy b = Inr (s, eb)" "classifyExtensions s es = Inr h1" "parseHelloECH es h1 = Inr h2"
      "parseHelloSignatures validName es h2 = Inr h3" "parseHelloShares es h3 = Inr h4" "parseHelloNames es h4 = Inr h5"
      "parseHelloCompression es h5 = Inr h6" "parseHelloLimits es h6 = Inr h7" "parseHelloFlags es h7 = Inr h8"
      and last: "\<exists>h9. parseHelloPSK es h8 = Inr h9 \<and> checkHello es h9 = Inr h"
    by (auto simp: parseClientHello_def)
  then obtain h9 where st9: "parseHelloPSK es h8 = Inr h9" "checkHello es h9 = Inr h" by blast
  from parseHelloLegacy_sound [OF st(1)] obtain random sid suites where
    s: "s = helloStart random sid suites" "length random = 32" "length sid \<le> 32" "suites \<noteq> []" by blast
  obtain m d u g where c1: "h1 = s\<lparr>ch_handshakeMetadata := m, ch_delegatedCredentialSchemes := d, ch_unknownExtensions := u, ch_grease := g\<rparr>"
    using classifyExtensions_changes [OF st(2)] by blast
  obtain e where c2: "h2 = h1\<lparr>ch_encryptedClientHelloExtension := e\<rparr>" using parseHelloECH_changes [OF st(3)] by blast
  obtain ss cs u' where c3: "h3 = h2\<lparr>ch_signatureSchemes := ss, ch_certificateSignatureSchemes := cs, ch_unknownExtensions := u'\<rparr>"
    using parseHelloSignatures_changes [OF st(4)] by blast
  obtain gs ks where c4: "h4 = h3\<lparr>ch_supportedGroups := gs, ch_keyShares := ks\<rparr>" using parseHelloShares_changes [OF st(5)] by blast
  obtain n a t where c5: "h5 = h4\<lparr>ch_serverName := n, ch_alpn := a, ch_ticketRequest := t\<rparr>" using parseHelloNames_changes [OF st(6)] by blast
  obtain co u'' where c6: "h6 = h5\<lparr>ch_certificateCompressionOffered := co, ch_unknownExtensions := u''\<rparr>"
    using parseHelloCompression_changes [OF st(7)] by blast
  obtain rl hr sr sq ck cid hc where c7: "h7 = h6\<lparr>ch_recordSizeLimit := rl, ch_hasRecordSizeLimit := hr, ch_statusRequestRaw := sr,
      ch_statusRequest := sq, ch_cookie := ck, ch_connectionID := cid, ch_hasConnectionID := hc\<rparr>"
    using parseHelloLimits_changes [OF st(8)] by blast
  obtain rr pa ed dhe where c8: "h8 = h7\<lparr>ch_returnRoutability := rr, ch_postHandshakeAuth := pa, ch_earlyData := ed, ch_pskDHE := dhe\<rparr>"
    using parseHelloFlags_changes [OF st(9)] by blast
  obtain ids bs i ag bi where c9: "h9 = h8\<lparr>ch_pskIdentities := ids, ch_pskBinders := bs, ch_pskIdentity := i, ch_obfuscatedAge := ag, ch_pskBinder := bi\<rparr>"
    using parseHelloPSK_changes [OF st9(1)] by blast
  note changes = s(1) c1 c2 c3 c4 c5 c6 c7 c8 c9 helloStart_def emptyClientHello_def
  note shares = parseHelloShares_sound [OF st(5)] and names = parseHelloNames_sound [OF st(6)]
    and limits = parseHelloLimits_sound [OF st(8)] and psk = parseHelloPSK_sound [OF st9(1)]
  have h: "h = h9" "ed \<longrightarrow> i \<noteq> []" "i = [] \<longrightarrow> ss \<noteq> [] \<and> orderedExtensionValue es extSupportedGroups \<noteq> None"
    using st9(2) by (auto simp: checkHello_def changes split: if_splits)
  show ?thesis
    using shares names limits psk s(2-4) h by (auto simp: clientHello_wf_def changes psks_ok_def)
qed

definition exampleHello :: clientHello where
  "exampleHello = emptyClientHello\<lparr>ch_cipherSuites := [0x1301], ch_keyShares := [\<lparr>ks_group = 29, ks_data = [5]\<rparr>],
     ch_signatureSchemes := [0x0403], ch_supportedGroups := [23, 29], ch_alpn := [[104, 50]], ch_connectionID := [7],
     ch_hasConnectionID := True, ch_grease := True, ch_statusRequest := True\<rparr>"

lemma exampleHello_sendable: "sendableHello (\<lambda>_. True) exampleHello"
  by (simp add: sendableHello_def clientHello_wf_def exampleHello_def emptyClientHello_def keyShares_ok_def alpn_ok_def
      readable_def nonNil_def alpnBytes_def)

lemma exampleHello_marshals: "\<exists>b. marshalClientHello exampleHello = Inr b"
proof -
  have shares: "keyShareList_ok [\<lparr>ks_group = 29, ks_data = [5]\<rparr>] True" by (simp add: keyShareList_ok_def keyShares_ok_def)
  have alpn: "alpn_ok [[104, 50]]" by (simp add: alpn_ok_def alpnBytes_def)
  from shares marshalALPN_ok [OF alpn] show ?thesis
    unfolding marshalClientHello_iff
    by (simp add: helloExtensions_def optionalExtension_def greaseExtension_def nonNil_def marshalStatusRequest_def
        clientSupportedVersionsStorage_def keyShareList_def exampleHello_def emptyClientHello_def marshalHelloValues_def marshalKeyShares_ok marshalSignatureSchemes_ok
        marshalSupportedGroups_ok encodeWhen_def marshalConnectionID_def wb_vectors wbResult_append marshalHelloPSK_def)
qed

theorem accepted_client_hello_wf_witness:
  "\<exists>b h. parseClientHello (\<lambda>_. True) b = Inr h \<and> clientHello_wf h \<and> ch_connectionID h = [7] \<and> ch_grease h"
proof -
  obtain b where "marshalClientHello exampleHello = Inr b" using exampleHello_marshals by blast
  note p = client_hello_received [OF exampleHello_sendable this]
  moreover have "ch_connectionID (receivedHello exampleHello) = [7]" "ch_grease (receivedHello exampleHello)"
    by (simp_all add: receivedHello_def exampleHello_def emptyClientHello_def)
  ultimately show ?thesis using accepted_client_hello_wf [OF p] by blast
qed



end
