(* ===== verification/Amplification.thy ===== *)
theory Amplification
  imports DTLS_Prelude
begin

text \<open>
  The anti-amplification budget of \<^verbatim>\<open>src/amplification.go\<close>: before the peer's address is validated
  a server sends at most three times the bytes it received. The counters are 64-bit and saturate.
  The datagram socket under \<^verbatim>\<open>amplificationConn\<close> is a parameter: what its Read returned and the
  function that stands for its Write. The mutex is not represented.
\<close>

section \<open>The contract of a send budget\<close>

text \<open>
  What a component that bounds its output by its input promises: an allowed send fits in three times
  the credit, is charged in full, and the credit never exceeds what was received. The counters
  \<open>received\<close> and \<open>sent\<close> are read as natural numbers, so that none of the laws can hide a wrap-around.
\<close>

datatype budget_event = Received nat | Sent nat

text \<open>A byte count is a Go \<^verbatim>\<open>int\<close>, so it is below $2^{63}$.\<close>

fun event_size :: "budget_event \<Rightarrow> nat" where
  "event_size (Received n) = n"
| "event_size (Sent n) = n"

locale send_budget =
  fixes received :: "'s \<Rightarrow> nat" and sent :: "'s \<Rightarrow> nat"
    and credit :: "'s \<Rightarrow> nat \<Rightarrow> 's" and spend :: "'s \<Rightarrow> nat \<Rightarrow> ('s \<times> bool)" and limited :: "'s \<Rightarrow> bool"
  assumes credit_received: "received (credit s n) \<le> received s + n"
    and credit_monotone: "received s \<le> received (credit s n)"
    and credit_sent: "sent (credit s n) = sent s"
    and credit_limited: "limited (credit s n) = limited s"
    and spend_granted: "limited s \<Longrightarrow> sent s \<le> 3 * received s \<Longrightarrow> n < 2 ^ 63 \<Longrightarrow> spend s n = (s', True) \<Longrightarrow> sent s' = sent s + n \<and> sent s' \<le> 3 * received s'"
    and spend_received: "spend s n = (s', ok) \<Longrightarrow> received s' = received s"
    and spend_limited: "spend s n = (s', ok) \<Longrightarrow> limited s' = limited s"
    and spend_refused: "spend s n = (s', False) \<Longrightarrow> sent s' = sent s"
begin

text \<open>The state after a sequence of events, with the bytes that arrived and the bytes that left.\<close>

fun run :: "'s \<Rightarrow> nat \<Rightarrow> nat \<Rightarrow> budget_event list \<Rightarrow> 's \<times> nat \<times> nat" where
  "run s inBytes outBytes [] = (s, inBytes, outBytes)"
| "run s inBytes outBytes (Received n # es) = run (credit s n) (inBytes + n) outBytes es"
| "run s inBytes outBytes (Sent n # es) =
     (let (s', ok) = spend s n in run s' inBytes (if ok then outBytes + n else outBytes) es)"

lemma run_bounded:
  assumes "limited s" and "received s \<le> inBytes" and "outBytes = sent s" and "sent s \<le> 3 * received s"
    and "\<forall>e \<in> set es. event_size e < 2 ^ 63" and "run s inBytes outBytes es = (s', inBytes', outBytes')"
  shows "limited s' \<and> received s' \<le> inBytes' \<and> outBytes' = sent s' \<and> sent s' \<le> 3 * received s'"
  using assms
proof (induction s inBytes outBytes es rule: run.induct)
  case (2 s i out n es)
  then show ?case
    using credit_received [of s n] credit_monotone [of s n] credit_sent [of s n] credit_limited [of s n] by force
next
  case (3 s i out n es)
  obtain t ok where t: "spend s n = (t, ok)" by fastforce
  show ?case
  proof (cases ok)
    case True
    then show ?thesis using 3 t spend_granted [of s n t] spend_received [OF t] spend_limited [OF t] by auto
  next
    case False
    then show ?thesis using 3 t spend_refused [of s n t] spend_received [OF t] spend_limited [OF t] by auto
  qed
qed auto

lemma output_bounded:
  assumes "limited s" and "received s = 0" and "sent s = 0" and "\<forall>e \<in> set es. event_size e < 2 ^ 63"
    and "run s 0 0 es = (s', inBytes, outBytes)"
  shows "outBytes \<le> 3 * inBytes"
  using run_bounded [OF assms(1) _ _ _ assms(4,5)] assms(2,3) by fastforce

end

section \<open>The guard\<close>

record amplificationGuard =
  ag_received :: u64
  ag_sent :: u64
  ag_validated :: bool

definition newAmplificationGuard :: amplificationGuard where
  "newAmplificationGuard = \<lparr>ag_received = 0, ag_sent = 0, ag_validated = False\<rparr>"

text \<open>\<^verbatim>\<open>^uint64(0)\<close> is \<open>- 1\<close>.\<close>

definition recordReceived :: "amplificationGuard \<Rightarrow> int \<Rightarrow> amplificationGuard" where
  "recordReceived g n =
     (if n \<le> 0 then g
      else if (- 1) - ag_received g < of_int n then g\<lparr>ag_received := - 1\<rparr>
      else g\<lparr>ag_received := ag_received g + of_int n\<rparr>)"

definition allowSend :: "amplificationGuard \<Rightarrow> int \<Rightarrow> amplificationGuard \<times> bool" where
  "allowSend g n =
     (if n < 0 then (g, False)
      else if ag_validated g then (g, True)
      else
        let budget = (if (- 1) div 3 < ag_received g then - 1 else ag_received g * 3)
        in if budget - ag_sent g < of_int n then (g, False)
           else (g\<lparr>ag_sent := ag_sent g + of_int n\<rparr>, True))"

definition validateAddress :: "amplificationGuard \<Rightarrow> amplificationGuard" where
  "validateAddress g = g\<lparr>ag_validated := True\<rparr>"

section \<open>The guarded connection\<close>

text \<open>
  \<open>ampRead\<close> takes what the socket's Read returned; \<open>ampWrite\<close> returns the datagram handed to the
  socket, if any, and the caller's result.
\<close>

definition ampRead :: "amplificationGuard \<Rightarrow> int \<times> go_error option \<Rightarrow> amplificationGuard \<times> (int \<times> go_error option)" where
  "ampRead g result = (recordReceived g (fst result), result)"

definition ampWrite ::
  "(bytes \<Rightarrow> int \<times> go_error option) \<Rightarrow> amplificationGuard \<Rightarrow> bytes \<Rightarrow> amplificationGuard \<times> bytes option \<times> (int \<times> go_error option)" where
  "ampWrite sock g p =
     (case allowSend g (int (length p)) of
        (g', False) \<Rightarrow> (g', None, (int (length p), None))
      | (g', True) \<Rightarrow> (g', Some p, sock p))"


section \<open>The guard keeps the contract\<close>

lemma max_word: "unat (- 1 :: u64) = 2 ^ 64 - 1"
  by (simp add: unsigned_minus_1_eq_mask mask_eq_exp_minus_1)

lemma budget_triple:
  fixes r :: u64
  shows "unat (if (- 1) div 3 < r then - 1 else r * 3) = min (3 * unat r) (2 ^ 64 - 1)"
proof (cases "(- 1) div 3 < r")
  case True
  then have "2 ^ 64 - 1 < 3 * unat r + 3" by (simp add: word_less_nat_alt unat_div max_word)
  moreover have "(2 :: nat) ^ 64 - 1 = 3 * 6148914691236517205" by simp
  ultimately have "2 ^ 64 - 1 \<le> 3 * unat r" using True by (simp add: word_less_nat_alt unat_div max_word)
  then show ?thesis using True by (simp add: max_word)
next
  case False
  then have "3 * unat r \<le> 2 ^ 64 - 1" by (simp add: word_less_nat_alt unat_div max_word not_less)
  then show ?thesis using False by (simp add: unat_word_ariths mult.commute min_def)
qed


lemma recordReceived_bounds:
  "unat (ag_received g) \<le> unat (ag_received (recordReceived g (int n))) \<and>
   unat (ag_received (recordReceived g (int n))) \<le> unat (ag_received g) + n"
proof (cases "n = 0")
  case False
  let ?w = "of_nat n :: u64"
  have w: "unat ?w \<le> n" by (simp add: unat_of_nat)
  show ?thesis
  proof (cases "(- 1) - ag_received g < ?w")
    case True
    have "unat ((- 1) - ag_received g) = 2 ^ 64 - 1 - unat (ag_received g)" by (subst unat_sub) (simp_all add: max_word)
    then have "2 ^ 64 - 1 < unat (ag_received g) + unat ?w" using True by (simp add: word_less_nat_alt)
    then show ?thesis using True False w unsigned_less [of "ag_received g", where 'a = nat]
      by (simp add: recordReceived_def max_word)
  next
    case no: False
    have "unat ((- 1) - ag_received g) = 2 ^ 64 - 1 - unat (ag_received g)" by (subst unat_sub) (simp_all add: max_word)
    then have "unat (ag_received g) + unat ?w \<le> 2 ^ 64 - 1"
      using no unsigned_less [of "ag_received g", where 'a = nat] by (simp add: word_less_nat_alt not_less)
    then have "unat (ag_received g + ?w) = unat (ag_received g) + unat ?w" by (simp add: unat_word_ariths)
    then show ?thesis using no False w by (simp add: recordReceived_def)
  qed
qed (simp add: recordReceived_def)

lemma allowSend_unvalidated:
  assumes "\<not> ag_validated g" and "unat (ag_sent g) \<le> 3 * unat (ag_received g)" and "n < 2 ^ 63"
  shows "allowSend g (int n) =
    (if unat (ag_sent g) + n \<le> min (3 * unat (ag_received g)) (2 ^ 64 - 1)
     then (g\<lparr>ag_sent := ag_sent g + of_nat n\<rparr>, True) else (g, False))"
proof -
  let ?b = "if (- 1) div 3 < ag_received g then - 1 else ag_received g * 3"
  have n: "unat (of_nat n :: u64) = n" using assms(3) by (simp add: unat_of_nat)
  have "unat (ag_sent g) \<le> unat ?b"
    unfolding budget_triple using assms(2) unsigned_less [of "ag_sent g", where 'a = nat] by simp
  then have "ag_sent g \<le> ?b" by (simp add: word_le_nat_alt)
  then have "unat (?b - ag_sent g) = unat ?b - unat (ag_sent g)" by (rule unat_sub)
  then have "?b - ag_sent g < of_nat n \<longleftrightarrow> unat ?b - unat (ag_sent g) < n" by (simp add: word_less_nat_alt n)
  also have "\<dots> \<longleftrightarrow> \<not> unat (ag_sent g) + n \<le> min (3 * unat (ag_received g)) (2 ^ 64 - 1)"
    using \<open>unat (ag_sent g) \<le> unat ?b\<close> unfolding budget_triple by linarith
  finally show ?thesis using assms(1) by (simp add: allowSend_def Let_def)
qed

interpretation guard_budget: send_budget
  "\<lambda>g. unat (ag_received g)" "\<lambda>g. unat (ag_sent g)" "\<lambda>g n. recordReceived g (int n)" "\<lambda>g n. allowSend g (int n)" "\<lambda>g. \<not> ag_validated g"
proof
  fix g g' :: amplificationGuard and n ok
  show "unat (ag_received (recordReceived g (int n))) \<le> unat (ag_received g) + n"
    "unat (ag_received g) \<le> unat (ag_received (recordReceived g (int n)))" using recordReceived_bounds by simp_all
  show "unat (ag_sent (recordReceived g (int n))) = unat (ag_sent g)" "(\<not> ag_validated (recordReceived g (int n))) = (\<not> ag_validated g)"
    by (simp_all add: recordReceived_def)
  show "unat (ag_received g') = unat (ag_received g)" "(\<not> ag_validated g') = (\<not> ag_validated g)" if "allowSend g (int n) = (g', ok)"
    using that by (auto simp: allowSend_def Let_def split: if_splits)
  show "unat (ag_sent g') = unat (ag_sent g)" if "allowSend g (int n) = (g', False)"
    using that by (auto simp: allowSend_def Let_def split: if_splits)
  show "unat (ag_sent g') = unat (ag_sent g) + n \<and> unat (ag_sent g') \<le> 3 * unat (ag_received g')"
    if l: "\<not> ag_validated g" "unat (ag_sent g) \<le> 3 * unat (ag_received g)" "n < 2 ^ 63" and s: "allowSend g (int n) = (g', True)"
  proof -
    from s allowSend_unvalidated [OF l] have b: "unat (ag_sent g) + n \<le> min (3 * unat (ag_received g)) (2 ^ 64 - 1)"
      and g': "g' = g\<lparr>ag_sent := ag_sent g + of_nat n\<rparr>" by (auto split: if_splits)
    have "unat (ag_sent g + of_nat n) = unat (ag_sent g) + n" using b l(3) by (simp add: unat_word_ariths unat_of_nat)
    then show ?thesis using b g' by simp
  qed
qed

section \<open>Runs of the guarded connection\<close>

datatype ampEvent = AmpRead "int \<times> go_error option" | AmpWrite bytes

fun ampRun :: "(bytes \<Rightarrow> int \<times> go_error option) \<Rightarrow> amplificationGuard \<Rightarrow> ampEvent list \<Rightarrow> amplificationGuard \<times> bytes list" where
  "ampRun sock g [] = (g, [])"
| "ampRun sock g (AmpRead result # es) = ampRun sock (fst (ampRead g result)) es"
| "ampRun sock g (AmpWrite p # es) =
     (let (g', datagram, _) = ampWrite sock g p;
          (g'', out) = ampRun sock g' es
      in (g'', case datagram of None \<Rightarrow> out | Some d \<Rightarrow> d # out))"

fun budgetEvent :: "ampEvent \<Rightarrow> budget_event" where
  "budgetEvent (AmpRead result) = Received (nat (fst result))"
| "budgetEvent (AmpWrite p) = Sent (length p)"

fun bytesIn :: "ampEvent list \<Rightarrow> nat" where
  "bytesIn [] = 0"
| "bytesIn (AmpRead result # es) = nat (fst result) + bytesIn es"
| "bytesIn (AmpWrite p # es) = bytesIn es"

lemma ampRun_budget:
  "guard_budget.run g i out (map budgetEvent es) =
     (fst (ampRun sock g es), i + bytesIn es, out + sum_list (map length (snd (ampRun sock g es))))"
proof (induction sock g es arbitrary: i out rule: ampRun.induct)
  case (2 sock g result es)
  have "recordReceived g (int (nat (fst result))) = recordReceived g (fst result)" by (simp add: recordReceived_def)
  then show ?case using 2 by (simp add: ampRead_def)
next
  case (3 sock g p es)
  obtain g' ok where a: "allowSend g (int (length p)) = (g', ok)" by fastforce
  obtain g'' o' where r: "ampRun sock g' es = (g'', o')" by fastforce
  from 3 [of "(g', if ok then Some p else None, if ok then sock p else (int (length p), None))"] a
  show ?case by (cases ok) (simp_all add: ampWrite_def r)
qed simp

text \<open>
  C36. Before the peer's address is validated, a server never sends more than three times what it
  received: over any sequence of reads and writes on the guarded connection the datagrams handed to
  the socket add up to at most three times the bytes read. This holds although the counters are
  64-bit and saturate, and a write that stays within the budget is never suppressed.\<close>

theorem amplification_bounded:
  assumes "ampRun sock newAmplificationGuard es = (g, out)" and "\<forall>e \<in> set es. event_size (budgetEvent e) < 2 ^ 63"
  shows "sum_list (map length out) \<le> 3 * bytesIn es \<and>
    (length p < 2 ^ 63 \<longrightarrow> unat (ag_sent g) + length p \<le> min (3 * unat (ag_received g)) (2 ^ 64 - 1) \<longrightarrow>
     fst (snd (ampWrite sock g p)) = Some p)"
proof -
  have run: "guard_budget.run newAmplificationGuard 0 0 (map budgetEvent es) = (g, bytesIn es, sum_list (map length out))"
    using ampRun_budget [of newAmplificationGuard 0 0 es sock] assms(1) by simp
  have sizes: "\<forall>e \<in> set (map budgetEvent es). event_size e < 2 ^ 63" using assms(2) by simp
  have new: "\<not> ag_validated newAmplificationGuard" "unat (ag_received newAmplificationGuard) = 0" "unat (ag_sent newAmplificationGuard) = 0"
    by (simp_all add: newAmplificationGuard_def)
  have "sum_list (map length out) \<le> 3 * bytesIn es" using guard_budget.output_bounded [OF new sizes run] .
  moreover have "\<not> ag_validated g \<and> unat (ag_sent g) \<le> 3 * unat (ag_received g)"
    using guard_budget.run_bounded [OF new(1) _ _ _ sizes run] new(2,3) by auto
  ultimately show ?thesis using allowSend_unvalidated [of g "length p"] by (auto simp: ampWrite_def)
qed

theorem amplification_bounded_witness:
  "let (g, out) = ampRun (\<lambda>p. (int (length p), None)) newAmplificationGuard [AmpRead (2, None), AmpWrite [1, 2, 3, 4, 5], AmpWrite [6, 7]]
   in out = [[1, 2, 3, 4, 5]] \<and> sum_list (map length out) \<le> 3 * bytesIn [AmpRead (2, None), AmpWrite [1, 2, 3, 4, 5], AmpWrite [6, 7]]"
proof -
  have run: "ampRun (\<lambda>p. (int (length p), None)) newAmplificationGuard [AmpRead (2, None), AmpWrite [1, 2, 3, 4, 5], AmpWrite [6, 7]] =
      (\<lparr>ag_received = 2, ag_sent = 5, ag_validated = False\<rparr>, [[1, 2, 3, 4, 5]])" by code_simp
  then show ?thesis using amplification_bounded [OF run] by simp
qed

end
