(* ===== verification/Cookie.thy ===== *)
theory Cookie
  imports DTLS_Prelude
begin

text \<open>
  The stateless retry cookies of \<^verbatim>\<open>src/cookie.go\<close>. HMAC-SHA256 is the parameter \<open>hmac\<close>. Instants and
  durations are numbers of nanoseconds, instants without bound; a call takes the successive readings
  of its clock as arguments, and the outcome of \<^verbatim>\<open>io.ReadFull\<close> on 32 bytes of the random source, which
  is \<open>None\<close> when the protector has no such source. The mutex is not represented.
\<close>

abbreviation cookieMACSize :: nat where "cookieMACSize \<equiv> 32"
abbreviation second :: int where "second \<equiv> 1000000000"

record cookieKey =
  ck_id :: u8
  ck_secret :: bytes

record cookieProtector =
  cp_current :: cookieKey
  cp_previous :: "cookieKey option"
  cp_lifetime :: int
  cp_rotated :: int

text \<open>\<^verbatim>\<open>Time.Sub\<close> saturates at the ends of the 64-bit range.\<close>

definition timeSub :: "int \<Rightarrow> int \<Rightarrow> int" where
  "timeSub t u = max (- (2 ^ 63)) (min (2 ^ 63 - 1) (t - u))"

definition invalidCookie :: go_error where
  "invalidCookie = ErrorString ''dtls13: invalid cookie''"

definition newCookieProtector :: "u8 \<Rightarrow> bytes \<Rightarrow> int \<Rightarrow> int \<Rightarrow> cookieProtector result" where
  "newCookieProtector keyID secret lifetime now =
     (if length secret < 32 then Inl (ErrorString ''dtls13: cookie secret must be at least 32 bytes'')
      else if lifetime \<le> 0 then Inl (ErrorString ''dtls13: cookie lifetime must be positive'')
      else Inr \<lparr>cp_current = \<lparr>ck_id = keyID, ck_secret = secret\<rparr>, cp_previous = None, cp_lifetime = lifetime, cp_rotated = now\<rparr>)"

definition rotateLocked :: "int \<Rightarrow> cookieProtector \<Rightarrow> u8 \<Rightarrow> bytes \<Rightarrow> cookieProtector result" where
  "rotateLocked now p keyID secret =
     (if length secret < 32 then Inl (ErrorString ''dtls13: cookie secret must be at least 32 bytes'')
      else Inr (p\<lparr>cp_previous := Some (cp_current p), cp_current := \<lparr>ck_id = keyID, ck_secret = secret\<rparr>, cp_rotated := now\<rparr>))"

definition rotateIfNeededLocked :: "int \<Rightarrow> int \<Rightarrow> bytes result option \<Rightarrow> cookieProtector \<Rightarrow> cookieProtector result" where
  "rotateIfNeededLocked check now draw p =
     (case draw of
        None \<Rightarrow> Inr p
      | Some secret \<Rightarrow>
          if timeSub check (cp_rotated p) < cp_lifetime p div 2 then Inr p
          else rbind secret (\<lambda>secret. rotateLocked now p (ck_id (cp_current p) + 1) secret))"

definition cookieMAC :: "(bytes \<Rightarrow> bytes \<Rightarrow> bytes) \<Rightarrow> bytes \<Rightarrow> bytes \<Rightarrow> bytes \<Rightarrow> bytes" where
  "cookieMAC hmac key address prefix = hmac key (address @ prefix)"

definition cookieSeal ::
  "(bytes \<Rightarrow> bytes \<Rightarrow> bytes) \<Rightarrow> int \<Rightarrow> int \<Rightarrow> int \<Rightarrow> bytes result option \<Rightarrow> cookieProtector \<Rightarrow> bytes \<Rightarrow> bytes \<Rightarrow> cookieProtector \<times> bytes result" where
  "cookieSeal hmac t0 t1 t2 draw p address clientHelloHash =
     (case rotateIfNeededLocked t0 t1 draw p of
        Inl err \<Rightarrow> (p, Inl err)
      | Inr p \<Rightarrow>
          if length clientHelloHash = 0 \<or> 255 < length clientHelloHash
            then (p, Inl (ErrorString ''dtls13: invalid ClientHello hash length''))
          else
            let prefix = [ck_id (cp_current p)] @ putUint64 (of_int (t2 div second)) @
                         [of_nat (length clientHelloHash)] @ clientHelloHash
            in (p, Inr (prefix @ cookieMAC hmac (ck_secret (cp_current p)) address prefix)))"

definition cookieKeyFor :: "cookieProtector \<Rightarrow> u8 \<Rightarrow> bytes option" where
  "cookieKeyFor p keyID =
     (if keyID = ck_id (cp_current p) then Some (ck_secret (cp_current p))
      else case cp_previous p of
             Some k \<Rightarrow> if keyID = ck_id k then Some (ck_secret k) else None
           | None \<Rightarrow> None)"

definition cookieOpen ::
  "(bytes \<Rightarrow> bytes \<Rightarrow> bytes) \<Rightarrow> int \<Rightarrow> int \<Rightarrow> int \<Rightarrow> bytes result option \<Rightarrow> cookieProtector \<Rightarrow> bytes \<Rightarrow> bytes \<Rightarrow> cookieProtector \<times> bytes result" where
  "cookieOpen hmac t0 t1 t2 draw p address cookie =
     (case rotateIfNeededLocked t0 t1 draw p of
        Inl err \<Rightarrow> (p, Inl err)
      | Inr p \<Rightarrow>
          (p, if length cookie < 10 + cookieMACSize then Inl invalidCookie
              else
                let hashLen = unat (cookie ! 9) in
                if hashLen = 0 \<or> length cookie \<noteq> 10 + hashLen + cookieMACSize then Inl invalidCookie
                else
                  case cookieKeyFor p (cookie ! 0) of
                    None \<Rightarrow> Inl invalidCookie
                  | Some key \<Rightarrow>
                      let prefix = take (10 + hashLen) cookie;
                          mac = drop (10 + hashLen) cookie
                      in if cookieMAC hmac key address prefix \<noteq> mac then Inl invalidCookie
                         else
                           let created = sint (getUint64 (slice 1 9 cookie)) * second in
                           if t2 + 60 * second < created \<or> cp_lifetime p < timeSub t2 created
                             then Inl (ErrorString ''dtls13: expired cookie'')
                           else Inr (slice 10 (10 + hashLen) cookie)))"


text \<open>\<open>ensureCookieProtector\<close> of \<^verbatim>\<open>src/config.go\<close>: the protector of a configuration is filled in on first use.\<close>

definition ensureCookieProtector :: "bytes result \<Rightarrow> int \<Rightarrow> cookieProtector \<Rightarrow> cookieProtector result" where
  "ensureCookieProtector draw now p =
     (if 32 \<le> length (ck_secret (cp_current p)) then Inr p
      else rbind draw (\<lambda>secret.
        Inr (p\<lparr>cp_current := \<lparr>ck_id = 1, ck_secret = secret\<rparr>, cp_lifetime := 60 * second, cp_rotated := now\<rparr>)))"

section \<open>Other calls between sealing and opening\<close>

text \<open>
  Every call of \<open>seal\<close> and \<open>open\<close> changes the protector by \<open>rotateIfNeededLocked\<close> only. \<open>cookieCalls\<close>
  is the protector after a sequence of such calls, each given by its two clock readings and its draw.
\<close>

fun cookieCalls :: "cookieProtector \<Rightarrow> (int \<times> int \<times> bytes result option) list \<Rightarrow> cookieProtector" where
  "cookieCalls p [] = p"
| "cookieCalls p ((t0, t1, draw) # cs) =
     cookieCalls (case rotateIfNeededLocked t0 t1 draw p of Inl _ \<Rightarrow> p | Inr p' \<Rightarrow> p') cs"

lemma cookie_calls_are_rotations:
  "fst (cookieSeal hmac t0 t1 t2 draw p address hash) = cookieCalls p [(t0, t1, draw)]"
  "fst (cookieOpen hmac t0 t1 t2 draw p address cookie) = cookieCalls p [(t0, t1, draw)]"
  by (simp_all add: cookieSeal_def cookieOpen_def Let_def split: sum.split)

lemma rotateIfNeeded_cases:
  assumes "rotateIfNeededLocked t0 t1 draw p = Inr p'"
  shows "p' = p \<or> cp_lifetime p div 2 \<le> timeSub t0 (cp_rotated p) \<and>
    (\<exists>secret. p' = p\<lparr>cp_previous := Some (cp_current p), cp_current := \<lparr>ck_id = ck_id (cp_current p) + 1, ck_secret = secret\<rparr>, cp_rotated := t1\<rparr>)"
proof (cases draw)
  case None
  then show ?thesis using assms by (simp add: rotateIfNeededLocked_def)
next
  case (Some secret)
  then show ?thesis using assms
    by (cases "timeSub t0 (cp_rotated p) < cp_lifetime p div 2") (auto simp: rotateIfNeededLocked_def rotateLocked_def split: if_splits)
qed

text \<open>
  The key of a cookie, current at instant \<open>r\<close>, is still there as long as the clock has not passed two
  half lifetimes since \<open>r\<close>: it is current, or previous and the rotation was a half lifetime after \<open>r\<close>.
\<close>

definition keyAvailable :: "cookieKey \<Rightarrow> int \<Rightarrow> int \<Rightarrow> cookieProtector \<Rightarrow> bool" where
  "keyAvailable k r lifetime p \<longleftrightarrow> cp_lifetime p = lifetime \<and>
     (cp_current p = k \<and> cp_rotated p = r \<or>
      cp_previous p = Some k \<and> ck_id (cp_current p) = ck_id k + 1 \<and> r + lifetime div 2 \<le> cp_rotated p)"

lemma timeSub_ge: "0 \<le> d \<Longrightarrow> d \<le> timeSub t u \<Longrightarrow> u + d \<le> t"
  by (simp add: timeSub_def max_def min_def split: if_splits)

lemma timeSub_less: "t < u + d \<Longrightarrow> 0 < d \<Longrightarrow> timeSub t u < d"
  by (simp add: timeSub_def max_def min_def)

lemma keyAvailable_rotate:
  assumes "keyAvailable k r L p" and "0 \<le> L" and "t0 < r + 2 * (L div 2)" and "t0 \<le> t1"
    and "rotateIfNeededLocked t0 t1 draw p = Inr p'"
  shows "keyAvailable k r L p'"
proof (cases "p' = p")
  case True
  then show ?thesis using assms(1) by simp
next
  case False
  with rotateIfNeeded_cases [OF assms(5)] obtain secret where 2: "cp_lifetime p div 2 \<le> timeSub t0 (cp_rotated p)"
    "p' = p\<lparr>cp_previous := Some (cp_current p), cp_current := \<lparr>ck_id = ck_id (cp_current p) + 1, ck_secret = secret\<rparr>, cp_rotated := t1\<rparr>"
    by blast
  have half: "0 \<le> L div 2" using assms(2) by simp
  have L: "cp_lifetime p = L" using assms(1) by (simp add: keyAvailable_def)
  from 2(1) L have t: "cp_rotated p + L div 2 \<le> t0" using timeSub_ge [OF half] by simp
  then have "cp_current p = k \<and> cp_rotated p = r" using assms(1,3) by (auto simp: keyAvailable_def)
  then show ?thesis using 2(2) L t assms(4) by (simp add: keyAvailable_def)
qed

lemma keyAvailable_calls:
  "keyAvailable k r L p \<Longrightarrow> 0 \<le> L \<Longrightarrow> \<forall>(t0, t1, draw) \<in> set cs. t0 < r + 2 * (L div 2) \<and> t0 \<le> t1 \<Longrightarrow> keyAvailable k r L (cookieCalls p cs)"
proof (induction cs arbitrary: p)
  case (Cons c cs)
  obtain t0 t1 draw where c: "c = (t0, t1, draw)" by (cases c)
  have "keyAvailable k r L (case rotateIfNeededLocked t0 t1 draw p of Inl _ \<Rightarrow> p | Inr p' \<Rightarrow> p')"
    using Cons.prems c keyAvailable_rotate [of k r L p t0 t1 draw] by (simp split: sum.split)
  then show ?case using Cons c by simp
qed simp

lemma keyAvailable_key: "keyAvailable k r L p \<Longrightarrow> cookieKeyFor p (ck_id k) = Some (ck_secret k)"
  by (auto simp: keyAvailable_def cookieKeyFor_def)


section \<open>Cookies are accepted\<close>

definition cookiePrefix :: "cookieKey \<Rightarrow> int \<Rightarrow> bytes \<Rightarrow> bytes" where
  "cookiePrefix k t hash = [ck_id k] @ putUint64 (of_int (t div second)) @ [of_nat (length hash)] @ hash"

lemma cookie_layout:
  assumes "0 < length hash" and "length hash \<le> 255" and "length mac = 32"
  shows "(cookiePrefix k t hash @ mac) ! 0 = ck_id k" and "unat ((cookiePrefix k t hash @ mac) ! 9) = length hash"
    and "length (cookiePrefix k t hash @ mac) = 10 + length hash + 32"
    and "take (10 + length hash) (cookiePrefix k t hash @ mac) = cookiePrefix k t hash"
    and "drop (10 + length hash) (cookiePrefix k t hash @ mac) = mac"
    and "getUint64 (slice 1 9 (cookiePrefix k t hash @ mac)) = of_int (t div second)"
    and "slice 10 (10 + length hash) (cookiePrefix k t hash @ mac) = hash"
proof -
  have len: "length (cookiePrefix k t hash) = 10 + length hash" by (simp add: cookiePrefix_def)
  show "(cookiePrefix k t hash @ mac) ! 0 = ck_id k" by (simp add: cookiePrefix_def)
  have "(cookiePrefix k t hash @ mac) ! 9 = of_nat (length hash)" by (simp add: cookiePrefix_def nth_append)
  then show "unat ((cookiePrefix k t hash @ mac) ! 9) = length hash" using assms(2) by (simp add: unat_of_nat)
  show "length (cookiePrefix k t hash @ mac) = 10 + length hash + 32"
    "take (10 + length hash) (cookiePrefix k t hash @ mac) = cookiePrefix k t hash"
    "drop (10 + length hash) (cookiePrefix k t hash @ mac) = mac" using len assms(3) by simp_all
  show "getUint64 (slice 1 9 (cookiePrefix k t hash @ mac)) = of_int (t div second)"
    using get_putUint_Nil by (simp add: cookiePrefix_def slice_def)
  show "slice 10 (10 + length hash) (cookiePrefix k t hash @ mac) = hash" by (simp add: cookiePrefix_def slice_def)
qed

lemma created_in_window:
  assumes "0 \<le> t" and "t div second < 2 ^ 63" and "t \<le> u" and "u \<le> t + L div 2" and "2 * second \<le> L"
  shows "sint (of_int (t div second) :: u64) = t div second" and "\<not> u + 60 * second < t div second * second"
    and "\<not> L < timeSub u (t div second * second)"
proof -
  show "sint (of_int (t div second) :: u64) = t div second" using assms(1,2) by (simp add: signed_of_int signed_take_bit_int_eq_self_iff pos_imp_zdiv_nonneg_iff)
  have c: "t div second * second \<le> t" "t - second < t div second * second"
    using minus_mod_eq_div_mult [of t second] pos_mod_bound [of second t] pos_mod_sign [of second t] by linarith+
  show "\<not> u + 60 * second < t div second * second" using c(1) assms(3) by linarith
  have "u - t div second * second \<le> L" using c(2) assms(4,5) by linarith
  then show "\<not> L < timeSub u (t div second * second)" using c(1) assms(3) by (simp add: timeSub_def max_def min_def)
qed


lemma sealed_cookie:
  assumes seal: "cookieSeal hmac t0 t1 t2 draw p address hash = (p', Inr cookie)"
    and draw: "draw \<noteq> None" and "t0 \<le> t1" and L: "2 * second \<le> cp_lifetime p" "cp_lifetime p < 2 ^ 63"
  shows "0 < length hash \<and> length hash \<le> 255 \<and> cp_lifetime p' = cp_lifetime p \<and> t0 < cp_rotated p' + cp_lifetime p div 2 \<and>
    cookie = cookiePrefix (cp_current p') t2 hash @ hmac (ck_secret (cp_current p')) (address @ cookiePrefix (cp_current p') t2 hash)"
proof -
  from seal have r: "rotateIfNeededLocked t0 t1 draw p = Inr p'"
    and c: "0 < length hash" "length hash \<le> 255"
      "cookie = cookiePrefix (cp_current p') t2 hash @ hmac (ck_secret (cp_current p')) (address @ cookiePrefix (cp_current p') t2 hash)"
    by (auto simp: cookieSeal_def Let_def cookieMAC_def cookiePrefix_def split: sum.splits if_splits)
  have "t0 < cp_rotated p' + cp_lifetime p div 2 \<and> cp_lifetime p' = cp_lifetime p"
  proof (cases "timeSub t0 (cp_rotated p) < cp_lifetime p div 2")
    case True
    then have "p' = p" using r draw by (auto simp: rotateIfNeededLocked_def)
    moreover have "t0 < cp_rotated p + cp_lifetime p div 2"
      using True L unfolding timeSub_def by linarith
    ultimately show ?thesis by simp
  next
    case False
    then have "cp_rotated p' = t1 \<and> cp_lifetime p' = cp_lifetime p"
      using r draw by (auto simp: rotateIfNeededLocked_def rotateLocked_def split: if_splits)
    then show ?thesis using assms(3) L by linarith
  qed
  then show ?thesis using c by blast
qed

lemma rotateIfNeeded_total: "32 \<le> length secret \<Longrightarrow> \<exists>p'. rotateIfNeededLocked u0 u1 (Some (Inr secret)) p = Inr p'"
  by (cases "timeSub u0 (cp_rotated p) < cp_lifetime p div 2") (simp_all add: rotateIfNeededLocked_def rotateLocked_def)

lemma cookieOpen_available:
  assumes key: "keyAvailable k r L p" and rot: "rotateIfNeededLocked u0 u1 draw p = Inr p'" "keyAvailable k r L p'"
    and hash: "0 < length hash" "length hash \<le> 255" and hmac: "\<And>key message. length (hmac key message) = 32"
    and t: "0 \<le> t" "t div second < 2 ^ 63" "t \<le> u2" "u2 \<le> t + L div 2" "2 * second \<le> L"
  shows "snd (cookieOpen hmac u0 u1 u2 draw p address (cookiePrefix k t hash @ hmac (ck_secret k) (address @ cookiePrefix k t hash))) = Inr hash"
proof -
  have L: "cp_lifetime p' = L" using rot(2) by (simp add: keyAvailable_def)
  note layout = cookie_layout [OF hash hmac, of k t "ck_secret k" "address @ cookiePrefix k t hash"]
  show ?thesis
    unfolding cookieOpen_def rot(1) sum.case snd_conv layout(1-5) Let_def keyAvailable_key [OF rot(2)] option.case cookieMAC_def
      layout(6,7) created_in_window(1) [OF t] L
    using hash created_in_window(2,3) [OF t] by simp
qed

text \<open>
  C37. A retry cookie works when the client comes back in time: a cookie that \<open>seal\<close> issued opens to
  the same ClientHello hash for the same address within half a lifetime, whatever other calls the
  protector serves in between and although each of them may rotate the key, because the cookie's key
  is still the current or the previous one. (A cookie older than half a lifetime can already have
  lost its key to a second rotation, so the second half of the lifetime is not guaranteed.)\<close>

theorem cookie_accepted_within_half_lifetime:
  assumes "\<And>key message. length (hmac key message) = 32"
    and "cookieSeal hmac t0 t1 t2 draw p address hash = (p', Inr cookie)" and "draw \<noteq> None"
    and "0 \<le> t2" and "t2 div second < 2 ^ 63" and "t0 \<le> t1" and "t1 \<le> t2"
    and "2 * second \<le> cp_lifetime p" and "cp_lifetime p < 2 ^ 63"
    and "\<forall>(s0, s1, d) \<in> set calls. t2 \<le> s0 \<and> s0 \<le> s1 \<and> s1 \<le> u0"
    and "t2 \<le> u0" and "u0 \<le> u1" and "u1 \<le> u2" and "u2 \<le> t0 + cp_lifetime p div 2"
    and "draw' = Some (Inr secret)" and "32 \<le> length secret"
  shows "snd (cookieOpen hmac u0 u1 u2 draw' (cookieCalls p' calls) address cookie) = Inr hash"
proof -
  let ?L = "cp_lifetime p" and ?k = "cp_current p'" and ?r = "cp_rotated p'" and ?q = "cookieCalls p' calls"
  from sealed_cookie [OF assms(2,3,6,8,9)] have s: "0 < length hash" "length hash \<le> 255" "cp_lifetime p' = ?L"
    "t0 < ?r + ?L div 2"
    "cookie = cookiePrefix ?k t2 hash @ hmac (ck_secret ?k) (address @ cookiePrefix ?k t2 hash)" by auto
  have L: "0 \<le> ?L" using assms(8) by simp
  have "\<forall>(s0, s1, d) \<in> set calls. s0 < ?r + 2 * (?L div 2) \<and> s0 \<le> s1"
    using assms(10,12-14) s(4) by fastforce
  then have q: "keyAvailable ?k ?r ?L ?q"
    using keyAvailable_calls [of ?k ?r ?L p' calls] L s(3) by (simp add: keyAvailable_def)
  obtain q' where rot: "rotateIfNeededLocked u0 u1 draw' ?q = Inr q'"
    using rotateIfNeeded_total [OF assms(16), of u0 u1 ?q] assms(15) by blast
  have "u0 < ?r + 2 * (?L div 2)" using assms(12-14) s(4) by linarith
  from keyAvailable_rotate [OF q L this assms(12) rot] have q': "keyAvailable ?k ?r ?L q'" .
  have "u2 \<le> t2 + ?L div 2" "t2 \<le> u2" using assms(6,7,11-14) by linarith+
  from cookieOpen_available [OF q rot q' s(1,2) assms(1,4,5) this(2,1) assms(8)] show ?thesis unfolding s(5) .
qed

theorem cookie_accepted_within_half_lifetime_witness:
  "let p = \<lparr>cp_current = \<lparr>ck_id = 255, ck_secret = replicate 32 7\<rparr>, cp_previous = None, cp_lifetime = 60 * second, cp_rotated = 0\<rparr>;
       (p', cookie) = cookieSeal (\<lambda>key message. take 32 (message @ key @ replicate 32 0)) (29 * second) (29 * second) (29 * second)
          (Some (Inr (replicate 32 1))) p [1, 2] [9]
   in snd (cookieOpen (\<lambda>key message. take 32 (message @ key @ replicate 32 0)) (50 * second) (50 * second) (50 * second)
        (Some (Inr (replicate 32 3))) (cookieCalls p' [(31 * second, 31 * second, Some (Inr (replicate 32 2)))]) [1, 2] (projr cookie)) = Inr [9]"
proof -
  let ?h = "\<lambda>key message. take 32 (message @ key @ replicate 32 0) :: bytes"
  let ?p = "\<lparr>cp_current = \<lparr>ck_id = 255, ck_secret = replicate 32 7\<rparr>, cp_previous = None, cp_lifetime = 60 * second, cp_rotated = 0\<rparr>"
  have seal: "cookieSeal ?h (29 * second) (29 * second) (29 * second) (Some (Inr (replicate 32 1))) ?p [1, 2] [9] =
      (?p, Inr (cookiePrefix (cp_current ?p) (29 * second) [9] @ ?h (replicate 32 7) ([1, 2] @ cookiePrefix (cp_current ?p) (29 * second) [9])))"
    by (simp add: cookieSeal_def rotateIfNeededLocked_def timeSub_def Let_def cookieMAC_def cookiePrefix_def)
  show ?thesis unfolding Let_def seal prod.case sum.sel
    by (rule cookie_accepted_within_half_lifetime [OF _ seal, where secret = "replicate 32 3"]) simp_all
qed

end
