(* ===== verification/Hello_Retry.thy ===== *)
theory Hello_Retry
  imports Hello_Correct
begin

text \<open>
  HelloRetryRequest, \<^verbatim>\<open>src/hello_retry.go\<close>: a ServerHello with a fixed random value that asks the
  client to change its hello.
\<close>

definition helloRetryRequestRandom :: bytes where
  "helloRetryRequestRandom =
     [0xcf, 0x21, 0xad, 0x74, 0xe5, 0x9a, 0x61, 0x11, 0xbe, 0x1d, 0x8c, 0x02, 0x1e, 0x65, 0xb8, 0x91,
      0xc2, 0xa2, 0x11, 0x16, 0x7a, 0xbb, 0x8c, 0x5e, 0x07, 0x9e, 0x09, 0xe2, 0xc8, 0xa8, 0x33, 0x9c]"

abbreviation echAcceptConfirmationLen :: nat where "echAcceptConfirmationLen \<equiv> 8"

record helloRetryRequest =
  hrr_sessionID :: bytes
  hrr_cookie :: bytes
  hrr_echConfirmation :: bytes
  hrr_cipherSuite :: u16
  hrr_selectedGroup :: u16
  hrr_hasECHConfirmation :: bool

definition writeRetryExtensions :: "helloRetryRequest \<Rightarrow> wireBuilder \<Rightarrow> wireBuilder" where
  "writeRetryExtensions h w =
     (let (start, w) = startVector16 w;
          w = wbBytes16 (wbU16 w (uint extSupportedVersions)) serverSupportedVersionStorage;
          w = (if 0 < length (hrr_cookie h)
                 then wbBytes16 (wbU16 (wbU16 w (uint extCookie)) (2 + int (length (hrr_cookie h)))) (hrr_cookie h)
               else w);
          w = (if hrr_selectedGroup h \<noteq> 0
                 then wbU16 (wbU16 (wbU16 w (uint extKeyShare)) 2) (uint (hrr_selectedGroup h))
               else w);
          w = (if hrr_hasECHConfirmation h then wbBytes16 (wbU16 w (uint extECH)) (hrr_echConfirmation h) else w)
      in endVector16 w start)"

definition writeHelloRetryRequest :: "helloRetryRequest \<Rightarrow> bytes result" where
  "writeHelloRetryRequest h =
     (let w = wbU16 newWireBuilder (uint dtlsLegacyVersion);
          w = wbAppend w helloRetryRequestRandom;
          w = wbBytes8 w (hrr_sessionID h);
          w = wbU16 w (uint (hrr_cipherSuite h));
          w = wbU8 w 0
      in wbResult (writeRetryExtensions h w))"

definition marshalHelloRetryRequest :: "helloRetryRequest \<Rightarrow> bytes result" where
  "marshalHelloRetryRequest h =
     (if length (hrr_cookie h) = 0 \<and> hrr_selectedGroup h = 0
        then Inl (ProtocolError ''HelloRetryRequest does not request a change'')
      else if 65535 < length (hrr_cookie h) then Inl (ProtocolError ''16-bit vector overflow'')
      else if 255 < length (hrr_sessionID h) then Inl (ProtocolError ''8-bit vector overflow'')
      else
        rbind (addExtension 2 2) (\<lambda>n.
        rbind (addExtensionWhen (0 < length (hrr_cookie h)) n (2 + length (hrr_cookie h))) (\<lambda>n.
        rbind (addExtensionWhen (hrr_selectedGroup h \<noteq> 0) n 2) (\<lambda>n.
        rbind (addExtensionWhen (hrr_hasECHConfirmation h) n (length (hrr_echConfirmation h))) (\<lambda>_.
        writeHelloRetryRequest h)))))"

definition parseRetryLegacy :: "bytes \<Rightarrow> (bytes \<times> u16 \<times> bytes) result" where
  "parseRetryLegacy b =
     (let (version, p) = wpU16 (newWireParser b) in
      if version \<noteq> unat dtlsLegacyVersion then Inl (ProtocolError ''invalid HelloRetryRequest legacy version'')
      else
        let (random, p) = wpTake p 32 in
        if random \<noteq> helloRetryRequestRandom then Inl (ProtocolError ''ServerHello is not a HelloRetryRequest'')
        else
          let (sessionID, p) = wpBytes8 p in
          if length sessionID \<noteq> 0
            then Inl (alertError alertIllegalParameter (ProtocolError ''DTLS 1.3 HelloRetryRequest legacy_session_id must be empty''))
          else
            let (suite, p) = wpU16 p;
                (compression, p) = wpU8 p
            in if compression \<noteq> 0 then Inl (ProtocolError ''invalid HelloRetryRequest compression method'')
               else Inr (sessionID, of_nat suite, fst (wpTake p (int (length (wp_b p)) - int (wp_off p)))))"

definition checkRetryVersion :: "orderedExtension list \<Rightarrow> unit result" where
  "checkRetryVersion exts =
     (case orderedExtensionValue exts extSupportedVersions of
        None \<Rightarrow> Inl (alertError alertProtocolVersion (ProtocolError ''HelloRetryRequest has no supported_versions extension''))
      | Some v \<Rightarrow>
          if length v \<noteq> 2 then Inl (decodeError ''invalid HelloRetryRequest supported_versions length'')
          else if push_bit 8 (ucast (v ! 0)) OR ucast (v ! 1) \<noteq> VersionDTLS13
            then Inl (alertError alertIllegalParameter (ProtocolError ''HelloRetryRequest did not select DTLS 1.3''))
          else Inr ())"

definition parseRetryOptions :: "orderedExtension list \<Rightarrow> helloRetryRequest \<Rightarrow> helloRetryRequest result" where
  "parseRetryOptions exts h =
     rbind (onExtension exts extKeyShare
       (\<lambda>raw h. if length raw \<noteq> 2 then Inl (decodeError ''invalid HelloRetryRequest selected group length'')
                else Inr (h\<lparr>hrr_selectedGroup := push_bit 8 (ucast (raw ! 0)) OR ucast (raw ! 1)\<rparr>)) h) (\<lambda>h.
     rbind (onExtension exts extCookie
       (\<lambda>raw h. rbind (parseCookie raw) (\<lambda>cookie. Inr (h\<lparr>hrr_cookie := cookie\<rparr>))) h) (\<lambda>h.
     onExtension exts extECH
       (\<lambda>raw h. if length raw \<noteq> echAcceptConfirmationLen then Inl (decodeError ''invalid HelloRetryRequest ECH confirmation length'')
                else Inr (h\<lparr>hrr_echConfirmation := raw, hrr_hasECHConfirmation := True\<rparr>)) h))"

fun checkRetryExtensions :: "orderedExtension list \<Rightarrow> unit result" where
  "checkRetryExtensions [] = Inr ()"
| "checkRetryExtensions (e # es) =
     (if oe_typ e \<noteq> extSupportedVersions \<and> oe_typ e \<noteq> extCookie \<and> oe_typ e \<noteq> extKeyShare \<and> oe_typ e \<noteq> extECH
      then if knownExtensionType (oe_typ e)
             then Inl (alertError alertIllegalParameter (ProtocolError ''recognized extension is not permitted in HelloRetryRequest''))
           else Inl (alertError alertUnsupportedExtension (ProtocolError ''unsupported HelloRetryRequest extension''))
      else checkRetryExtensions es)"

definition parseHelloRetryRequest :: "bytes \<Rightarrow> helloRetryRequest result" where
  "parseHelloRetryRequest b =
     rbind (parseRetryLegacy b) (\<lambda>(sessionID, suite, extBytes).
     rbind (parseOrderedExtensionsView extBytes) (\<lambda>exts.
     rbind (checkRetryVersion exts) (\<lambda>_.
     rbind (parseRetryOptions exts
       \<lparr>hrr_sessionID = sessionID, hrr_cookie = [], hrr_echConfirmation = replicate echAcceptConfirmationLen 0,
        hrr_cipherSuite = suite, hrr_selectedGroup = 0, hrr_hasECHConfirmation = False\<rparr>) (\<lambda>h.
     rbind (checkRetryExtensions exts) (\<lambda>_.
     if length (hrr_cookie h) = 0 \<and> hrr_selectedGroup h = 0
       then Inl (ProtocolError ''HelloRetryRequest does not request a change'')
     else Inr h)))))"


section \<open>The encoder's output\<close>

definition retryExtensions :: "helloRetryRequest \<Rightarrow> orderedExtension list" where
  "retryExtensions h =
     [\<lparr>oe_typ = extSupportedVersions, oe_value = serverSupportedVersionStorage\<rparr>] @
     flagExtension extCookie (hrr_cookie h \<noteq> []) (putUint16 (of_nat (length (hrr_cookie h))) @ hrr_cookie h) @
     flagExtension extKeyShare (hrr_selectedGroup h \<noteq> 0) (putUint16 (hrr_selectedGroup h)) @
     flagExtension extECH (hrr_hasECHConfirmation h) (hrr_echConfirmation h)"

lemma retryExtensions_length:
  "length (concat (map extensionBytes (retryExtensions h))) = 6 + (if hrr_cookie h \<noteq> [] then 6 + length (hrr_cookie h) else 0) +
     (if hrr_selectedGroup h \<noteq> 0 then 6 else 0) + (if hrr_hasECHConfirmation h then 4 + length (hrr_echConfirmation h) else 0)"
  by (auto simp: retryExtensions_def optionalExtension_def serverSupportedVersionStorage_def)

lemma writeRetryExtensions_run:
  assumes "wb_err w = None" and "length (concat (map extensionBytes (retryExtensions h))) \<le> 65535"
  shows "writeRetryExtensions h w = wbAppend w (extensionsBytes (retryExtensions h))"
proof -
  have cookie: "length (hrr_cookie h) + 2 \<le> 65535" and ech: "hrr_hasECHConfirmation h \<longrightarrow> length (hrr_echConfirmation h) \<le> 65535"
    using assms(2) unfolding retryExtensions_length by (auto split: if_splits)
  have c: "wbU16 v (2 + int (length (hrr_cookie h))) = wbAppend v (putUint16 (of_nat (Suc (Suc (length (hrr_cookie h))))))"
    if "wb_err v = None" for v using that cookie by (simp add: wb_numbers add.commute)
  have body: "writeRetryExtensions h w = endVector16 (wbAppend w ([0, 0] @ concat (map extensionBytes (retryExtensions h)))) (int (length (wb_b w)))"
    using assms(1) cookie ech
    by (simp add: writeRetryExtensions_def retryExtensions_def wb_start wbU16_word wb_vectors wbAppend_append c
        extensionBytes_def serverSupportedVersionStorage_def optionalExtension_def wb_numbers Let_def)
  show ?thesis unfolding body wb_vector16 [OF assms] extensionsBytes_def ..
qed

lemma writeHelloRetryRequest_run:
  assumes "length (concat (map extensionBytes (retryExtensions h))) \<le> 65535" and "hrr_sessionID h = []"
  shows "writeHelloRetryRequest h =
    Inr (serverLegacyBytes helloRetryRequestRandom (hrr_cipherSuite h) @ extensionsBytes (retryExtensions h))"
proof -
  have "wbU8 (wbU16 (wbBytes8 (wbAppend (wbU16 newWireBuilder (uint dtlsLegacyVersion)) helloRetryRequestRandom) (hrr_sessionID h)) (uint (hrr_cipherSuite h))) 0 =
      wbAppend newWireBuilder (serverLegacyBytes helloRetryRequestRandom (hrr_cipherSuite h))"
    unfolding serverLegacyBytes_def
    using assms(2) by (simp only: wbU16_word newWireBuilder_err wbAppend_err) (simp add: wbU16_word wb_vectors wb_numbers wbAppend_append)
  then show ?thesis
    using writeRetryExtensions_run [OF _ assms(1), of "wbAppend newWireBuilder (serverLegacyBytes helloRetryRequestRandom (hrr_cipherSuite h))"]
    by (simp add: writeHelloRetryRequest_def wbAppend_append wbResult_append)
qed

lemma marshalHelloRetryRequest_iff:
  assumes "hrr_sessionID h = []"
  shows "marshalHelloRetryRequest h = Inr b \<longleftrightarrow>
    length (concat (map extensionBytes (retryExtensions h))) \<le> 65533 \<and> (hrr_cookie h = [] \<longrightarrow> hrr_selectedGroup h \<noteq> 0) \<and>
    b = serverLegacyBytes helloRetryRequestRandom (hrr_cipherSuite h) @ extensionsBytes (retryExtensions h)"
proof -
  have "marshalHelloRetryRequest h = Inr b \<longleftrightarrow>
    length (concat (map extensionBytes (retryExtensions h))) \<le> 65533 \<and> (hrr_cookie h = [] \<longrightarrow> hrr_selectedGroup h \<noteq> 0) \<and>
    writeHelloRetryRequest h = Inr b"
    using assms unfolding retryExtensions_length
    by (auto simp: marshalHelloRetryRequest_def addExtension_Inr addExtensionWhen_Inr split: if_splits)
  then show ?thesis using writeHelloRetryRequest_run [OF _ assms] by fastforce
qed

section \<open>Reading it back\<close>

lemma parseRetryLegacy_run:
  "parseRetryLegacy (serverLegacyBytes helloRetryRequestRandom suite @ exts) = Inr ([], suite, exts)"
proof -
  have r: "length helloRetryRequestRandom = 32" by (simp add: helloRetryRequestRandom_def)
  let ?b = "serverLegacyBytes helloRetryRequestRandom suite @ exts"
  obtain p1 where p1: "wpU16 (newWireParser ?b) = (unat dtlsLegacyVersion, p1)" "good p1"
    "rest p1 = helloRetryRequestRandom @ [0] @ putUint16 suite @ [0] @ exts"
    using wp_next(2) [of "newWireParser ?b" dtlsLegacyVersion] by (auto simp: serverLegacyBytes_def)
  from wp_next(3) [OF p1(2) this(3) r] obtain p2 where p2: "wpTake p1 32 = (helloRetryRequestRandom, p2)" "good p2"
    "rest p2 = of_nat (length ([] :: bytes)) # [] @ putUint16 suite @ [0] @ exts" by auto
  from wp_next(4) [OF p2(2,3)] obtain p3 where p3: "wpBytes8 p2 = ([], p3)" "good p3" "rest p3 = putUint16 suite @ 0 # exts" by auto
  from wp_next(2) [OF p3(2,3)] obtain p4 where p4: "wpU16 p3 = (unat suite, p4)" "good p4" "rest p4 = 0 # exts" by auto
  from wp_next(1) [OF p4(2,3)] obtain p5 where p5: "wpU8 p4 = (0, p5)" "good p5" "rest p5 = exts" by auto
  from wp_remaining [OF p5(2)] p5(3) have "fst (wpTake p5 (int (length (wp_b p5)) - int (wp_off p5))) = exts" by auto
  then show ?thesis by (simp add: parseRetryLegacy_def p1 p2 p3 p4 p5)
qed

lemma u16_bytes: "push_bit 8 (ucast (putUint16 v ! 0)) OR ucast (putUint16 v ! 1) = (v :: u16)"
  using get_putUint_Nil(1) [of v] by (simp add: getUint16_def)

lemma checkRetryExtensions_iff:
  "checkRetryExtensions es = Inr () \<longleftrightarrow> (\<forall>e\<in>set es. oe_typ e \<in> {extSupportedVersions, extCookie, extKeyShare, extECH})"
  by (induction es) auto

lemma retry_lookups:
  "orderedExtensionValue (retryExtensions h) extKeyShare =
     (if hrr_selectedGroup h = 0 then None else Some (putUint16 (hrr_selectedGroup h)))"
  "orderedExtensionValue (retryExtensions h) extCookie =
     (if hrr_cookie h = [] then None else Some (putUint16 (of_nat (length (hrr_cookie h))) @ hrr_cookie h))"
  "orderedExtensionValue (retryExtensions h) extECH =
     (if hrr_hasECHConfirmation h then Some (hrr_echConfirmation h) else None)"
  by (simp_all add: retryExtensions_def)

lemma parseRetryOptions_run:
  assumes "length (hrr_cookie h) \<le> 65535" and "length (hrr_echConfirmation h) = 8" and "hrr_sessionID h = []"
    and "hrr_hasECHConfirmation h \<or> hrr_echConfirmation h = replicate 8 0"
  shows "parseRetryOptions (retryExtensions h)
    \<lparr>hrr_sessionID = [], hrr_cookie = [], hrr_echConfirmation = replicate 8 0, hrr_cipherSuite = hrr_cipherSuite h,
     hrr_selectedGroup = 0, hrr_hasECHConfirmation = False\<rparr> = Inr h" (is "parseRetryOptions _ ?h0 = _")
proof -
  let ?e = "retryExtensions h"
  let ?h1 = "?h0\<lparr>hrr_selectedGroup := hrr_selectedGroup h\<rparr>"
  let ?h2 = "?h1\<lparr>hrr_cookie := hrr_cookie h\<rparr>"
  have 1: "onExtension ?e extKeyShare
     (\<lambda>raw h. if length raw \<noteq> 2 then Inl (decodeError ''invalid HelloRetryRequest selected group length'')
              else Inr (h\<lparr>hrr_selectedGroup := push_bit 8 (ucast (raw ! 0)) OR ucast (raw ! 1)\<rparr>)) ?h0 = Inr ?h1"
    unfolding onExtension_def retry_lookups by (cases "hrr_selectedGroup h = 0") (simp_all only: if_True if_False option.case u16_bytes, simp_all)
  have "hrr_cookie h \<noteq> [] \<Longrightarrow> parseCookie (putUint16 (of_nat (length (hrr_cookie h))) @ hrr_cookie h) = Inr (hrr_cookie h)"
    using assms(1) by (simp add: parseCookie_iff)
  then have 2: "onExtension ?e extCookie (\<lambda>raw h. rbind (parseCookie raw) (\<lambda>cookie. Inr (h\<lparr>hrr_cookie := cookie\<rparr>))) ?h1 = Inr ?h2"
    unfolding onExtension_def retry_lookups by (cases "hrr_cookie h = []") simp_all
  have 3: "onExtension ?e extECH
     (\<lambda>raw h. if length raw \<noteq> echAcceptConfirmationLen then Inl (decodeError ''invalid HelloRetryRequest ECH confirmation length'')
              else Inr (h\<lparr>hrr_echConfirmation := raw, hrr_hasECHConfirmation := True\<rparr>)) ?h2 = Inr h"
    unfolding onExtension_def retry_lookups using assms(2-4) by (cases h; cases "hrr_hasECHConfirmation h") simp_all
  show ?thesis unfolding parseRetryOptions_def 1 rbind_simps 2 3 ..
qed

text \<open>
  C38. A client reads the HelloRetryRequest the server wrote: whenever the encoder accepts a retry
  request with an empty legacy session ID, the parser accepts its output and returns the same cookie,
  selected group, cipher suite and ECH confirmation.\<close>

theorem hello_retry_roundtrip:
  assumes "marshalHelloRetryRequest h = Inr b" and "hrr_sessionID h = []" and "length (hrr_echConfirmation h) = 8"
    and "hrr_hasECHConfirmation h \<or> hrr_echConfirmation h = replicate 8 0"
  shows "parseHelloRetryRequest b = Inr h"
proof -
  from assms(1) marshalHelloRetryRequest_iff [OF assms(2)] have len: "length (concat (map extensionBytes (retryExtensions h))) \<le> 65533"
    and change: "hrr_cookie h = [] \<longrightarrow> hrr_selectedGroup h \<noteq> 0"
    and b: "b = serverLegacyBytes helloRetryRequestRandom (hrr_cipherSuite h) @ extensionsBytes (retryExtensions h)" by blast+
  have "extensions_ok (retryExtensions h)" using len by (simp add: extensions_ok_def retryExtensions_def)
  then have view: "parseOrderedExtensionsView (extensionsBytes (retryExtensions h)) = Inr (retryExtensions h)"
    by (simp add: parseOrderedExtensionsView_iff)
  have version: "checkRetryVersion (retryExtensions h) = Inr ()"
    by (simp add: checkRetryVersion_def retryExtensions_def serverSupportedVersionStorage_def)
  have types: "checkRetryExtensions (retryExtensions h) = Inr ()"
    unfolding checkRetryExtensions_iff retryExtensions_def by (simp add: optional_set ball_Un split del: if_split)
  have cookie: "length (hrr_cookie h) \<le> 65535" using len unfolding retryExtensions_length by (auto split: if_splits)
  note options = parseRetryOptions_run [OF cookie assms(3,2,4)]
  have "parseHelloRetryRequest b =
      (if length (hrr_cookie h) = 0 \<and> hrr_selectedGroup h = 0
         then Inl (ProtocolError ''HelloRetryRequest does not request a change'') else Inr h)"
    unfolding parseHelloRetryRequest_def b parseRetryLegacy_run rbind_simps case_prod_conv view version options types ..
  with change show ?thesis by simp
qed

theorem hello_retry_roundtrip_witness:
  "\<exists>b. marshalHelloRetryRequest \<lparr>hrr_sessionID = [], hrr_cookie = [1, 2], hrr_echConfirmation = replicate 8 0, hrr_cipherSuite = 0x1301,
      hrr_selectedGroup = 29, hrr_hasECHConfirmation = True\<rparr> = Inr b \<and>
    parseHelloRetryRequest b = Inr \<lparr>hrr_sessionID = [], hrr_cookie = [1, 2], hrr_echConfirmation = replicate 8 0, hrr_cipherSuite = 0x1301,
      hrr_selectedGroup = 29, hrr_hasECHConfirmation = True\<rparr>" (is "\<exists>b. marshalHelloRetryRequest ?h = Inr b \<and> _")
proof -
  obtain b where b: "marshalHelloRetryRequest ?h = Inr b"
    using marshalHelloRetryRequest_iff [of ?h] by (simp add: retryExtensions_length)
  from hello_retry_roundtrip [OF b] have "parseHelloRetryRequest b = Inr ?h" by simp
  with b show ?thesis by blast
qed

end
