(* ===== verification/Traffic_Update.thy ===== *)
theory Traffic_Update
  imports Epoch_Set
begin

text \<open>
  \<^verbatim>\<open>src/traffic_update.go\<close>, the KeyUpdate part of \<^verbatim>\<open>src/post_handshake.go\<close> and the
  installation of application keys in \<^verbatim>\<open>src/conn.go\<close>: the sending and receiving traffic states of a
  connection and their ACK-gated key update. A method that can fail after it has changed its receiver
  returns the state beside the result. The sending cipher is a pointer in the source and an option
  here, so that a use of a missing cipher is an explicit error. The primitives of the standard library
  (HMAC, the AEAD and the sequence number mask of a suite) are one parameter.
\<close>

section \<open>Primitives\<close>

record cryptoProvider =
  cp_hmac :: mac
  cp_newAEAD :: "cipherSuite \<Rightarrow> bytes \<Rightarrow> aead result"
  cp_newMask :: "cipherSuite \<Rightarrow> bytes \<Rightarrow> sequenceMasker result"

abbreviation suiteCipher :: "cryptoProvider \<Rightarrow> cipherSuite \<Rightarrow> bytes \<Rightarrow> u64 \<Rightarrow> int \<Rightarrow> recordCipher result" where
  "suiteCipher cp \<equiv> newRecordCipher (cp_hmac cp) (cp_newAEAD cp) (cp_newMask cp)"

abbreviation nilPointer :: go_error where
  "nilPointer \<equiv> Panic ''invalid memory address or nil pointer dereference''"

section \<open>KeyUpdate messages and their acknowledgement\<close>

abbreviation handshakeTypeKeyUpdate :: u8 where "handshakeTypeKeyUpdate \<equiv> 24"

record keyUpdateMessage =
  kum_requestUpdate :: bool

definition marshalKeyUpdate :: "keyUpdateMessage \<Rightarrow> bytes" where
  "marshalKeyUpdate m = (if kum_requestUpdate m then [1] else [0])"

definition parseKeyUpdate :: "bytes \<Rightarrow> keyUpdateMessage result" where
  "parseKeyUpdate b =
     (if length b \<noteq> 1 then Inl (alertError alertDecodeError (ProtocolError ''invalid KeyUpdate length''))
      else if 1 < b ! 0 then Inl (ProtocolError ''invalid KeyUpdate'')
      else Inr \<lparr>kum_requestUpdate = b ! 0 = 1\<rparr>)"

record keyUpdateState =
  ku_pending :: bool
  ku_records :: "recordNumber list"

definition kuBegin :: "keyUpdateState \<Rightarrow> recordNumber \<Rightarrow> keyUpdateState result" where
  "kuBegin s record =
     (if ku_pending s then Inl (ErrorString ''dtls13: KeyUpdate is already awaiting acknowledgement'')
      else Inr (s\<lparr>ku_pending := True, ku_records := [record]\<rparr>))"

definition addRetransmission :: "keyUpdateState \<Rightarrow> recordNumber \<Rightarrow> keyUpdateState result" where
  "addRetransmission s record =
     (if \<not> ku_pending s then Inl (ErrorString ''dtls13: KeyUpdate is not awaiting acknowledgement'')
      else Inr (s\<lparr>ku_records := ku_records s @ [record]\<rparr>))"

definition kuAck :: "keyUpdateState \<Rightarrow> recordNumber list \<Rightarrow> keyUpdateState \<times> bool" where
  "kuAck s numbers =
     (if \<not> ku_pending s then (s, False)
      else if list_ex (\<lambda>number. number \<in> set (ku_records s)) numbers
        then (s\<lparr>ku_pending := False, ku_records := []\<rparr>, True)
      else (s, False))"

definition canUseNewKeys :: "keyUpdateState \<Rightarrow> bool" where
  "canUseNewKeys s \<longleftrightarrow> \<not> ku_pending s"

section \<open>The sending side\<close>

record sendingTraffic =
  st_suite :: cipherSuite
  st_secret :: bytes
  st_cipher :: "recordCipher option"
  st_nextSecret :: bytes
  st_pendingCipher :: "recordCipher option"
  st_update :: keyUpdateState
  st_messageSequence :: u16
  st_sequenceExhausted :: bool
  st_replaySize :: int
  st_pendingFragment :: bytes
  st_connectionID :: bytes
  st_hasConnectionID :: bool

definition sendingClearSecrets :: "sendingTraffic \<Rightarrow> sendingTraffic" where
  "sendingClearSecrets s = s\<lparr>st_secret := [], st_nextSecret := []\<rparr>"

definition canAllocateMessageSequences :: "sendingTraffic \<Rightarrow> u32 \<Rightarrow> unit result" where
  "canAllocateMessageSequences s count =
     (if count = 0 then Inr ()
      else if st_sequenceExhausted s \<or> 2 ^ 16 < ucast (st_messageSequence s) + count
        then Inl (ErrorString ''dtls13: handshake message sequence exhausted'')
      else Inr ())"

definition commitMessageSequences :: "sendingTraffic \<Rightarrow> u32 \<Rightarrow> sendingTraffic" where
  "commitMessageSequences s count =
     (let upcoming = ucast (st_messageSequence s) + count in
      if upcoming = 2 ^ 16 then s\<lparr>st_sequenceExhausted := True\<rparr>
      else s\<lparr>st_messageSequence := ucast upcoming\<rparr>)"

definition canBeginKeyUpdate :: "sendingTraffic option \<Rightarrow> bool result" where
  "canBeginKeyUpdate s =
     (case s of
        None \<Rightarrow> Inr False
      | Some s \<Rightarrow>
          if \<not> canUseNewKeys (st_update s) then Inr False
          else case st_cipher s of
                 None \<Rightarrow> Inl nilPointer
               | Some cipher \<Rightarrow> Inr (rc_epoch cipher < maxSendingEpoch))"

definition newSendingTrafficWithCipher :: "cipherSuite \<Rightarrow> bytes \<Rightarrow> recordCipher \<Rightarrow> u16 \<Rightarrow> int \<Rightarrow> sendingTraffic" where
  "newSendingTrafficWithCipher suite secret cipher messageSequence replaySize =
     \<lparr>st_suite = suite, st_secret = secret, st_cipher = Some cipher, st_nextSecret = [], st_pendingCipher = None,
      st_update = \<lparr>ku_pending = False, ku_records = []\<rparr>, st_messageSequence = messageSequence,
      st_sequenceExhausted = False, st_replaySize = replaySize, st_pendingFragment = [],
      st_connectionID = [], st_hasConnectionID = False\<rparr>"

definition newSendingTrafficWithOwnedSecret ::
  "cryptoProvider \<Rightarrow> cipherSuite \<Rightarrow> bytes \<Rightarrow> u64 \<Rightarrow> u16 \<Rightarrow> int \<Rightarrow> sendingTraffic result" where
  "newSendingTrafficWithOwnedSecret cp suite secret epoch messageSequence replaySize =
     rbind (suiteCipher cp suite secret epoch replaySize) (\<lambda>cipher.
       Inr (newSendingTrafficWithCipher suite secret cipher messageSequence replaySize))"

definition newSendingTraffic :: "cryptoProvider \<Rightarrow> cipherSuite \<Rightarrow> bytes \<Rightarrow> u64 \<Rightarrow> u16 \<Rightarrow> sendingTraffic result" where
  "newSendingTraffic cp suite secret epoch messageSequence =
     rbind (suiteCipher cp suite secret epoch 64) (\<lambda>cipher.
       Inr (newSendingTrafficWithCipher suite secret cipher messageSequence 64))"

definition sendingSetConnectionID :: "sendingTraffic \<Rightarrow> bytes \<Rightarrow> sendingTraffic \<times> unit result" where
  "sendingSetConnectionID s connectionID =
     (case st_cipher s of
        None \<Rightarrow> (s, Inl nilPointer)
      | Some cipher \<Rightarrow>
          (case setConnectionID cipher connectionID of
             Inl err \<Rightarrow> (s, Inl err)
           | Inr cipher' \<Rightarrow>
               (let s = s\<lparr>st_cipher := Some cipher', st_connectionID := connectionID, st_hasConnectionID := True\<rparr> in
                case st_pendingCipher s of
                  None \<Rightarrow> (s, Inr ())
                | Some pending \<Rightarrow>
                    (case setConnectionID pending connectionID of
                       Inl err \<Rightarrow> (s, Inl err)
                     | Inr pending' \<Rightarrow> (s\<lparr>st_pendingCipher := Some pending'\<rparr>, Inr ())))))"

definition scheduleTrafficUpdate :: "cryptoProvider \<Rightarrow> cipherSuite \<Rightarrow> bytes \<Rightarrow> bytes result" where
  "scheduleTrafficUpdate cp suite secret = deriveSecret (cp_hmac cp) suite secret ''traffic upd'' []"

text \<open>The KeyUpdate fragment, and the part of \<^verbatim>\<open>beginKeyUpdate\<close> after its record is sealed.\<close>

definition keyUpdateFragment :: "u16 \<Rightarrow> bool \<Rightarrow> handshakeFragment" where
  "keyUpdateFragment messageSequence requestUpdate =
     (let body = (if requestUpdate then [1] else [0]) in
      \<lparr>hf_typ = handshakeTypeKeyUpdate, hf_messageSequence = messageSequence, hf_length = of_nat (length body),
       hf_offset = 0, hf_body = body\<rparr>)"

definition awaitUpdate ::
  "cryptoProvider \<Rightarrow> sendingTraffic \<Rightarrow> recordCipher \<Rightarrow> bytes \<Rightarrow> recordNumber \<Rightarrow> sendingTraffic \<times> (bytes \<times> recordNumber) result" where
  "awaitUpdate cp s cipher wire number =
     (case kuBegin (st_update s) number of
        Inl err \<Rightarrow> (s, Inl err)
      | Inr update \<Rightarrow>
          (let s = s\<lparr>st_update := update\<rparr> in
           case scheduleTrafficUpdate cp (st_suite s) (st_secret s) of
             Inl err \<Rightarrow> (s, Inl err)
           | Inr nextSecret \<Rightarrow>
               (let s = s\<lparr>st_nextSecret := nextSecret\<rparr> in
                case suiteCipher cp (st_suite s) nextSecret (rc_epoch cipher + 1) (st_replaySize s) of
                  Inl err \<Rightarrow> (s\<lparr>st_pendingCipher := None\<rparr>, Inl err)
                | Inr pending \<Rightarrow>
                    (let pending = setPlaintextLimit pending (rc_plaintextLimit cipher);
                         s = s\<lparr>st_pendingCipher := Some pending\<rparr>
                     in if st_hasConnectionID s
                        then case setConnectionID pending (st_connectionID s) of
                               Inl err \<Rightarrow> (s, Inl err)
                             | Inr pending \<Rightarrow>
                                 (commitMessageSequences (s\<lparr>st_pendingCipher := Some pending\<rparr>) 1, Inr (wire, number))
                        else (commitMessageSequences s 1, Inr (wire, number))))))"

definition beginKeyUpdate ::
  "cryptoProvider \<Rightarrow> sendingTraffic \<Rightarrow> bool \<Rightarrow> sendingTraffic \<times> (bytes \<times> recordNumber) result" where
  "beginKeyUpdate cp s requestUpdate =
     (if \<not> canUseNewKeys (st_update s) then (s, Inl (ErrorString ''dtls13: KeyUpdate is already pending''))
      else case st_cipher s of
        None \<Rightarrow> (s, Inl nilPointer)
      | Some cipher \<Rightarrow>
          if maxSendingEpoch \<le> rc_epoch cipher then (s, Inl (ErrorString ''dtls13: sending epoch limit reached''))
          else case canAllocateMessageSequences s 1 of
            Inl err \<Rightarrow> (s, Inl err)
          | Inr _ \<Rightarrow>
              (case marshalHandshakeFragmentInto (handshakeHeaderLen + 1) (keyUpdateFragment (st_messageSequence s) requestUpdate) of
                 Inl err \<Rightarrow> (s\<lparr>st_pendingFragment := replicate (handshakeHeaderLen + 1) 0\<rparr>, Inl err)
               | Inr fragment \<Rightarrow>
                   (let sequence = rc_nextSequence cipher;
                        (cipher, res) = seal cipher recordTypeHandshake fragment;
                        s = s\<lparr>st_pendingFragment := fragment, st_cipher := Some cipher\<rparr>
                    in case res of
                         Inl err \<Rightarrow> (s, Inl err)
                       | Inr wire \<Rightarrow> awaitUpdate cp s cipher wire (RecordNumber (rc_epoch cipher) sequence))))"

definition retransmitKeyUpdate :: "sendingTraffic \<Rightarrow> sendingTraffic \<times> (bytes \<times> recordNumber) result" where
  "retransmitKeyUpdate s =
     (if canUseNewKeys (st_update s) \<or> length (st_pendingFragment s) = 0
        then (s, Inl (ErrorString ''dtls13: no KeyUpdate is pending''))
      else case st_cipher s of
        None \<Rightarrow> (s, Inl nilPointer)
      | Some cipher \<Rightarrow>
          (let sequence = rc_nextSequence cipher;
               (cipher, res) = seal cipher recordTypeHandshake (st_pendingFragment s);
               s = s\<lparr>st_cipher := Some cipher\<rparr>
           in case res of
                Inl err \<Rightarrow> (s, Inl err)
              | Inr wire \<Rightarrow>
                  (let number = RecordNumber (rc_epoch cipher) sequence in
                   case addRetransmission (st_update s) number of
                     Inl err \<Rightarrow> (s, Inl err)
                   | Inr update \<Rightarrow> (s\<lparr>st_update := update\<rparr>, Inr (wire, number)))))"

text \<open>
  \<^verbatim>\<open>processACK\<close> clears the array of the old secret and keeps it as storage for the next one.
\<close>

definition processACK :: "sendingTraffic \<Rightarrow> recordNumber list \<Rightarrow> sendingTraffic \<times> bool" where
  "processACK s numbers =
     (let (update, acknowledged) = kuAck (st_update s) numbers in
      if \<not> acknowledged then (s\<lparr>st_update := update\<rparr>, False)
      else (s\<lparr>st_update := update, st_secret := st_nextSecret s, st_nextSecret := replicate (length (st_secret s)) 0,
              st_cipher := st_pendingCipher s, st_pendingCipher := None, st_pendingFragment := []\<rparr>, True))"

section \<open>The receiving side\<close>

record receivingTraffic =
  rt_suite :: cipherSuite
  rt_secret :: bytes
  rt_epochs :: epochSet
  rt_current :: u64
  rt_replaySize :: int
  rt_lastUpdateSequence :: u16
  rt_hasUpdateSequence :: bool
  rt_connectionID :: bytes
  rt_hasConnectionID :: bool
  rt_plaintextLimit :: u16
  rt_acceptedCIDs :: "bytes list"
  rt_secrets :: "(u64 \<times> bytes) list"

definition receivingClearSecrets :: "receivingTraffic \<Rightarrow> receivingTraffic" where
  "receivingClearSecrets r = r\<lparr>rt_secrets := [], rt_secret := []\<rparr>"

definition newReceivingTrafficWithCipher ::
  "cipherSuite \<Rightarrow> bytes \<Rightarrow> recordCipher \<Rightarrow> u64 \<Rightarrow> int \<Rightarrow> receivingTraffic result" where
  "newReceivingTrafficWithCipher suite secret cipher epoch replaySize =
     rbind (epochInstall newEpochSet (Some cipher)) (\<lambda>epochs.
     rbind (epochSetCurrent epochs epoch) (\<lambda>epochs.
       Inr \<lparr>rt_suite = suite, rt_secret = secret, rt_epochs = epochs, rt_current = epoch, rt_replaySize = replaySize,
            rt_lastUpdateSequence = 0, rt_hasUpdateSequence = False, rt_connectionID = [], rt_hasConnectionID = False,
            rt_plaintextLimit = rc_plaintextLimit cipher, rt_acceptedCIDs = [], rt_secrets = [(epoch, secret)]\<rparr>))"

definition newReceivingTrafficWithOwnedSecret ::
  "cryptoProvider \<Rightarrow> cipherSuite \<Rightarrow> bytes \<Rightarrow> u64 \<Rightarrow> int \<Rightarrow> receivingTraffic result" where
  "newReceivingTrafficWithOwnedSecret cp suite secret epoch replaySize =
     rbind (suiteCipher cp suite secret epoch replaySize) (\<lambda>cipher.
       newReceivingTrafficWithCipher suite secret cipher epoch replaySize)"

definition newReceivingTraffic :: "cryptoProvider \<Rightarrow> cipherSuite \<Rightarrow> bytes \<Rightarrow> u64 \<Rightarrow> receivingTraffic result" where
  "newReceivingTraffic cp suite secret epoch =
     rbind (suiteCipher cp suite secret epoch 64) (\<lambda>cipher.
       newReceivingTrafficWithCipher suite secret cipher epoch 64)"

definition receivingSetPlaintextLimit :: "receivingTraffic \<Rightarrow> u16 \<Rightarrow> receivingTraffic" where
  "receivingSetPlaintextLimit r limit =
     r\<lparr>rt_plaintextLimit := limit,
       rt_epochs := (rt_epochs r)\<lparr>es_ciphers := map (\<lambda>(e, c). (e, setPlaintextLimit c limit)) (es_ciphers (rt_epochs r))\<rparr>\<rparr>"

text \<open>
  The loops over the installed ciphers stop at the first error and keep what they have changed. The
  source visits the map in no particular order.
\<close>

fun updateCiphers :: "(recordCipher \<Rightarrow> recordCipher result) \<Rightarrow> (u64 \<times> recordCipher) list \<Rightarrow> (u64 \<times> recordCipher) list \<times> unit result" where
  "updateCiphers f [] = ([], Inr ())"
| "updateCiphers f ((e, c) # al) =
     (case f c of
        Inl err \<Rightarrow> ((e, c) # al, Inl err)
      | Inr c' \<Rightarrow> (let (al', res) = updateCiphers f al in ((e, c') # al', res)))"

definition receivingSetConnectionID :: "receivingTraffic \<Rightarrow> bytes \<Rightarrow> receivingTraffic \<times> unit result" where
  "receivingSetConnectionID r connectionID =
     (let (ciphers, res) = updateCiphers (\<lambda>c. setConnectionID c connectionID) (es_ciphers (rt_epochs r)) in
      (r\<lparr>rt_connectionID := connectionID, rt_hasConnectionID := True, rt_acceptedCIDs := [connectionID],
         rt_epochs := (rt_epochs r)\<lparr>es_ciphers := ciphers\<rparr>\<rparr>, res))"

definition addUnseen :: "bytes \<Rightarrow> bytes list \<Rightarrow> bytes list" where
  "addUnseen cid accepted = (if List.member accepted cid then accepted else accepted @ [cid])"

definition addConnectionIDs :: "receivingTraffic \<Rightarrow> bytes list \<Rightarrow> receivingTraffic \<times> unit result" where
  "addConnectionIDs r connectionIDs =
     (if \<not> rt_hasConnectionID r then (r, Inl (ProtocolError ''connection ID was not negotiated''))
      else
        let (ciphers, res) = updateCiphers (\<lambda>c. addAcceptedConnectionIDs c connectionIDs) (es_ciphers (rt_epochs r));
            r = r\<lparr>rt_epochs := (rt_epochs r)\<lparr>es_ciphers := ciphers\<rparr>\<rparr>
        in case res of
             Inl err \<Rightarrow> (r, Inl err)
           | Inr _ \<Rightarrow> (r\<lparr>rt_acceptedCIDs := fold addUnseen connectionIDs (rt_acceptedCIDs r)\<rparr>, Inr ()))"

definition restoreConnectionIDs :: "receivingTraffic \<Rightarrow> bytes list \<Rightarrow> receivingTraffic" where
  "restoreConnectionIDs r connectionIDs =
     r\<lparr>rt_acceptedCIDs := connectionIDs,
       rt_epochs := (rt_epochs r)\<lparr>es_ciphers := map (\<lambda>(e, c). (e, c\<lparr>rc_acceptedCIDs := connectionIDs\<rparr>)) (es_ciphers (rt_epochs r))\<rparr>\<rparr>"

text \<open>
  \<^verbatim>\<open>processKeyUpdate\<close> in three parts: the cipher of the next epoch with the negotiated settings,
  its installation, and the removal of the epochs before the previous one.
\<close>

definition nextReceiveCipher :: "cryptoProvider \<Rightarrow> receivingTraffic \<Rightarrow> bytes \<Rightarrow> recordCipher result" where
  "nextReceiveCipher cp r nextSecret =
     rbind (suiteCipher cp (rt_suite r) nextSecret (rt_current r + 1) (rt_replaySize r)) (\<lambda>cipher.
       let cipher = setPlaintextLimit cipher (rt_plaintextLimit r) in
       if rt_hasConnectionID r
         then rbind (setConnectionID cipher (rt_connectionID r)) (\<lambda>cipher.
              if rt_acceptedCIDs r = [] then Inl (Panic ''slice bounds out of range'')
              else addAcceptedConnectionIDs cipher (tl (rt_acceptedCIDs r)))
       else Inr cipher)"

definition retireEpochs :: "receivingTraffic \<Rightarrow> receivingTraffic" where
  "retireEpochs r =
     (if 1 < rt_current r
      then let minimum = rt_current r - 1; retained = (if rt_current r < 6 then 2 else 0) in
        r\<lparr>rt_epochs := discardBefore (rt_epochs r) minimum retained,
          rt_secrets := filter (\<lambda>(epoch, secret). \<not> epoch < minimum) (rt_secrets r)\<rparr>
      else r)"

definition processKeyUpdate ::
  "cryptoProvider \<Rightarrow> receivingTraffic \<Rightarrow> u16 \<Rightarrow> bytes \<Rightarrow> receivingTraffic \<times> (keyUpdateMessage \<times> bool) result" where
  "processKeyUpdate cp r sequence body =
     (case parseKeyUpdate body of
        Inl err \<Rightarrow> (r, Inl err)
      | Inr message \<Rightarrow>
          if rt_hasUpdateSequence r \<and> sequence \<le> rt_lastUpdateSequence r then (r, Inr (message, False))
          else
            (case rbind (scheduleTrafficUpdate cp (rt_suite r) (rt_secret r)) (\<lambda>nextSecret.
                  rbind (nextReceiveCipher cp r nextSecret) (\<lambda>cipher. Inr (nextSecret, cipher))) of
               Inl err \<Rightarrow> (r, Inl err)
             | Inr (nextSecret, cipher) \<Rightarrow>
                 (case epochInstall (rt_epochs r) (Some cipher) of
                    Inl err \<Rightarrow> (r, Inl err)
                  | Inr epochs \<Rightarrow>
                      (case epochSetCurrent epochs (rt_current r + 1) of
                         Inl err \<Rightarrow> (r\<lparr>rt_epochs := epochs\<rparr>, Inl err)
                       | Inr epochs \<Rightarrow>
                           (let r = r\<lparr>rt_epochs := epochs, rt_secret := nextSecret, rt_current := rt_current r + 1,
                                      rt_secrets := AList.update (rt_current r + 1) nextSecret (rt_secrets r)\<rparr>
                            in ((retireEpochs r)\<lparr>rt_lastUpdateSequence := sequence, rt_hasUpdateSequence := True\<rparr>,
                                Inr (message, True)))))))"

definition secretForEpoch :: "receivingTraffic \<Rightarrow> u64 \<Rightarrow> bytes option" where
  "secretForEpoch r epoch = map_of (rt_secrets r) epoch"

section \<open>Application keys of a connection\<close>

text \<open>
  The fields of \<^verbatim>\<open>Conn\<close> that key installation and key updates use. \<^verbatim>\<open>c.sendCipher\<close> and
  \<^verbatim>\<open>c.receiveEpochs\<close> alias \<^verbatim>\<open>c.sendingTraffic.cipher\<close> and \<^verbatim>\<open>c.receivingTraffic.epochs\<close> from the
  installation on and are not represented again.
\<close>

record conn =
  co_isClient :: bool
  co_replayWindow :: int
  co_peerRecordSizeLimit :: u16
  co_localRecordSizeLimit :: u16
  co_connectionIDNegotiated :: bool
  co_sendConnectionID :: bytes
  co_receiveConnectionID :: bytes
  co_sendingTraffic :: "sendingTraffic option"
  co_receivingTraffic :: "receivingTraffic option"
  co_keyUpdateResponsePending :: bool

definition ownedSecret :: "cipherSuite \<Rightarrow> bytes \<Rightarrow> bytes" where
  "ownedSecret suite secret = copy_at 0 secret (replicate (hashSize (su_hash suite)) 0)"

definition sendingSetPlaintextLimit :: "sendingTraffic \<Rightarrow> u16 \<Rightarrow> sendingTraffic" where
  "sendingSetPlaintextLimit s limit = s\<lparr>st_cipher := map_option (\<lambda>cipher. setPlaintextLimit cipher limit) (st_cipher s)\<rparr>"

definition installApplicationKeysAt ::
  "cryptoProvider \<Rightarrow> conn \<Rightarrow> cipherSuite \<Rightarrow> bytes \<Rightarrow> bytes \<Rightarrow> u16 \<Rightarrow> conn result" where
  "installApplicationKeysAt cp c suite clientSecret serverSecret messageSequence =
     (if co_sendingTraffic c \<noteq> None then Inr c
      else
        let (sendSecret, receiveSecret) =
              (if co_isClient c then (clientSecret, serverSecret) else (serverSecret, clientSecret)) in
        rbind (newSendingTrafficWithOwnedSecret cp suite (ownedSecret suite sendSecret) 3 messageSequence (co_replayWindow c)) (\<lambda>sending.
        rbind (newReceivingTrafficWithOwnedSecret cp suite (ownedSecret suite receiveSecret) 3 (co_replayWindow c)) (\<lambda>receiving.
        let sending = sendingSetPlaintextLimit sending (co_peerRecordSizeLimit c);
            receiving = receivingSetPlaintextLimit receiving (co_localRecordSizeLimit c)
        in if co_connectionIDNegotiated c
           then case sendingSetConnectionID sending (co_sendConnectionID c) of
                  (sending, Inl err) \<Rightarrow> Inl err
                | (sending, Inr _) \<Rightarrow>
                    (case receivingSetConnectionID receiving (co_receiveConnectionID c) of
                       (receiving, Inl err) \<Rightarrow> Inl err
                     | (receiving, Inr _) \<Rightarrow>
                         Inr (c\<lparr>co_sendingTraffic := Some sending, co_receivingTraffic := Some receiving\<rparr>))
           else Inr (c\<lparr>co_sendingTraffic := Some sending, co_receivingTraffic := Some receiving\<rparr>))))"

end
