(* ===== verification/Key_Update.thy ===== *)
theory Key_Update
  imports Traffic_Update
begin

text \<open>
  The key update as a protocol between the sending traffic of one endpoint and the receiving traffic
  of the other: a step relation over both states, the KeyUpdate records on the network and the
  records the receiver has processed, its invariant, and the agreement of the two ends on the keys
  in every reachable state.
\<close>

section \<open>Ciphers of a traffic secret\<close>

text \<open>
  What the standard library provides for a suite: HMAC has the length of its hash, and the AEAD and
  the mask accept every key of the suite's length; the AEAD is correct.
\<close>

definition provider_ok :: "cryptoProvider \<Rightarrow> cipherSuite \<Rightarrow> bool" where
  "provider_ok cp suite \<longleftrightarrow>
     hmac_ok (cp_hmac cp) \<and> su_keyLen suite \<le> maxTrafficKeyLen \<and> su_ivLen suite \<le> maxTrafficIVLen \<and>
     (\<forall>key. length key = su_keyLen suite \<longrightarrow>
        (\<exists>a. cp_newAEAD cp suite key = Inr a \<and> aead_ok a) \<and> (\<exists>m. cp_newMask cp suite key = Inr m))"

definition trafficCipher :: "cryptoProvider \<Rightarrow> cipherSuite \<Rightarrow> bytes \<Rightarrow> u64 \<Rightarrow> recordCipher \<Rightarrow> bool" where
  "trafficCipher cp suite secret e c \<longleftrightarrow>
     rc_epoch c = e \<and>
     (\<exists>c0. suiteCipher cp suite secret 0 0 = Inr c0 \<and>
        rc_aead c = rc_aead c0 \<and> rc_iv c = rc_iv c0 \<and> rc_sequenceMask c = rc_sequenceMask c0)"

definition nextTrafficSecret :: "cryptoProvider \<Rightarrow> cipherSuite \<Rightarrow> bytes \<Rightarrow> bytes" where
  "nextTrafficSecret cp suite secret =
     (case scheduleTrafficUpdate cp suite secret of Inr x \<Rightarrow> x | Inl _ \<Rightarrow> [])"

lemma scheduleTrafficUpdate_total: "scheduleTrafficUpdate cp suite secret = Inr (nextTrafficSecret cp suite secret)"
  by (simp add: nextTrafficSecret_def scheduleTrafficUpdate_def deriveSecret_def expandLabelHashInto_def)

lemma length_expandLoop:
  "hmac_ok hmac \<Longrightarrow> length (expandLoop hmac h secret info previous counter remaining) = remaining"
proof (induction hmac h secret info previous counter remaining rule: expandLoop.induct)
  case (1 hmac h secret info previous counter remaining)
  let ?b = "hmac h secret (previous @ info @ [counter])"
  have "?b \<noteq> []" using length_hmac [OF 1(2), of h secret] hashSize_pos [of h] by (metis list.size(3) less_numeral_extra(3))
  with 1 show ?case by (subst expandLoop.simps) (simp add: Let_def min_def)
qed

lemma suiteCipher_total:
  assumes "provider_ok cp suite"
  shows "\<exists>c. suiteCipher cp suite secret e n = Inr c \<and> aead_ok (rc_aead c)"
proof -
  let ?x = "\<lambda>label len. expandLoop (cp_hmac cp) (su_hash suite) secret (labelInfo len label []) [] 1 len"
  have len: "length (?x ''key'' (su_keyLen suite)) = su_keyLen suite" "length (?x ''sn'' (su_keyLen suite)) = su_keyLen suite"
    using assms by (simp_all add: provider_ok_def length_expandLoop)
  have lim: "\<not> 255 * hashSize (su_hash suite) < su_keyLen suite" "\<not> 255 * hashSize (su_hash suite) < su_ivLen suite"
    using assms by (cases "su_hash suite"; simp add: provider_ok_def)+
  from assms len obtain a m where "cp_newAEAD cp suite (?x ''key'' (su_keyLen suite)) = Inr a" "aead_ok a"
      "cp_newMask cp suite (?x ''sn'' (su_keyLen suite)) = Inr m"
    unfolding provider_ok_def by blast
  then show ?thesis
    using assms lim by (simp add: newRecordCipher_def deriveTrafficKeys_def expandLabelWithInto_def expandInto_def provider_ok_def)
qed

lemma suiteCipher_Inr:
  assumes "suiteCipher cp suite secret e n = Inr c"
  shows "trafficCipher cp suite secret e c \<and> \<not> rc_hasConnectionID c \<and> rc_connectionID c = []"
  using assms by (auto simp: newRecordCipher_def trafficCipher_def split: if_splits)

lemma trafficCipher_agree:
  "trafficCipher cp suite secret e c \<Longrightarrow> trafficCipher cp suite secret e d \<Longrightarrow>
   rc_epoch c = rc_epoch d \<and> rc_aead c = rc_aead d \<and> rc_iv c = rc_iv d \<and> rc_sequenceMask c = rc_sequenceMask d"
  by (auto simp: trafficCipher_def)

lemma trafficCipher_aead: "provider_ok cp suite \<Longrightarrow> trafficCipher cp suite secret e c \<Longrightarrow> aead_ok (rc_aead c)"
  using suiteCipher_total [of cp suite secret 0 0] by (auto simp: trafficCipher_def)

lemma trafficCipher_cong:
  "rc_epoch d = rc_epoch c \<Longrightarrow> rc_aead d = rc_aead c \<Longrightarrow> rc_iv d = rc_iv c \<Longrightarrow> rc_sequenceMask d = rc_sequenceMask c \<Longrightarrow>
   trafficCipher cp suite secret e d \<longleftrightarrow> trafficCipher cp suite secret e c"
  by (simp add: trafficCipher_def)

section \<open>The protocol\<close>

text \<open>
  One direction of a connection: the sender's state, the receiver's state, the KeyUpdate records the
  sender has put on the network with the fragment each carries, and the numbers of those the receiver
  has processed. \<^verbatim>\<open>processKeyUpdateFragment\<close> acknowledges a KeyUpdate record only after
  \<^verbatim>\<open>processKeyUpdate\<close> has returned without error, so an acknowledgement that arrives names, among the
  KeyUpdate records, only processed ones; it may name any other records.
\<close>

record trafficPair =
  tp_sender :: sendingTraffic
  tp_receiver :: receivingTraffic
  tp_sent :: "(recordNumber \<times> bytes) list"
  tp_processed :: "recordNumber list"

definition noteSent :: "trafficPair \<Rightarrow> sendingTraffic \<Rightarrow> (bytes \<times> recordNumber) result \<Rightarrow> trafficPair" where
  "noteSent p s res =
     (case res of
        Inl err \<Rightarrow> p\<lparr>tp_sender := s\<rparr>
      | Inr (wire, number) \<Rightarrow> p\<lparr>tp_sender := s, tp_sent := (number, st_pendingFragment s) # tp_sent p\<rparr>)"

inductive update_step :: "cryptoProvider \<Rightarrow> trafficPair \<Rightarrow> trafficPair \<Rightarrow> bool" for cp where
  begin_update: "beginKeyUpdate cp (tp_sender p) request = (s, res) \<Longrightarrow> update_step cp p (noteSent p s res)"
| retransmit: "retransmitKeyUpdate (tp_sender p) = (s, res) \<Longrightarrow> update_step cp p (noteSent p s res)"
| seal_record: "st_cipher (tp_sender p) = Some c \<Longrightarrow> sealWithHeader c ct content wide lp = (c', res) \<Longrightarrow>
    update_step cp p (p\<lparr>tp_sender := (tp_sender p)\<lparr>st_cipher := Some c'\<rparr>\<rparr>)"
| allocate: "canAllocateMessageSequences (tp_sender p) count = Inr () \<Longrightarrow> count < 2 ^ 31 \<Longrightarrow>
    update_step cp p (p\<lparr>tp_sender := commitMessageSequences (tp_sender p) count\<rparr>)"
| switch_cid: "rt_hasConnectionID (tp_receiver p) \<Longrightarrow> cid \<in> set (rt_acceptedCIDs (tp_receiver p)) \<Longrightarrow>
    sendingSetConnectionID (tp_sender p) cid = (s, res) \<Longrightarrow> update_step cp p (p\<lparr>tp_sender := s\<rparr>)"
| acknowledge: "\<forall>n\<in>set numbers. n \<in> fst ` set (tp_sent p) \<longrightarrow> n \<in> set (tp_processed p) \<Longrightarrow>
    update_step cp p (p\<lparr>tp_sender := fst (processACK (tp_sender p) numbers)\<rparr>)"
| process: "(number, content) \<in> set (tp_sent p) \<Longrightarrow> parseHandshakeFragmentView content = Inr (f, n) \<Longrightarrow>
    processKeyUpdate cp (tp_receiver p) (hf_messageSequence f) (hf_body f) = (r, Inr m) \<Longrightarrow>
    update_step cp p (p\<lparr>tp_receiver := r, tp_processed := number # tp_processed p\<rparr>)"
| process_fails: "(number, content) \<in> set (tp_sent p) \<Longrightarrow> parseHandshakeFragmentView content = Inr (f, n) \<Longrightarrow>
    processKeyUpdate cp (tp_receiver p) (hf_messageSequence f) (hf_body f) = (r, Inl err) \<Longrightarrow>
    update_step cp p (p\<lparr>tp_receiver := r\<rparr>)"
| open_datagram: "epochOpenRecord (rt_epochs (tp_receiver p)) datagram = (epochs, res) \<Longrightarrow>
    update_step cp p (p\<lparr>tp_receiver := (tp_receiver p)\<lparr>rt_epochs := epochs\<rparr>\<rparr>)"
| accept_cids: "addConnectionIDs (tp_receiver p) cids = (r, res) \<Longrightarrow> update_step cp p (p\<lparr>tp_receiver := r\<rparr>)"

inductive update_reachable :: "cryptoProvider \<Rightarrow> trafficPair \<Rightarrow> trafficPair \<Rightarrow> bool" for cp p0 where
  start: "update_reachable cp p0 p0"
| step: "update_reachable cp p0 p \<Longrightarrow> update_step cp p q \<Longrightarrow> update_reachable cp p0 q"

section \<open>The invariant\<close>

definition sends :: "cryptoProvider \<Rightarrow> sendingTraffic \<Rightarrow> bytes \<Rightarrow> u64 \<Rightarrow> recordCipher \<Rightarrow> bool" where
  "sends cp s secret e c \<longleftrightarrow>
     trafficCipher cp (st_suite s) secret e c \<and> rc_hasConnectionID c = st_hasConnectionID s \<and>
     rc_connectionID c = (if st_hasConnectionID s then st_connectionID s else [])"

definition allocated :: "sendingTraffic \<Rightarrow> u16 \<Rightarrow> bool" where
  "allocated s q \<longleftrightarrow> st_sequenceExhausted s \<or> q < st_messageSequence s"

definition pending_ok :: "cryptoProvider \<Rightarrow> sendingTraffic \<Rightarrow> u64 \<Rightarrow> u16 \<Rightarrow> bool" where
  "pending_ok cp s e q \<longleftrightarrow>
     e < maxSendingEpoch \<and> st_nextSecret s = nextTrafficSecret cp (st_suite s) (st_secret s) \<and>
     (\<exists>c. st_pendingCipher s = Some c \<and> sends cp s (st_nextSecret s) (e + 1) c) \<and>
     list_all (\<lambda>n. rn_epoch n = e) (ku_records (st_update s)) \<and>
     (\<exists>request. st_pendingFragment s = putHandshakeFragment (keyUpdateFragment q request)) \<and> allocated s q"

definition sender_inv :: "cryptoProvider \<Rightarrow> sendingTraffic \<Rightarrow> u64 \<Rightarrow> u16 \<Rightarrow> bool" where
  "sender_inv cp s e q \<longleftrightarrow>
     e \<le> maxSendingEpoch \<and> (\<exists>c. st_cipher s = Some c \<and> sends cp s (st_secret s) e c) \<and>
     (ku_pending (st_update s) \<longrightarrow> pending_ok cp s e q) \<and> (\<not> ku_pending (st_update s) \<longrightarrow> st_pendingCipher s = None)"

definition receives :: "cryptoProvider \<Rightarrow> receivingTraffic \<Rightarrow> bytes \<Rightarrow> u64 \<Rightarrow> recordCipher \<Rightarrow> bool" where
  "receives cp r secret e c \<longleftrightarrow>
     trafficCipher cp (rt_suite r) secret e c \<and> rc_hasConnectionID c = rt_hasConnectionID r \<and>
     (rt_hasConnectionID r \<longrightarrow>
        prefix_free (rc_acceptedCIDs c) \<and> distinct (rc_acceptedCIDs c) \<and> set (rt_acceptedCIDs r) \<subseteq> set (rc_acceptedCIDs c))"

definition holdsEpoch :: "cryptoProvider \<Rightarrow> receivingTraffic \<Rightarrow> bytes \<Rightarrow> u64 \<Rightarrow> bool" where
  "holdsEpoch cp r secret e \<longleftrightarrow>
     (\<exists>c. map_of (es_ciphers (rt_epochs r)) e = Some c \<and> receives cp r secret e c) \<and> map_of (rt_secrets r) e = Some secret"

definition cids_ok :: "receivingTraffic \<Rightarrow> bool" where
  "cids_ok r \<longleftrightarrow>
     (rt_hasConnectionID r \<longrightarrow>
        rt_acceptedCIDs r \<noteq> [] \<and> hd (rt_acceptedCIDs r) = rt_connectionID r \<and> prefix_free (rt_acceptedCIDs r) \<and>
        distinct (rt_acceptedCIDs r) \<and> list_all (\<lambda>cid. length cid \<le> 255) (rt_acceptedCIDs r))"

definition receiver_inv :: "cryptoProvider \<Rightarrow> receivingTraffic \<Rightarrow> bool" where
  "receiver_inv cp r \<longleftrightarrow>
     epochs_ok (rt_epochs r) \<and> es_current (rt_epochs r) = rt_current r \<and>
     (\<forall>e. map_of (es_ciphers (rt_epochs r)) e \<noteq> None \<longrightarrow> e \<le> rt_current r) \<and>
     holdsEpoch cp r (rt_secret r) (rt_current r) \<and> cids_ok r \<and>
     (\<forall>e \<in> fst ` set (rt_secrets r). e \<le> rt_current r \<and> rt_current r \<le> e + 1)"

text \<open>
  The two ends are in step, or the receiver is one epoch ahead of a sender that waits for the
  acknowledgement, with the sender's epoch still held.
\<close>

definition in_step :: "sendingTraffic \<Rightarrow> receivingTraffic \<Rightarrow> u64 \<Rightarrow> u16 \<Rightarrow> bool" where
  "in_step s r e q \<longleftrightarrow>
     rt_current r = e \<and> rt_secret r = st_secret s \<and>
     (rt_hasUpdateSequence r \<longrightarrow> allocated s (rt_lastUpdateSequence r) \<and>
        (ku_pending (st_update s) \<longrightarrow> rt_lastUpdateSequence r < q))"

definition one_ahead :: "cryptoProvider \<Rightarrow> sendingTraffic \<Rightarrow> receivingTraffic \<Rightarrow> u64 \<Rightarrow> u16 \<Rightarrow> bool" where
  "one_ahead cp s r e q \<longleftrightarrow>
     ku_pending (st_update s) \<and> rt_current r = e + 1 \<and> rt_secret r = st_nextSecret s \<and>
     holdsEpoch cp r (st_secret s) e \<and> rt_hasUpdateSequence r \<and> rt_lastUpdateSequence r = q"

definition sent_ok :: "sendingTraffic \<Rightarrow> receivingTraffic \<Rightarrow> u64 \<Rightarrow> recordNumber \<times> bytes \<Rightarrow> bool" where
  "sent_ok s r e entry \<longleftrightarrow>
     (let (number, content) = entry in
      \<exists>q request. content = putHandshakeFragment (keyUpdateFragment q request) \<and>
        (if rn_epoch number = e then ku_pending (st_update s) \<and> content = st_pendingFragment s
         else rn_epoch number < e \<and> rt_hasUpdateSequence r \<and> q \<le> rt_lastUpdateSequence r))"

definition pair_inv :: "cryptoProvider \<Rightarrow> trafficPair \<Rightarrow> u64 \<Rightarrow> u16 \<Rightarrow> bool" where
  "pair_inv cp p e q \<longleftrightarrow>
     (let s = tp_sender p; r = tp_receiver p in
      sender_inv cp s e q \<and> receiver_inv cp r \<and> st_suite s = rt_suite r \<and>
      st_hasConnectionID s = rt_hasConnectionID r \<and> (rt_hasConnectionID r \<longrightarrow> st_connectionID s \<in> set (rt_acceptedCIDs r)) \<and>
      (in_step s r e q \<or> one_ahead cp s r e q) \<and>
      list_all (sent_ok s r e) (tp_sent p) \<and> set (ku_records (st_update s)) \<subseteq> fst ` set (tp_sent p) \<and>
      (\<forall>n \<in> set (tp_processed p). n \<in> fst ` set (tp_sent p) \<and> (rn_epoch n = e \<longrightarrow> one_ahead cp s r e q)))"

lemma pair_inv_sender_frame:
  assumes "pair_inv cp p e q" and "sender_inv cp s e q" and "st_suite s = st_suite (tp_sender p)"
    and "st_hasConnectionID s = st_hasConnectionID (tp_sender p)"
    and "rt_hasConnectionID (tp_receiver p) \<Longrightarrow> st_connectionID s \<in> set (rt_acceptedCIDs (tp_receiver p))"
    and "st_secret s = st_secret (tp_sender p)" and "st_nextSecret s = st_nextSecret (tp_sender p)"
    and "st_update s = st_update (tp_sender p)"
    and "ku_pending (st_update (tp_sender p)) \<Longrightarrow> st_pendingFragment s = st_pendingFragment (tp_sender p)"
    and "\<And>k. allocated (tp_sender p) k \<Longrightarrow> allocated s k"
  shows "pair_inv cp (p\<lparr>tp_sender := s\<rparr>) e q"
proof -
  have "in_step (tp_sender p) (tp_receiver p) e q \<Longrightarrow> in_step s (tp_receiver p) e q"
    and ahead: "one_ahead cp s (tp_receiver p) e q = one_ahead cp (tp_sender p) (tp_receiver p) e q"
    and "\<And>x. sent_ok (tp_sender p) (tp_receiver p) e x \<Longrightarrow> sent_ok s (tp_receiver p) e x"
    using assms(6-10) by (auto simp: in_step_def one_ahead_def sent_ok_def split: if_splits prod.splits)
  then show ?thesis
    using assms(1-5) assms(8) unfolding pair_inv_def Let_def ahead
    by (auto simp: ahead list_all_iff)
qed

lemma pair_inv_receiver_frame:
  assumes "pair_inv cp p e q" and "receiver_inv cp r" and "rt_suite r = rt_suite (tp_receiver p)"
    and "rt_hasConnectionID r = rt_hasConnectionID (tp_receiver p)"
    and "set (rt_acceptedCIDs (tp_receiver p)) \<subseteq> set (rt_acceptedCIDs r)"
    and "rt_secret r = rt_secret (tp_receiver p)" and "rt_current r = rt_current (tp_receiver p)"
    and "rt_hasUpdateSequence r = rt_hasUpdateSequence (tp_receiver p)"
    and "rt_lastUpdateSequence r = rt_lastUpdateSequence (tp_receiver p)"
    and "\<And>secret k. holdsEpoch cp (tp_receiver p) secret k \<Longrightarrow> holdsEpoch cp r secret k"
  shows "pair_inv cp (p\<lparr>tp_receiver := r\<rparr>) e q"
proof -
  have "in_step (tp_sender p) r e q = in_step (tp_sender p) (tp_receiver p) e q"
    and "one_ahead cp (tp_sender p) (tp_receiver p) e q \<Longrightarrow> one_ahead cp (tp_sender p) r e q"
    and "sent_ok (tp_sender p) r e = sent_ok (tp_sender p) (tp_receiver p) e"
    using assms(6-10) by (auto simp: in_step_def one_ahead_def sent_ok_def fun_eq_iff)
  then show ?thesis
    using assms(1-5) unfolding pair_inv_def Let_def by auto
qed

section \<open>Steps that keep the keys\<close>

lemma sealWithHeader_keeps:
  assumes "sealWithHeader c ct content wide lp = (c', res)"
  obtains n where "c' = c\<lparr>rc_nextSequence := n\<rparr>"
proof (cases res)
  case (Inl err)
  with assms sealWithHeader_Inl [of c ct content wide lp c' err] have "c' = c\<lparr>rc_nextSequence := rc_nextSequence c\<rparr>" by simp
  then show ?thesis by (rule that)
next
  case (Inr packet)
  with assms sealWithHeader_success [of c ct content wide lp c' packet] show ?thesis by (auto intro: that)
qed

lemma sends_frame [simp]:
  "sends cp (s\<lparr>st_cipher := x\<rparr>) = sends cp s" "sends cp (s\<lparr>st_pendingFragment := w\<rparr>) = sends cp s"
  "sends cp (s\<lparr>st_update := u\<rparr>) = sends cp s" "sends cp (s\<lparr>st_pendingCipher := x\<rparr>) = sends cp s"
  "sends cp (s\<lparr>st_nextSecret := w\<rparr>) = sends cp s" "sends cp (s\<lparr>st_secret := w\<rparr>) = sends cp s"
  "sends cp (s\<lparr>st_messageSequence := m\<rparr>) = sends cp s" "sends cp (s\<lparr>st_sequenceExhausted := b\<rparr>) = sends cp s"
  "sends cp s secret e (c\<lparr>rc_nextSequence := n\<rparr>) = sends cp s secret e c"
  "sends cp s secret e (setPlaintextLimit c l) = sends cp s secret e c"
  by (auto simp: sends_def fun_eq_iff trafficCipher_def setPlaintextLimit_def Let_def)

lemma allocated_frame [simp]:
  "allocated (s\<lparr>st_cipher := x\<rparr>) = allocated s" "allocated (s\<lparr>st_pendingFragment := w\<rparr>) = allocated s"
  "allocated (s\<lparr>st_update := u\<rparr>) = allocated s" "allocated (s\<lparr>st_pendingCipher := x\<rparr>) = allocated s"
  "allocated (s\<lparr>st_nextSecret := w\<rparr>) = allocated s" "allocated (s\<lparr>st_secret := w\<rparr>) = allocated s"
  "allocated (s\<lparr>st_connectionID := w\<rparr>) = allocated s" "allocated (s\<lparr>st_hasConnectionID := b\<rparr>) = allocated s"
  by (auto simp: allocated_def fun_eq_iff)

lemma commit_fields [simp]:
  "st_suite (commitMessageSequences s n) = st_suite s" "st_secret (commitMessageSequences s n) = st_secret s"
  "st_cipher (commitMessageSequences s n) = st_cipher s" "st_nextSecret (commitMessageSequences s n) = st_nextSecret s"
  "st_pendingCipher (commitMessageSequences s n) = st_pendingCipher s" "st_update (commitMessageSequences s n) = st_update s"
  "st_pendingFragment (commitMessageSequences s n) = st_pendingFragment s"
  "st_connectionID (commitMessageSequences s n) = st_connectionID s"
  "st_hasConnectionID (commitMessageSequences s n) = st_hasConnectionID s"
  "sends cp (commitMessageSequences s n) = sends cp s"
  by (simp_all add: commitMessageSequences_def Let_def)

lemma commit_sequence:
  assumes "canAllocateMessageSequences s n = Inr ()" and "n < 2 ^ 31"
  shows "st_sequenceExhausted (commitMessageSequences s n) \<or>
    \<not> st_sequenceExhausted s \<and> unat (st_messageSequence (commitMessageSequences s n)) = unat (st_messageSequence s) + unat n"
proof -
  let ?m = "st_messageSequence s" and ?k = "ucast (st_messageSequence s) + n :: u32"
  have m: "unat ?m < 2 ^ 16" using unsigned_less [of ?m, where 'a = nat] by simp
  have n: "unat n < 2 ^ 31" using assms(2) by (simp add: word_less_nat_alt)
  have sum: "unat ?k = unat ?m + unat n" using m n by (simp add: unat_word_ariths unsigned_ucast_eq take_bit_nat_eq_self)
  have lim: "n \<noteq> 0 \<Longrightarrow> \<not> st_sequenceExhausted s \<and> unat ?m + unat n \<le> 2 ^ 16"
    using assms(1) sum by (simp add: canAllocateMessageSequences_def word_less_nat_alt split: if_splits)
  show ?thesis
  proof (cases "?k = 2 ^ 16")
    case True
    then show ?thesis by (simp add: commitMessageSequences_def Let_def)
  next
    case False
    then have "unat ?k \<noteq> unat (2 ^ 16 :: u32)" unfolding word_unat_eq_iff .
    then have "unat ?m + unat n \<noteq> 2 ^ 16" using sum by simp
    with lim m have "unat ?m + unat n < 2 ^ 16" by (cases "n = 0") auto
    then have "unat (ucast ?k :: u16) = unat ?m + unat n" using sum by (simp add: unsigned_ucast_eq take_bit_nat_eq_self)
    with False lim show ?thesis by (cases "n = 0") (auto simp: commitMessageSequences_def Let_def)
  qed
qed

lemma allocated_commit:
  assumes "canAllocateMessageSequences s n = Inr ()" and "n < 2 ^ 31" and "allocated s q"
  shows "allocated (commitMessageSequences s n) q"
  using commit_sequence [OF assms(1,2)] assms(3) by (auto simp: allocated_def word_less_nat_alt)

lemma allocated_new:
  "canAllocateMessageSequences s 1 = Inr () \<Longrightarrow> allocated (commitMessageSequences s 1) (st_messageSequence s)"
  using commit_sequence [of s 1] by (auto simp: allocated_def word_less_nat_alt)

lemma allocated_below:
  "canAllocateMessageSequences s 1 = Inr () \<Longrightarrow> allocated s q \<Longrightarrow> q < st_messageSequence s"
  by (auto simp: allocated_def canAllocateMessageSequences_def split: if_splits)

lemma pending_ok_cipher [simp]: "pending_ok cp (s\<lparr>st_cipher := x\<rparr>) = pending_ok cp s"
  by (simp add: pending_ok_def fun_eq_iff)

lemma inv_seal:
  assumes inv: "pair_inv cp p e q" and c: "st_cipher (tp_sender p) = Some c" and "sealWithHeader c ct content wide lp = (c', res)"
  shows "pair_inv cp (p\<lparr>tp_sender := (tp_sender p)\<lparr>st_cipher := Some c'\<rparr>\<rparr>) e q"
proof -
  obtain n where "c' = c\<lparr>rc_nextSequence := n\<rparr>" by (rule sealWithHeader_keeps [OF assms(3)])
  with inv c show ?thesis
    by (intro pair_inv_sender_frame [OF inv]) (simp_all add: pair_inv_def sender_inv_def Let_def)
qed

lemma inv_allocate:
  assumes inv: "pair_inv cp p e q" and "canAllocateMessageSequences (tp_sender p) n = Inr ()" and "n < 2 ^ 31"
  shows "pair_inv cp (p\<lparr>tp_sender := commitMessageSequences (tp_sender p) n\<rparr>) e q"
  using inv by (intro pair_inv_sender_frame [OF inv] allocated_commit [OF assms(2,3)])
    (auto simp: pair_inv_def sender_inv_def pending_ok_def Let_def allocated_commit [OF assms(2,3)])

lemma setConnectionID_Inr:
  "setConnectionID c cid = Inr c' \<longleftrightarrow>
   length cid \<le> 255 \<and> c' = c\<lparr>rc_connectionID := cid, rc_hasConnectionID := True, rc_acceptedCIDs := [cid]\<rparr>"
  by (auto simp: setConnectionID_def)

definition withCID :: "bytes \<Rightarrow> recordCipher \<Rightarrow> recordCipher" where
  "withCID cid c = c\<lparr>rc_connectionID := cid, rc_hasConnectionID := True, rc_acceptedCIDs := [cid]\<rparr>"

lemma sends_cid:
  "sends cp s secret e c \<Longrightarrow> st_suite s' = st_suite s \<Longrightarrow> st_hasConnectionID s' \<Longrightarrow> st_connectionID s' = cid \<Longrightarrow>
   sends cp s' secret e (withCID cid c)"
  by (simp add: sends_def trafficCipher_def withCID_def)

lemma sendingSetConnectionID_run:
  assumes "length cid \<le> 255" and "st_cipher s = Some c"
  shows "sendingSetConnectionID s cid =
    (s\<lparr>st_cipher := Some (withCID cid c), st_connectionID := cid, st_hasConnectionID := True,
       st_pendingCipher := map_option (withCID cid) (st_pendingCipher s)\<rparr>, Inr ())"
proof -
  have "setConnectionID x cid = Inr (withCID cid x)" for x using assms(1) by (simp add: setConnectionID_def withCID_def)
  then show ?thesis using assms(2) by (cases s) (auto simp: sendingSetConnectionID_def Let_def split: option.split)
qed

lemma inv_switch_cid:
  assumes inv: "pair_inv cp p e q" and "rt_hasConnectionID (tp_receiver p)" and "cid \<in> set (rt_acceptedCIDs (tp_receiver p))"
    and "sendingSetConnectionID (tp_sender p) cid = (s, res)"
  shows "pair_inv cp (p\<lparr>tp_sender := s\<rparr>) e q"
proof -
  have len: "length cid \<le> 255" using inv assms(2,3) by (auto simp: pair_inv_def receiver_inv_def cids_ok_def list_all_iff Let_def)
  let ?s = "tp_sender p"
  obtain c where c: "st_cipher ?s = Some c" using inv by (auto simp: pair_inv_def sender_inv_def Let_def)
  have s: "s = ?s\<lparr>st_cipher := Some (withCID cid c), st_connectionID := cid, st_hasConnectionID := True,
      st_pendingCipher := map_option (withCID cid) (st_pendingCipher ?s)\<rparr>"
    using assms(4) sendingSetConnectionID_run [OF len c] by simp
  have "sender_inv cp ?s e q" using inv by (simp add: pair_inv_def Let_def)
  then have "sender_inv cp s e q"
    using c unfolding s sender_inv_def pending_ok_def by (auto intro!: sends_cid [where s = ?s])
  then show ?thesis
    using inv assms(2,3) by (intro pair_inv_sender_frame [OF inv]) (simp_all add: s pair_inv_def Let_def)
qed

definition sameEnd :: "recordCipher \<Rightarrow> recordCipher \<Rightarrow> bool" where
  "sameEnd c d \<longleftrightarrow> rc_epoch d = rc_epoch c \<and> rc_aead d = rc_aead c \<and> rc_iv d = rc_iv c \<and>
     rc_sequenceMask d = rc_sequenceMask c \<and> rc_hasConnectionID d = rc_hasConnectionID c \<and> rc_acceptedCIDs d = rc_acceptedCIDs c"

lemma sameEnd_refl [simp]: "sameEnd c c"
  by (simp add: sameEnd_def)

lemma receives_sameEnd: "sameEnd c d \<Longrightarrow> receives cp r secret e d \<longleftrightarrow> receives cp r secret e c"
  by (simp add: sameEnd_def receives_def trafficCipher_def)

lemma receives_epochs [simp]: "receives cp (r\<lparr>rt_epochs := x\<rparr>) = receives cp r"
  by (simp add: receives_def fun_eq_iff)

lemma openRecord_sameEnd: "sameEnd c (fst (openRecord c d))"
proof (cases "openRecord c d")
  case (Pair c' res)
  then show ?thesis
  proof (cases res)
    case (Inl err)
    with Pair openRecord_Inl [of c d c' err] show ?thesis by (auto simp: sameEnd_def)
  next
    case (Inr v)
    obtain x y z where "v = (x, y, z)" by (cases v)
    with Pair Inr openRecord_Inr [of c d c' x y z] show ?thesis by (auto simp: sameEnd_def)
  qed
qed

lemma selectCipherLocked_installed:
  assumes "epochs_ok s" and "selectCipherLocked s first = Inr c"
  shows "map_of (es_ciphers s) (rc_epoch c) = Some c"
proof -
  from assms selectCipherLocked_Max [OF assms(1), of first]
  have ne: "candidates s first \<noteq> {}" and c: "c = the (map_of (es_ciphers s) (Max (candidates s first)))" by (auto split: if_splits)
  from ne have "Max (candidates s first) \<in> candidates s first" by simp
  then have m: "map_of (es_ciphers s) (Max (candidates s first)) = Some c" using c by (auto simp: candidates_def)
  then have "rc_epoch c = Max (candidates s first)" using assms(1) by (auto simp: epochs_ok_def list_all_iff dest: map_of_SomeD)
  with m show ?thesis by simp
qed

lemma epochOpenRecord_sameEnd:
  assumes "epochs_ok s"
  shows "es_current (fst (epochOpenRecord s d)) = es_current s \<and>
    rel_option sameEnd (map_of (es_ciphers s) e) (map_of (es_ciphers (fst (epochOpenRecord s d))) e)"
proof (cases "d = []")
  case False
  show ?thesis
  proof (cases "selectCipherLocked s (d ! 0)")
    case (Inr c)
    have "fst (epochOpenRecord s d) = s\<lparr>es_ciphers := AList.update (rc_epoch c) (fst (openRecord c d)) (es_ciphers s)\<rparr>"
      using False Inr by (simp add: epochOpenRecord_def case_prod_unfold Let_def split: sum.split)
    then show ?thesis
      using selectCipherLocked_installed [OF assms Inr] openRecord_sameEnd [of c d]
      by (simp add: update_conv option.rel_refl)
  qed (use False in \<open>simp add: epochOpenRecord_def option.rel_refl\<close>)
qed (simp add: epochOpenRecord_def option.rel_refl)

lemma holdsEpoch_sameEnd:
  assumes "\<And>k. rel_option sameEnd (map_of (es_ciphers (rt_epochs r)) k) (map_of (es_ciphers x) k)"
  shows "holdsEpoch cp (r\<lparr>rt_epochs := x\<rparr>) secret e \<longleftrightarrow> holdsEpoch cp r secret e"
  using assms [of e] receives_sameEnd [of _ _ cp r secret e]
  by (cases "map_of (es_ciphers (rt_epochs r)) e"; cases "map_of (es_ciphers x) e") (auto simp: holdsEpoch_def)

lemma inv_open:
  assumes inv: "pair_inv cp p e q" and "epochOpenRecord (rt_epochs (tp_receiver p)) d = (x, res)"
  shows "pair_inv cp (p\<lparr>tp_receiver := (tp_receiver p)\<lparr>rt_epochs := x\<rparr>\<rparr>) e q"
proof -
  let ?r = "tp_receiver p"
  have r: "receiver_inv cp ?r" using inv by (simp add: pair_inv_def Let_def)
  then have ok: "epochs_ok (rt_epochs ?r)" by (simp add: receiver_inv_def)
  have x: "x = fst (epochOpenRecord (rt_epochs ?r) d)" using assms(2) by simp
  note same = epochOpenRecord_sameEnd [OF ok, of d]
  have rel: "rel_option sameEnd (map_of (es_ciphers (rt_epochs ?r)) k) (map_of (es_ciphers x) k)" for k
    using same [of k] by (simp add: x)
  have none: "map_of (es_ciphers x) k = None \<longleftrightarrow> map_of (es_ciphers (rt_epochs ?r)) k = None" for k
    using rel [of k] by (metis option.rel_distinct(1) option.rel_distinct(2) option.exhaust)
  have "receiver_inv cp (?r\<lparr>rt_epochs := x\<rparr>)"
    using r same epochs_ok_open [OF ok, of d]
    by (simp add: receiver_inv_def holdsEpoch_sameEnd [OF rel] cids_ok_def none x [symmetric])
  then show ?thesis
    by (intro pair_inv_receiver_frame [OF inv]) (simp_all add: holdsEpoch_sameEnd [OF rel])
qed

lemma updateCiphers_rel:
  assumes "updateCiphers f al = (al', res)"
  shows "map fst al' = map fst al \<and>
    rel_option (\<lambda>c c'. f c = Inr c' \<or> c' = c \<and> isl res) (map_of al e) (map_of al' e)"
  using assms
proof (induction f al arbitrary: al' res rule: updateCiphers.induct)
  case (2 f k c al)
  show ?case
  proof (cases "f c")
    case (Inl err)
    with 2(2) show ?thesis by (auto intro: option.rel_refl)
  next
    case (Inr c')
    obtain al1 res1 where "updateCiphers f al = (al1, res1)" by fastforce
    with 2 Inr show ?thesis by auto
  qed
qed auto

lemma set_fold_addUnseen: "set (fold addUnseen cids acc) = set acc \<union> set cids"
  by (induction cids arbitrary: acc) (auto simp: addUnseen_def)

lemma distinct_fold_addUnseen: "distinct acc \<Longrightarrow> distinct (fold addUnseen cids acc)"
  by (induction cids arbitrary: acc) (auto simp: addUnseen_def)

lemma hd_fold_addUnseen: "acc \<noteq> [] \<Longrightarrow> fold addUnseen cids acc \<noteq> [] \<and> hd (fold addUnseen cids acc) = hd acc"
proof (induction cids arbitrary: acc)
  case (Cons cid cids)
  then have "addUnseen cid acc \<noteq> [] \<and> hd (addUnseen cid acc) = hd acc" by (simp add: addUnseen_def)
  with Cons.IH [of "addUnseen cid acc"] show ?case by simp
qed simp

lemma addAccepted_Inr:
  assumes "addAcceptedConnectionIDs c cids = Inr c'" and "prefix_free (rc_acceptedCIDs c)" and "distinct (rc_acceptedCIDs c)"
  shows "\<exists>merged. c' = c\<lparr>rc_acceptedCIDs := merged\<rparr> \<and> prefix_free merged \<and> distinct merged \<and>
    set merged = set (rc_acceptedCIDs c) \<union> set cids \<and> list_all (\<lambda>cid. length cid \<le> 255) cids"
proof -
  from assms(1) obtain merged where m: "mergeAdditions (rc_acceptedCIDs c) cids = Inr merged" and c': "c' = c\<lparr>rc_acceptedCIDs := merged\<rparr>"
    by (auto simp: addAcceptedConnectionIDs_def mergeConnectionIDs_def split: if_splits)
  with mergeAdditions_result [OF m assms(2,3)] mergeAdditions_iff [OF assms(2), of cids] show ?thesis by blast
qed

lemma receives_accept:
  assumes "receives cp r secret e c" and "rt_hasConnectionID r"
    and "addAcceptedConnectionIDs c cids = Inr c'"
  shows "rc_epoch c' = rc_epoch c \<and> list_all (\<lambda>cid. length cid \<le> 255) cids \<and> prefix_free (rc_acceptedCIDs c') \<and>
    set (rt_acceptedCIDs r) \<union> set cids \<subseteq> set (rc_acceptedCIDs c') \<and>
    (set acc \<subseteq> set (rt_acceptedCIDs r) \<union> set cids \<longrightarrow> receives cp (r\<lparr>rt_epochs := x, rt_acceptedCIDs := acc\<rparr>) secret e c')"
  using assms(1,2) addAccepted_Inr [OF assms(3)] by (auto simp: receives_def trafficCipher_def subset_iff)

lemma addConnectionIDs_cases:
  assumes "addConnectionIDs r cids = (r', res)" and "rt_hasConnectionID r"
  obtains al where "updateCiphers (\<lambda>c. addAcceptedConnectionIDs c cids) (es_ciphers (rt_epochs r)) = (al, res)"
    and "r' = r\<lparr>rt_epochs := (rt_epochs r)\<lparr>es_ciphers := al\<rparr>,
      rt_acceptedCIDs := if isl res then rt_acceptedCIDs r else fold addUnseen cids (rt_acceptedCIDs r)\<rparr>"
proof -
  obtain al x where u: "updateCiphers (\<lambda>c. addAcceptedConnectionIDs c cids) (es_ciphers (rt_epochs r)) = (al, x)" by fastforce
  with assms show ?thesis by (cases x; cases r) (auto simp: addConnectionIDs_def Let_def intro!: that [of al])
qed

lemma accept_holds:
  assumes u: "updateCiphers (\<lambda>c. addAcceptedConnectionIDs c cids) (es_ciphers (rt_epochs r)) = (al, res)"
    and "rt_hasConnectionID r" and h: "holdsEpoch cp r secret e"
    and acc: "acc = (if isl res then rt_acceptedCIDs r else fold addUnseen cids (rt_acceptedCIDs r))"
  shows "holdsEpoch cp (r\<lparr>rt_epochs := (rt_epochs r)\<lparr>es_ciphers := al\<rparr>, rt_acceptedCIDs := acc\<rparr>) secret e \<and>
    (\<not> isl res \<longrightarrow> list_all (\<lambda>cid. length cid \<le> 255) cids \<and> prefix_free acc)"
proof -
  let ?f = "\<lambda>c. addAcceptedConnectionIDs c cids"
  from h obtain c where c: "map_of (es_ciphers (rt_epochs r)) e = Some c" "receives cp r secret e c" by (auto simp: holdsEpoch_def)
  with updateCiphers_rel [OF u, of e] obtain c' where c': "map_of al e = Some c'" "?f c = Inr c' \<or> c' = c \<and> isl res"
    by (cases "map_of al e") auto
  have set: "set acc \<subseteq> set (rt_acceptedCIDs r) \<union> set cids" by (simp add: acc set_fold_addUnseen)
  show ?thesis
  proof (cases "?f c = Inr c'")
    case True
    note a = receives_accept [OF c(2) assms(2) True, of acc "(rt_epochs r)\<lparr>es_ciphers := al\<rparr>"]
    then have "prefix_free acc" using set by (auto simp: prefix_free_def subset_iff)
    with a set c' h show ?thesis by (auto simp: holdsEpoch_def)
  next
    case False
    with c' have "c' = c" and "isl res" by auto
    with c c' h acc show ?thesis by (auto simp: holdsEpoch_def receives_def)
  qed
qed

lemma accept_epochs:
  assumes "epochs_ok s" and "updateCiphers (\<lambda>c. addAcceptedConnectionIDs c cids) (es_ciphers s) = (al, res)"
  shows "epochs_ok (s\<lparr>es_ciphers := al\<rparr>)"
proof -
  have keys: "map fst al = map fst (es_ciphers s)" using updateCiphers_rel [OF assms(2)] by blast
  have "rc_epoch c' = e" if "(e, c') \<in> set al" for e c'
  proof -
    have "map_of al e = Some c'" using that keys assms(1) by (simp add: epochs_ok_def)
    with updateCiphers_rel [OF assms(2), of e] obtain c where c: "map_of (es_ciphers s) e = Some c"
      "addAcceptedConnectionIDs c cids = Inr c' \<or> c' = c" by (cases "map_of (es_ciphers s) e") auto
    then have "rc_epoch c' = rc_epoch c" by (auto simp: addAcceptedConnectionIDs_def split: if_splits)
    with c(1) assms(1) show ?thesis by (auto simp: epochs_ok_def list_all_iff dest: map_of_SomeD)
  qed
  then show ?thesis using keys assms(1) by (auto simp: epochs_ok_def list_all_iff)
qed

lemma inv_accept:
  assumes inv: "pair_inv cp p e q" and a: "addConnectionIDs (tp_receiver p) cids = (r', res)"
  shows "pair_inv cp (p\<lparr>tp_receiver := r'\<rparr>) e q"
proof (cases "rt_hasConnectionID (tp_receiver p)")
  case False
  with a have "r' = tp_receiver p" by (simp add: addConnectionIDs_def)
  with inv show ?thesis by simp
next
  case True
  let ?r = "tp_receiver p"
  obtain al where u: "updateCiphers (\<lambda>c. addAcceptedConnectionIDs c cids) (es_ciphers (rt_epochs ?r)) = (al, res)"
    and r': "r' = ?r\<lparr>rt_epochs := (rt_epochs ?r)\<lparr>es_ciphers := al\<rparr>,
      rt_acceptedCIDs := if isl res then rt_acceptedCIDs ?r else fold addUnseen cids (rt_acceptedCIDs ?r)\<rparr>"
    by (rule addConnectionIDs_cases [OF a True])
  let ?acc = "if isl res then rt_acceptedCIDs ?r else fold addUnseen cids (rt_acceptedCIDs ?r)"
  have r: "receiver_inv cp ?r" using inv by (simp add: pair_inv_def Let_def)
  note holds = accept_holds [OF u True _ refl]
  have cur: "holdsEpoch cp ?r (rt_secret ?r) (rt_current ?r)" using r by (simp add: receiver_inv_def)
  have ok: "cids_ok ?r" using r by (simp add: receiver_inv_def)
  have "cids_ok r'"
  proof (cases "isl res")
    case True
    with ok show ?thesis by (simp add: r' cids_ok_def)
  next
    case False
    with conjunct2 [OF holds [OF cur]] have "list_all (\<lambda>cid. length cid \<le> 255) cids" "prefix_free (fold addUnseen cids (rt_acceptedCIDs ?r))" by simp_all
    with False ok True hd_fold_addUnseen [of "rt_acceptedCIDs ?r" cids] distinct_fold_addUnseen [of "rt_acceptedCIDs ?r" cids]
    show ?thesis by (simp add: r' cids_ok_def list_all_iff set_fold_addUnseen ball_Un)
  qed
  moreover have "map_of al k = None \<longleftrightarrow> map_of (es_ciphers (rt_epochs ?r)) k = None" for k
    using updateCiphers_rel [OF u, of k] by (cases "map_of al k"; cases "map_of (es_ciphers (rt_epochs ?r)) k") simp_all
  moreover have "epochs_ok (rt_epochs r')" using accept_epochs [OF _ u] r by (simp add: receiver_inv_def r')
  ultimately have "receiver_inv cp r'" using r conjunct1 [OF holds [OF cur]] by (simp add: receiver_inv_def r')
  then show ?thesis
    by (intro pair_inv_receiver_frame [OF inv]) (simp_all add: r' set_fold_addUnseen conjunct1 [OF holds])
qed

section \<open>Starting and repeating an update\<close>

lemma keyUpdateFragment_ok [simp]: "fragment_ok (keyUpdateFragment q request)"
  by (simp add: fragment_ok_def keyUpdateFragment_def)

lemma marshal_keyUpdate:
  "marshalHandshakeFragmentInto (handshakeHeaderLen + 1) (keyUpdateFragment q request) =
     Inr (putHandshakeFragment (keyUpdateFragment q request))"
proof -
  have "validateHandshakeFragment (keyUpdateFragment q request) = Inr ()" by (simp add: fragment_ok_iff)
  then show ?thesis by (simp add: marshalHandshakeFragmentInto_def) (simp add: keyUpdateFragment_def)
qed

lemma parse_keyUpdate:
  "parseHandshakeFragmentView (putHandshakeFragment (keyUpdateFragment q request)) = Inr (keyUpdateFragment q request, 13)"
  using parseHandshakeFragmentView_put [OF keyUpdateFragment_ok, of q request "[]"] by (simp add: keyUpdateFragment_def)

text \<open>A successful start: everything the sender then holds.\<close>

lemma awaitUpdate_run:
  assumes "provider_ok cp (st_suite s)" and "\<not> ku_pending (st_update s)" and "sends cp s (st_secret s) e c"
    and "st_hasConnectionID s \<longrightarrow> length (st_connectionID s) \<le> 255"
  shows "\<exists>pending. awaitUpdate cp s c wire number =
      (commitMessageSequences (s\<lparr>st_update := (st_update s)\<lparr>ku_pending := True, ku_records := [number]\<rparr>,
         st_nextSecret := nextTrafficSecret cp (st_suite s) (st_secret s), st_pendingCipher := Some pending\<rparr>) 1, Inr (wire, number)) \<and>
    sends cp s (nextTrafficSecret cp (st_suite s) (st_secret s)) (e + 1) pending"
proof -
  let ?x = "nextTrafficSecret cp (st_suite s) (st_secret s)"
  obtain c1 where c1: "suiteCipher cp (st_suite s) ?x (e + 1) (st_replaySize s) = Inr c1"
    using suiteCipher_total [OF assms(1)] by blast
  have e: "rc_epoch c = e" using assms(3) by (simp add: sends_def trafficCipher_def)
  let ?c = "setPlaintextLimit c1 (rc_plaintextLimit c)"
  let ?p = "if st_hasConnectionID s then withCID (st_connectionID s) ?c else ?c"
  have "sends cp s ?x (e + 1) ?p"
    using suiteCipher_Inr [OF c1] by (simp add: sends_def trafficCipher_def withCID_def setPlaintextLimit_def Let_def)
  moreover have "awaitUpdate cp s c wire number =
      (commitMessageSequences (s\<lparr>st_update := (st_update s)\<lparr>ku_pending := True, ku_records := [number]\<rparr>,
         st_nextSecret := ?x, st_pendingCipher := Some ?p\<rparr>) 1, Inr (wire, number))"
    using assms(2,4) c1 e
    by (cases "st_hasConnectionID s") (simp_all add: awaitUpdate_def kuBegin_def scheduleTrafficUpdate_total setConnectionID_def withCID_def Let_def)
  ultimately show ?thesis by blast
qed

definition startedUpdate :: "cryptoProvider \<Rightarrow> sendingTraffic \<Rightarrow> recordCipher \<Rightarrow> recordCipher \<Rightarrow> bool \<Rightarrow> recordNumber \<Rightarrow> sendingTraffic" where
  "startedUpdate cp s c pending request number =
     commitMessageSequences (s\<lparr>st_pendingFragment := putHandshakeFragment (keyUpdateFragment (st_messageSequence s) request),
       st_cipher := Some c, st_update := (st_update s)\<lparr>ku_pending := True, ku_records := [number]\<rparr>,
       st_nextSecret := nextTrafficSecret cp (st_suite s) (st_secret s), st_pendingCipher := Some pending\<rparr>) 1"

lemma beginKeyUpdate_cases:
  assumes "provider_ok cp (st_suite s)" and "sender_inv cp s e q"
    and "st_hasConnectionID s \<longrightarrow> length (st_connectionID s) \<le> 255" and b: "beginKeyUpdate cp s request = (s', res)"
  shows "isl res \<and> (s' = s \<or> \<not> ku_pending (st_update s) \<and>
      (\<exists>c w. s' = s\<lparr>st_pendingFragment := w, st_cipher := Some c\<rparr> \<and> sends cp s (st_secret s) e c)) \<or>
    \<not> ku_pending (st_update s) \<and> canAllocateMessageSequences s 1 = Inr () \<and> e < maxSendingEpoch \<and>
    (\<exists>c pending wire n. res = Inr (wire, RecordNumber e n) \<and> s' = startedUpdate cp s c pending request (RecordNumber e n) \<and>
       sends cp s (st_secret s) e c \<and> sends cp s (nextTrafficSecret cp (st_suite s) (st_secret s)) (e + 1) pending)"
proof -
  obtain c where c: "st_cipher s = Some c" "sends cp s (st_secret s) e c" using assms(2) by (auto simp: sender_inv_def)
  then have e: "rc_epoch c = e" by (simp add: sends_def trafficCipher_def)
  let ?w = "putHandshakeFragment (keyUpdateFragment (st_messageSequence s) request)"
  obtain c' x where seal: "seal c recordTypeHandshake ?w = (c', x)" by fastforce
  then obtain n where "c' = c\<lparr>rc_nextSequence := n\<rparr>" unfolding seal_def by (rule sealWithHeader_keeps)
  then have c': "sends cp s (st_secret s) e c'" "rc_epoch c' = e" using c(2) e by simp_all
  let ?s = "s\<lparr>st_pendingFragment := ?w, st_cipher := Some c'\<rparr>"
  consider "isl res" "s' = s" | "\<not> ku_pending (st_update s)" "isl res" "s' = ?s"
    | wire where "\<not> ku_pending (st_update s)" "e < maxSendingEpoch" "canAllocateMessageSequences s 1 = Inr ()"
      "awaitUpdate cp ?s c' wire (RecordNumber e (rc_nextSequence c)) = (s', res)"
    using b c(1) e c' seal
    by (auto simp: beginKeyUpdate_def canUseNewKeys_def marshal_keyUpdate [simplified] not_le Let_def split: if_splits sum.splits)
  then show ?thesis
  proof cases
    case 3
    from awaitUpdate_run [of cp ?s e c' wire "RecordNumber e (rc_nextSequence c)"] assms(1,3) 3(1) c'
    obtain pending where "awaitUpdate cp ?s c' wire (RecordNumber e (rc_nextSequence c)) =
        (startedUpdate cp s c' pending request (RecordNumber e (rc_nextSequence c)), Inr (wire, RecordNumber e (rc_nextSequence c)))"
      "sends cp s (nextTrafficSecret cp (st_suite s) (st_secret s)) (e + 1) pending"
      by (auto simp: startedUpdate_def)
    with 3 c' show ?thesis by auto
  qed (use c' in auto)
qed

lemma sent_current:
  "rn_epoch n = e \<Longrightarrow> sent_ok s r e (n, w) \<longleftrightarrow>
     ku_pending (st_update s) \<and> w = st_pendingFragment s \<and> (\<exists>q request. w = putHandshakeFragment (keyUpdateFragment q request))"
  by (auto simp: sent_ok_def)

lemma sent_old:
  "rn_epoch n \<noteq> e \<Longrightarrow> sent_ok s r e (n, w) \<longleftrightarrow>
     rn_epoch n < e \<and> rt_hasUpdateSequence r \<and>
     (\<exists>q request. w = putHandshakeFragment (keyUpdateFragment q request) \<and> q \<le> rt_lastUpdateSequence r)"
  by (auto simp: sent_ok_def)

lemma sent_ok_idle: "sent_ok s r e x \<Longrightarrow> \<not> ku_pending (st_update s) \<Longrightarrow> sent_ok s' r e x"
  by (cases x; cases "rn_epoch (fst x) = e") (auto simp: sent_current sent_old)

lemma started_fields:
  "st_suite (startedUpdate cp s c d b n) = st_suite s" "st_secret (startedUpdate cp s c d b n) = st_secret s"
  "st_cipher (startedUpdate cp s c d b n) = Some c" "st_pendingCipher (startedUpdate cp s c d b n) = Some d"
  "st_nextSecret (startedUpdate cp s c d b n) = nextTrafficSecret cp (st_suite s) (st_secret s)"
  "ku_pending (st_update (startedUpdate cp s c d b n))" "ku_records (st_update (startedUpdate cp s c d b n)) = [n]"
  "st_pendingFragment (startedUpdate cp s c d b n) = putHandshakeFragment (keyUpdateFragment (st_messageSequence s) b)"
  "st_connectionID (startedUpdate cp s c d b n) = st_connectionID s"
  "st_hasConnectionID (startedUpdate cp s c d b n) = st_hasConnectionID s"
  "sends cp (startedUpdate cp s c d b n) = sends cp s"
  by (simp_all add: startedUpdate_def)

lemma started_allocated:
  assumes "canAllocateMessageSequences s 1 = Inr ()"
  shows "allocated (startedUpdate cp s c d b n) (st_messageSequence s)"
    and "allocated s q \<Longrightarrow> allocated (startedUpdate cp s c d b n) q"
proof -
  let ?s = "s\<lparr>st_pendingFragment := putHandshakeFragment (keyUpdateFragment (st_messageSequence s) b),
       st_cipher := Some c, st_update := (st_update s)\<lparr>ku_pending := True, ku_records := [n]\<rparr>,
       st_nextSecret := nextTrafficSecret cp (st_suite s) (st_secret s), st_pendingCipher := Some d\<rparr>"
  have "canAllocateMessageSequences ?s 1 = Inr ()" using assms by (simp add: canAllocateMessageSequences_def)
  from allocated_new [OF this] allocated_commit [OF this, of q]
  show "allocated (startedUpdate cp s c d b n) (st_messageSequence s)"
    and "allocated s q \<Longrightarrow> allocated (startedUpdate cp s c d b n) q"
    by (simp_all add: startedUpdate_def)
qed

lemma inv_started:
  assumes inv: "pair_inv cp p e q" and np: "\<not> ku_pending (st_update (tp_sender p))"
    and can: "canAllocateMessageSequences (tp_sender p) 1 = Inr ()" and "e < maxSendingEpoch"
    and "sends cp (tp_sender p) (st_secret (tp_sender p)) e c"
    and "sends cp (tp_sender p) (nextTrafficSecret cp (st_suite (tp_sender p)) (st_secret (tp_sender p))) (e + 1) pending"
  shows "pair_inv cp (p\<lparr>tp_sender := startedUpdate cp (tp_sender p) c pending request (RecordNumber e n),
      tp_sent := (RecordNumber e n, st_pendingFragment (startedUpdate cp (tp_sender p) c pending request (RecordNumber e n))) # tp_sent p\<rparr>)
    e (st_messageSequence (tp_sender p))"
proof -
  let ?s = "tp_sender p" and ?r = "tp_receiver p"
  let ?s' = "startedUpdate cp ?s c pending request (RecordNumber e n)"
  have idle: "\<not> one_ahead cp ?s ?r e q" using np by (simp add: one_ahead_def)
  then have step: "in_step ?s ?r e q" and sent: "list_all (sent_ok ?s ?r e) (tp_sent p)" 
    and old: "\<forall>m \<in> set (tp_processed p). m \<in> fst ` set (tp_sent p) \<and> rn_epoch m \<noteq> e"
    using inv by (auto simp: pair_inv_def Let_def)
  have "sender_inv cp ?s' e (st_messageSequence ?s)"
    using assms(4-6) started_allocated(1) [OF can] by (auto simp: sender_inv_def pending_ok_def started_fields order.strict_implies_order)
  moreover have "in_step ?s' ?r e (st_messageSequence ?s)"
    using step started_allocated(2) [OF can] allocated_below [OF can] by (simp add: in_step_def started_fields)
  moreover have "list_all (sent_ok ?s' ?r e) (tp_sent p)"
    using sent np by (auto simp: list_all_iff intro: sent_ok_idle)
  moreover have "sent_ok ?s' ?r e (RecordNumber e n, st_pendingFragment ?s')"
    by (auto simp: sent_current started_fields)
  ultimately show ?thesis
    using inv old by (simp add: pair_inv_def Let_def started_fields)
qed

lemma inv_begin:
  assumes ok: "provider_ok cp (st_suite (tp_sender p))" and inv: "pair_inv cp p e q"
    and b: "beginKeyUpdate cp (tp_sender p) request = (s', res)"
  shows "\<exists>e q. pair_inv cp (noteSent p s' res) e q"
proof -
  let ?s = "tp_sender p" and ?r = "tp_receiver p"
  have s: "sender_inv cp ?s e q" and cid: "st_hasConnectionID ?s \<longrightarrow> length (st_connectionID ?s) \<le> 255"
    using inv by (auto simp: pair_inv_def Let_def receiver_inv_def cids_ok_def list_all_iff)
  from beginKeyUpdate_cases [OF ok s cid b] show ?thesis
  proof (elim disjE conjE exE)
    assume "isl res" "s' = ?s"
    then have "noteSent p s' res = p" by (auto simp: noteSent_def isl_def)
    with inv show ?thesis by auto
  next
    fix c w assume x: "isl res" "\<not> ku_pending (st_update ?s)" "s' = ?s\<lparr>st_pendingFragment := w, st_cipher := Some c\<rparr>" "sends cp ?s (st_secret ?s) e c"
    then have "pair_inv cp (p\<lparr>tp_sender := s'\<rparr>) e q"
      using inv s by (intro pair_inv_sender_frame [OF inv]) (simp_all add: pair_inv_def Let_def sender_inv_def)
    moreover have "noteSent p s' res = p\<lparr>tp_sender := s'\<rparr>" using x(1) by (auto simp: noteSent_def isl_def)
    ultimately show ?thesis by auto
  next
    fix c pending wire n
    assume x: "\<not> ku_pending (st_update ?s)" "canAllocateMessageSequences ?s 1 = Inr ()" "e < maxSendingEpoch"
      "res = Inr (wire, RecordNumber e n)" "s' = startedUpdate cp ?s c pending request (RecordNumber e n)"
      "sends cp ?s (st_secret ?s) e c" "sends cp ?s (nextTrafficSecret cp (st_suite ?s) (st_secret ?s)) (e + 1) pending"
    have "pair_inv cp (p\<lparr>tp_sender := s', tp_sent := (RecordNumber e n, st_pendingFragment s') # tp_sent p\<rparr>) e (st_messageSequence ?s)"
      unfolding x(5) by (rule inv_started [OF inv x(1,2,3,6,7)])
    moreover have "noteSent p s' res = p\<lparr>tp_sender := s', tp_sent := (RecordNumber e n, st_pendingFragment s') # tp_sent p\<rparr>"
      using x(4) by (simp add: noteSent_def)
    ultimately show ?thesis by auto
  qed
qed

lemma retransmitKeyUpdate_cases:
  assumes "sender_inv cp s e q" and t: "retransmitKeyUpdate s = (s', res)"
  shows "s' = s \<and> isl res \<or>
    (\<exists>c. sends cp s (st_secret s) e c \<and>
      (isl res \<and> s' = s\<lparr>st_cipher := Some c\<rparr> \<or>
       ku_pending (st_update s) \<and> (\<exists>wire n. res = Inr (wire, RecordNumber e n) \<and>
         s' = s\<lparr>st_cipher := Some c, st_update := (st_update s)\<lparr>ku_records := ku_records (st_update s) @ [RecordNumber e n]\<rparr>\<rparr>)))"
proof -
  obtain c where c: "st_cipher s = Some c" "sends cp s (st_secret s) e c" using assms(1) by (auto simp: sender_inv_def)
  obtain c' x where seal: "seal c recordTypeHandshake (st_pendingFragment s) = (c', x)" by fastforce
  then obtain n where "c' = c\<lparr>rc_nextSequence := n\<rparr>" unfolding seal_def by (rule sealWithHeader_keeps)
  then have c': "sends cp s (st_secret s) e c'" "rc_epoch c' = e" using c(2) by (simp_all add: sends_def trafficCipher_def)
  show ?thesis
  proof (cases "canUseNewKeys (st_update s) \<or> st_pendingFragment s = []")
    case True
    with t show ?thesis by (auto simp: retransmitKeyUpdate_def)
  next
    case False
    then have "ku_pending (st_update s)" by (simp add: canUseNewKeys_def)
    with False t c(1) seal c' show ?thesis
      by (cases x) (auto simp: retransmitKeyUpdate_def addRetransmission_def Let_def)
  qed
qed

lemma inv_retransmit:
  assumes inv: "pair_inv cp p e q" and t: "retransmitKeyUpdate (tp_sender p) = (s', res)"
  shows "pair_inv cp (noteSent p s' res) e q"
proof -
  let ?s = "tp_sender p" and ?r = "tp_receiver p"
  have s: "sender_inv cp ?s e q" using inv by (simp add: pair_inv_def Let_def)
  from retransmitKeyUpdate_cases [OF s t] show ?thesis
  proof (elim disjE conjE exE)
    assume "s' = ?s" "isl res"
    then have "noteSent p s' res = p" by (auto simp: noteSent_def isl_def)
    with inv show ?thesis by simp
  next
    fix c assume x: "sends cp ?s (st_secret ?s) e c" "isl res" "s' = ?s\<lparr>st_cipher := Some c\<rparr>"
    then have "pair_inv cp (p\<lparr>tp_sender := s'\<rparr>) e q"
      using inv s by (intro pair_inv_sender_frame [OF inv]) (simp_all add: pair_inv_def Let_def sender_inv_def)
    moreover have "noteSent p s' res = p\<lparr>tp_sender := s'\<rparr>" using x(2) by (auto simp: noteSent_def isl_def)
    ultimately show ?thesis by simp
  next
    fix c wire n assume x: "sends cp ?s (st_secret ?s) e c" "ku_pending (st_update ?s)" "res = Inr (wire, RecordNumber e n)"
      "s' = ?s\<lparr>st_cipher := Some c, st_update := (st_update ?s)\<lparr>ku_records := ku_records (st_update ?s) @ [RecordNumber e n]\<rparr>\<rparr>"
    have "pending_ok cp ?s e q" using s x(2) by (simp add: sender_inv_def)
    then have "sender_inv cp s' e q" and frag: "\<exists>k b. st_pendingFragment ?s = putHandshakeFragment (keyUpdateFragment k b)"
      using s x by (auto simp: sender_inv_def pending_ok_def)
    moreover have "in_step s' ?r e q = in_step ?s ?r e q" "one_ahead cp s' ?r e q = one_ahead cp ?s ?r e q" "sent_ok s' ?r e = sent_ok ?s ?r e"
      by (simp_all add: x(4) in_step_def one_ahead_def sent_ok_def fun_eq_iff)
    moreover have "sent_ok ?s ?r e (RecordNumber e n, st_pendingFragment ?s)" using x(2) frag by (auto simp: sent_current)
    ultimately show ?thesis using inv x(3,4) by (auto simp: pair_inv_def Let_def noteSent_def)
  qed
qed

section \<open>Acknowledgement\<close>

lemma epoch_below_next:
  assumes "(e :: u64) < maxSendingEpoch" and "m \<le> e"
  shows "m < e + 1" and "e < e + 1"
proof -
  have "unat (e + 1) = unat e + 1" using unat_Suc_below [OF assms(1)] by simp
  with assms(2) show "m < e + 1" "e < e + 1" by (simp_all add: word_less_nat_alt word_le_nat_alt)
qed

lemma inv_acknowledge:
  assumes inv: "pair_inv cp p e q" and acked: "\<forall>n\<in>set numbers. n \<in> fst ` set (tp_sent p) \<longrightarrow> n \<in> set (tp_processed p)"
  shows "\<exists>e. pair_inv cp (p\<lparr>tp_sender := fst (processACK (tp_sender p) numbers)\<rparr>) e q"
proof (cases "snd (kuAck (st_update (tp_sender p)) numbers)")
  case False
  then have "fst (processACK (tp_sender p) numbers) = tp_sender p"
    by (cases "tp_sender p") (auto simp: processACK_def kuAck_def split: if_splits)
  with inv show ?thesis by auto
next
  case True
  let ?s = "tp_sender p" and ?r = "tp_receiver p"
  let ?s' = "fst (processACK ?s numbers)"
  from True have pend: "ku_pending (st_update ?s)" and "\<exists>n \<in> set numbers. n \<in> set (ku_records (st_update ?s))"
    by (auto simp: kuAck_def list_ex_iff split: if_splits)
  then obtain n where n: "n \<in> set numbers" "n \<in> set (ku_records (st_update ?s))" by blast
  have s: "sender_inv cp ?s e q" and po: "pending_ok cp ?s e q" and sent: "list_all (sent_ok ?s ?r e) (tp_sent p)"
    using inv pend by (auto simp: pair_inv_def sender_inv_def Let_def)
  have "rn_epoch n = e" using po n(2) by (auto simp: pending_ok_def list_all_iff)
  moreover have "n \<in> set (tp_processed p)" using inv n acked by (auto simp: pair_inv_def Let_def)
  ultimately have ahead: "one_ahead cp ?s ?r e q" using inv by (auto simp: pair_inv_def Let_def)
  have s': "?s' = ?s\<lparr>st_update := (st_update ?s)\<lparr>ku_pending := False, ku_records := []\<rparr>, st_secret := st_nextSecret ?s,
      st_nextSecret := replicate (length (st_secret ?s)) 0, st_cipher := st_pendingCipher ?s, st_pendingCipher := None, st_pendingFragment := []\<rparr>"
    using True by (auto simp: processACK_def kuAck_def split: if_splits)
  have lt: "e < maxSendingEpoch" using po by (simp add: pending_ok_def)
  have "sender_inv cp ?s' (e + 1) q"
    using po inc_le [OF lt] by (auto simp: s' sender_inv_def pending_ok_def)
  moreover have "in_step ?s' ?r (e + 1) q" using ahead po by (simp add: s' in_step_def one_ahead_def pending_ok_def)
  moreover have "list_all (sent_ok ?s' ?r (e + 1)) (tp_sent p)"
    unfolding list_all_iff
  proof (rule ballI)
    fix x assume "x \<in> set (tp_sent p)"
    with sent have x: "sent_ok ?s ?r e x" by (simp add: list_all_iff)
    obtain m w where m: "x = (m, w)" by (cases x)
    show "sent_ok ?s' ?r (e + 1) x"
    proof (cases "rn_epoch m = e")
      case True
      with x m po ahead epoch_below_next [OF lt, of e] show ?thesis by (auto simp: sent_current sent_old one_ahead_def pending_ok_def)
    next
      case False
      with x m have "rn_epoch m \<le> e" by (auto simp: sent_old)
      then have "rn_epoch m < e + 1" by (rule epoch_below_next(1) [OF lt])
      moreover from this have "rn_epoch m \<noteq> e + 1" by simp
      ultimately show ?thesis using False x m by (simp add: sent_old)
    qed
  qed
  moreover have new: "\<forall>m \<in> fst ` set (tp_sent p). rn_epoch m < e + 1"
    using sent epoch_below_next [OF lt]
    by (auto simp: list_all_iff) (metis order_less_imp_le order_refl sent_old)
  moreover have "m \<in> fst ` set (tp_sent p) \<and> rn_epoch m \<noteq> e + 1" if "m \<in> set (tp_processed p)" for m
  proof
    show "m \<in> fst ` set (tp_sent p)" using that inv by (simp add: pair_inv_def Let_def)
    with new have "rn_epoch m < e + 1" by blast
    then show "rn_epoch m \<noteq> e + 1" by simp
  qed
  moreover have "st_suite ?s' = st_suite ?s" "st_hasConnectionID ?s' = st_hasConnectionID ?s" "st_connectionID ?s' = st_connectionID ?s"
    "ku_records (st_update ?s') = []" by (simp_all add: s')
  ultimately have "pair_inv cp (p\<lparr>tp_sender := ?s'\<rparr>) (e + 1) q"
    using inv by (simp add: pair_inv_def Let_def)
  then show ?thesis by blast
qed

section \<open>Processing at the receiver\<close>

lemma nextReceiveCipher_run:
  assumes "provider_ok cp (rt_suite r)" and ok: "cids_ok r"
  shows "\<exists>c. nextReceiveCipher cp r secret = Inr c \<and> receives cp r secret (rt_current r + 1) c"
proof -
  obtain c0 where c0: "suiteCipher cp (rt_suite r) secret (rt_current r + 1) (rt_replaySize r) = Inr c0"
    using suiteCipher_total [OF assms(1)] by blast
  let ?c = "setPlaintextLimit c0 (rt_plaintextLimit r)"
  have t: "trafficCipher cp (rt_suite r) secret (rt_current r + 1) ?c" "\<not> rc_hasConnectionID ?c"
    using suiteCipher_Inr [OF c0] by (simp_all add: trafficCipher_def setPlaintextLimit_def Let_def)
  show ?thesis
  proof (cases "rt_hasConnectionID r")
    case False
    with t show ?thesis by (auto simp: nextReceiveCipher_def c0 receives_def Let_def)
  next
    case True
    then obtain cids where cids: "rt_acceptedCIDs r = rt_connectionID r # cids" using ok by (cases "rt_acceptedCIDs r") (auto simp: cids_ok_def)
    let ?d = "withCID (rt_connectionID r) ?c"
    have set: "setConnectionID ?c (rt_connectionID r) = Inr ?d"
      using ok True cids by (simp add: setConnectionID_def withCID_def cids_ok_def)
    have d: "rc_acceptedCIDs ?d = [rt_connectionID r]" "rc_hasConnectionID ?d" by (simp_all add: withCID_def)
    have "\<exists>m. mergeAdditions [rt_connectionID r] cids = Inr m"
      using mergeAdditions_iff [of "[rt_connectionID r]" cids] ok True cids by (simp add: cids_ok_def prefix_free_def)
    then obtain c where c: "addAcceptedConnectionIDs ?d cids = Inr c" by (auto simp: addAcceptedConnectionIDs_def mergeConnectionIDs_def d)
    from addAccepted_Inr [OF c] d have "receives cp r secret (rt_current r + 1) c"
      using t True cids by (auto simp: receives_def prefix_free_def trafficCipher_def withCID_def)
    with c show ?thesis using True cids by (simp add: nextReceiveCipher_def c0 set Let_def)
  qed
qed

lemma map_of_filter_key: "map_of (filter (\<lambda>(k, v). P k) al) e = (if P e then map_of al e else None)"
  by (induction al) auto

definition installedUpdate :: "receivingTraffic \<Rightarrow> bytes \<Rightarrow> recordCipher \<Rightarrow> receivingTraffic" where
  "installedUpdate r secret c =
     r\<lparr>rt_epochs := (rt_epochs r)\<lparr>es_ciphers := AList.update (rc_epoch c) c (es_ciphers (rt_epochs r)), es_current := rt_current r + 1\<rparr>,
       rt_secret := secret, rt_current := rt_current r + 1,
       rt_secrets := AList.update (rt_current r + 1) secret (rt_secrets r)\<rparr>"

lemma processKeyUpdate_run:
  assumes "provider_ok cp (rt_suite r)" and inv: "receiver_inv cp r" and lt: "rt_current r < maxSendingEpoch"
    and "parseKeyUpdate body = Inr m" and new: "\<not> (rt_hasUpdateSequence r \<and> sequence \<le> rt_lastUpdateSequence r)"
  shows "\<exists>c. receives cp r (nextTrafficSecret cp (rt_suite r) (rt_secret r)) (rt_current r + 1) c \<and>
    processKeyUpdate cp r sequence body =
      ((retireEpochs (installedUpdate r (nextTrafficSecret cp (rt_suite r) (rt_secret r)) c))
         \<lparr>rt_lastUpdateSequence := sequence, rt_hasUpdateSequence := True\<rparr>, Inr (m, True))"
proof -
  let ?x = "nextTrafficSecret cp (rt_suite r) (rt_secret r)"
  have "cids_ok r" and cur: "es_current (rt_epochs r) = rt_current r" using inv by (simp_all add: receiver_inv_def)
  with nextReceiveCipher_run [OF assms(1)] obtain c where c: "nextReceiveCipher cp r ?x = Inr c"
    "receives cp r ?x (rt_current r + 1) c" by blast
  then have e: "rc_epoch c = rt_current r + 1" by (simp add: receives_def trafficCipher_def)
  note up = epoch_below_next [OF lt order_refl]
  have fresh: "map_of (es_ciphers (rt_epochs r)) (rt_current r + 1) = None"
    using inv up(1) by (auto simp: receiver_inv_def)
  have "epochInstall (rt_epochs r) (Some c) = Inr ((rt_epochs r)\<lparr>es_ciphers := AList.update (rc_epoch c) c (es_ciphers (rt_epochs r))\<rparr>)"
    using fresh e by (simp add: epochInstall_def)
  moreover have "epochSetCurrent ((rt_epochs r)\<lparr>es_ciphers := AList.update (rc_epoch c) c (es_ciphers (rt_epochs r))\<rparr>) (rt_current r + 1) =
      Inr ((rt_epochs r)\<lparr>es_ciphers := AList.update (rc_epoch c) c (es_ciphers (rt_epochs r)), es_current := rt_current r + 1\<rparr>)"
    using e up cur by (simp add: epochSetCurrent_def update_conv)
  ultimately show ?thesis
    using assms(4) new c by (auto simp: processKeyUpdate_def scheduleTrafficUpdate_total installedUpdate_def Let_def)
qed

lemma retire_fields [simp]:
  "rt_suite (retireEpochs r) = rt_suite r" "rt_secret (retireEpochs r) = rt_secret r" "rt_current (retireEpochs r) = rt_current r"
  "rt_hasConnectionID (retireEpochs r) = rt_hasConnectionID r" "rt_acceptedCIDs (retireEpochs r) = rt_acceptedCIDs r"
  "rt_connectionID (retireEpochs r) = rt_connectionID r" "es_current (rt_epochs (retireEpochs r)) = es_current (rt_epochs r)"
  "receives cp (retireEpochs r) = receives cp r"
  by (auto simp: retireEpochs_def discardBefore_def Let_def receives_def fun_eq_iff)

lemma retire_keeps:
  assumes "1 < rt_current r \<longrightarrow> rt_current r - 1 \<le> e"
  shows "map_of (es_ciphers (rt_epochs (retireEpochs r))) e = map_of (es_ciphers (rt_epochs r)) e"
    and "map_of (rt_secrets (retireEpochs r)) e = map_of (rt_secrets r) e"
  using assms by (auto simp: retireEpochs_def discardBefore_def Let_def map_of_filter_key
      map_of_filter_key [where P = "\<lambda>k. k < rt_current r - 1 \<longrightarrow> k = _", simplified])

lemma retire_removes:
  "map_of (es_ciphers (rt_epochs (retireEpochs r))) e \<noteq> None \<Longrightarrow> map_of (es_ciphers (rt_epochs r)) e \<noteq> None"
  "x \<in> set (rt_secrets (retireEpochs r)) \<Longrightarrow> x \<in> set (rt_secrets r) \<and> (1 < rt_current r \<longrightarrow> rt_current r - 1 \<le> fst x)"
  by (auto simp: retireEpochs_def discardBefore_def Let_def map_of_eq_None_iff split: if_splits)

lemma epochs_ok_retire: "epochs_ok (rt_epochs r) \<Longrightarrow> epochs_ok (rt_epochs (retireEpochs r))"
  by (simp add: retireEpochs_def Let_def epochs_ok_discard)

lemma installed_fields [simp]:
  "rt_suite (installedUpdate r x c) = rt_suite r" "rt_secret (installedUpdate r x c) = x"
  "rt_current (installedUpdate r x c) = rt_current r + 1" "rt_hasConnectionID (installedUpdate r x c) = rt_hasConnectionID r"
  "rt_acceptedCIDs (installedUpdate r x c) = rt_acceptedCIDs r" "rt_connectionID (installedUpdate r x c) = rt_connectionID r"
  "es_current (rt_epochs (installedUpdate r x c)) = rt_current r + 1"
  "es_ciphers (rt_epochs (installedUpdate r x c)) = AList.update (rc_epoch c) c (es_ciphers (rt_epochs r))"
  "rt_secrets (installedUpdate r x c) = AList.update (rt_current r + 1) x (rt_secrets r)"
  "receives cp (installedUpdate r x c) = receives cp r"
  by (simp_all add: installedUpdate_def receives_def fun_eq_iff)

lemma installed_holds:
  assumes inv: "receiver_inv cp r" and lt: "rt_current r < maxSendingEpoch" and c: "receives cp r x (rt_current r + 1) c"
  shows "holdsEpoch cp (retireEpochs (installedUpdate r x c)) x (rt_current r + 1)"
    and "holdsEpoch cp (retireEpochs (installedUpdate r x c)) (rt_secret r) (rt_current r)"
proof -
  have e: "rc_epoch c = rt_current r + 1" using c by (simp add: receives_def trafficCipher_def)
  note up = epoch_below_next [OF lt order_refl]
  have old: "holdsEpoch cp r (rt_secret r) (rt_current r)" using inv by (simp add: receiver_inv_def)
  have k: "1 < rt_current (installedUpdate r x c) \<longrightarrow> rt_current (installedUpdate r x c) - 1 \<le> rt_current r"
    "1 < rt_current (installedUpdate r x c) \<longrightarrow> rt_current (installedUpdate r x c) - 1 \<le> rt_current r + 1"
    using order.strict_implies_order [OF up(1)] by simp_all
  show "holdsEpoch cp (retireEpochs (installedUpdate r x c)) x (rt_current r + 1)"
    using c e by (simp add: holdsEpoch_def retire_keeps [OF k(2)] update_conv)
  show "holdsEpoch cp (retireEpochs (installedUpdate r x c)) (rt_secret r) (rt_current r)"
    using old e up by (auto simp: holdsEpoch_def retire_keeps [OF k(1)] update_conv)
qed

lemma installed_secrets:
  assumes inv: "receiver_inv cp r" and lt: "rt_current r < maxSendingEpoch"
    and m: "(k, v) \<in> set (rt_secrets (retireEpochs (installedUpdate r x c)))"
  shows "k \<le> rt_current r + 1 \<and> rt_current r + 1 \<le> k + 1"
proof -
  note up = epoch_below_next [OF lt order_refl]
  from retire_removes(2) [OF m] have "(k, v) \<in> set (AList.update (rt_current r + 1) x (rt_secrets r))"
    and keep: "1 < rt_current r + 1 \<longrightarrow> rt_current r \<le> k" by simp_all
  then have "k \<in> fst ` set (AList.update (rt_current r + 1) x (rt_secrets r))" by (metis fst_conv imageI)
  then have "k = rt_current r + 1 \<or> k \<in> fst ` set (rt_secrets r)" unfolding dom_update by blast
  then show ?thesis
  proof
    assume k: "k = rt_current r + 1"
    have "unat (k + 1) = Suc (unat k)"
      using lt unat_Suc_below [OF lt] unfolding k by (intro unat_Suc_below [of _ "2 ^ 48"]) (simp add: word_less_nat_alt)
    with k show ?thesis by (simp add: word_le_nat_alt)
  next
    assume "k \<in> fst ` set (rt_secrets r)"
    then have "k \<le> rt_current r" using inv unfolding receiver_inv_def by blast
    moreover have "rt_current r \<le> k"
    proof (cases "rt_current r = 0")
      case False
      then have "1 < rt_current r + 1" using unat_Suc_below [OF lt] by (simp add: word_less_nat_alt unat_gt_0)
      with keep show ?thesis by simp
    qed simp
    ultimately have "k = rt_current r" by (rule order.antisym)
    with up(1) show ?thesis by (simp add: order.strict_implies_order)
  qed
qed

lemma installed_inv:
  assumes inv: "receiver_inv cp r" and lt: "rt_current r < maxSendingEpoch" and c: "receives cp r x (rt_current r + 1) c"
  shows "receiver_inv cp (retireEpochs (installedUpdate r x c))"
proof -
  let ?r = "retireEpochs (installedUpdate r x c)"
  have e: "rc_epoch c = rt_current r + 1" using c by (simp add: receives_def trafficCipher_def)
  note up = epoch_below_next [OF lt order_refl]
  have "epochs_ok (rt_epochs (installedUpdate r x c))"
    using inv by (simp add: receiver_inv_def epochs_ok_def distinct_update list_all_update installedUpdate_def)
  then have "epochs_ok (rt_epochs ?r)" by (rule epochs_ok_retire)
  moreover have "k \<le> rt_current r + 1" if "map_of (es_ciphers (rt_epochs ?r)) k \<noteq> None" for k
    using retire_removes(1) [OF that] inv e up by (auto simp: update_conv receiver_inv_def split: if_splits)
  moreover have "cids_ok ?r" using inv by (simp add: receiver_inv_def cids_ok_def)
  ultimately show ?thesis
    using installed_holds(1) [OF inv lt c] installed_secrets [OF inv lt] by (auto simp: receiver_inv_def)
qed

lemma update_sequence_frame [simp]:
  "receiver_inv cp (r\<lparr>rt_lastUpdateSequence := q, rt_hasUpdateSequence := b\<rparr>) = receiver_inv cp r"
  "holdsEpoch cp (r\<lparr>rt_lastUpdateSequence := q, rt_hasUpdateSequence := b\<rparr>) = holdsEpoch cp r"
  by (auto simp: receiver_inv_def holdsEpoch_def receives_def cids_ok_def fun_eq_iff)

lemma parse_body [simp]: "parseKeyUpdate (hf_body (keyUpdateFragment q request)) = Inr \<lparr>kum_requestUpdate = request\<rparr>"
  by (simp add: parseKeyUpdate_def keyUpdateFragment_def)

lemma fragment_sequence [simp]: "hf_messageSequence (keyUpdateFragment q request) = q"
  by (simp add: keyUpdateFragment_def)

lemma putHandshakeFragment_inject: "fragment_ok f \<Longrightarrow> fragment_ok g \<Longrightarrow> putHandshakeFragment f = putHandshakeFragment g \<Longrightarrow> f = g"
  using parseHandshakeFragmentView_put [of f "[]"] parseHandshakeFragmentView_put [of g "[]"] by simp

text \<open>
  The delivery of a KeyUpdate record: an old one changes nothing; the pending one moves the receiver
  ahead, unless it is there already.
\<close>

lemma process_cases:
  assumes ok: "provider_ok cp (st_suite (tp_sender p))" and inv: "pair_inv cp p e q"
    and m: "(number, content) \<in> set (tp_sent p)" and f: "parseHandshakeFragmentView content = Inr (f, n)"
    and t: "processKeyUpdate cp (tp_receiver p) (hf_messageSequence f) (hf_body f) = (r, res)"
  shows "\<not> isl res \<and>
    (r = tp_receiver p \<and> (rn_epoch number = e \<longrightarrow> one_ahead cp (tp_sender p) (tp_receiver p) e q) \<or>
     rn_epoch number = e \<and> ku_pending (st_update (tp_sender p)) \<and> in_step (tp_sender p) (tp_receiver p) e q \<and>
     (\<exists>c. let x = nextTrafficSecret cp (rt_suite (tp_receiver p)) (rt_secret (tp_receiver p)) in
        receives cp (tp_receiver p) x (e + 1) c \<and>
        r = (retireEpochs (installedUpdate (tp_receiver p) x c))\<lparr>rt_lastUpdateSequence := q, rt_hasUpdateSequence := True\<rparr>))"
proof -
  let ?s = "tp_sender p" and ?r = "tp_receiver p"
  have rinv: "receiver_inv cp ?r" and okr: "provider_ok cp (rt_suite ?r)" and so: "sent_ok ?s ?r e (number, content)"
    and phase: "in_step ?s ?r e q \<or> one_ahead cp ?s ?r e q"
    using inv ok m by (auto simp: pair_inv_def Let_def list_all_iff)
  show ?thesis
  proof (cases "rn_epoch number = e")
    case False
    with so obtain k b where "content = putHandshakeFragment (keyUpdateFragment k b)" and old: "rt_hasUpdateSequence ?r" "k \<le> rt_lastUpdateSequence ?r"
      by (auto simp: sent_old)
    then have "f = keyUpdateFragment k b" using f by (simp add: parse_keyUpdate)
    with old t False show ?thesis by (auto simp: processKeyUpdate_def)
  next
    case True
    with so have pend: "ku_pending (st_update ?s)" and w: "content = st_pendingFragment ?s" by (auto simp: sent_current)
    then have po: "pending_ok cp ?s e q" using inv by (simp add: pair_inv_def sender_inv_def Let_def)
    then obtain b where "st_pendingFragment ?s = putHandshakeFragment (keyUpdateFragment q b)" by (auto simp: pending_ok_def)
    with f w have f: "f = keyUpdateFragment q b" by (simp add: parse_keyUpdate)
    from phase show ?thesis
    proof
      assume a: "one_ahead cp ?s ?r e q"
      with t f show ?thesis by (auto simp: processKeyUpdate_def one_ahead_def)
    next
      assume a: "in_step ?s ?r e q"
      then have cur: "rt_current ?r = e" and "\<not> (rt_hasUpdateSequence ?r \<and> q \<le> rt_lastUpdateSequence ?r)"
        using pend by (auto simp: in_step_def)
      moreover have "rt_current ?r < maxSendingEpoch" using po cur by (simp add: pending_ok_def)
      ultimately have "\<exists>c. receives cp ?r (nextTrafficSecret cp (rt_suite ?r) (rt_secret ?r)) (e + 1) c \<and>
          (r, res) = ((retireEpochs (installedUpdate ?r (nextTrafficSecret cp (rt_suite ?r) (rt_secret ?r)) c))
            \<lparr>rt_lastUpdateSequence := q, rt_hasUpdateSequence := True\<rparr>, Inr (\<lparr>kum_requestUpdate = b\<rparr>, True))"
        using processKeyUpdate_run [OF okr rinv _ parse_body, of q] t f by (metis fragment_sequence)
      with True pend a show ?thesis by (auto simp: Let_def)
    qed
  qed
qed

lemma inv_process_new:
  assumes inv: "pair_inv cp p e q" and pend: "ku_pending (st_update (tp_sender p))" and st: "in_step (tp_sender p) (tp_receiver p) e q"
    and x: "x = nextTrafficSecret cp (rt_suite (tp_receiver p)) (rt_secret (tp_receiver p))" and c: "receives cp (tp_receiver p) x (e + 1) c"
    and r: "r = (retireEpochs (installedUpdate (tp_receiver p) x c))\<lparr>rt_lastUpdateSequence := q, rt_hasUpdateSequence := True\<rparr>"
    and "number \<in> fst ` set (tp_sent p)"
  shows "pair_inv cp (p\<lparr>tp_receiver := r, tp_processed := number # tp_processed p\<rparr>) e q"
proof -
  let ?s = "tp_sender p" and ?r = "tp_receiver p"
  have rinv: "receiver_inv cp ?r" and po: "pending_ok cp ?s e q" and suite: "st_suite ?s = rt_suite ?r"
    and sent: "list_all (sent_ok ?s ?r e) (tp_sent p)"
    using inv pend by (auto simp: pair_inv_def Let_def sender_inv_def)
  have cur: "rt_current ?r = e" and sec: "rt_secret ?r = st_secret ?s" using st by (simp_all add: in_step_def)
  have lt: "rt_current ?r < maxSendingEpoch" using po cur by (simp add: pending_ok_def)
  have c': "receives cp ?r x (rt_current ?r + 1) c" using c cur by simp
  have next_secret: "st_nextSecret ?s = x" using po x suite sec by (simp add: pending_ok_def)
  have "receiver_inv cp r" using installed_inv [OF rinv lt c'] by (simp add: r)
  moreover have ahead: "one_ahead cp ?s r e q"
    using installed_holds(2) [OF rinv lt c'] pend next_secret cur sec by (simp add: one_ahead_def r)
  moreover have "sent_ok ?s r e y" if "y \<in> set (tp_sent p)" for y
  proof -
    from that sent have y: "sent_ok ?s ?r e y" by (simp add: list_all_iff)
    have "rt_hasUpdateSequence ?r \<longrightarrow> rt_lastUpdateSequence ?r \<le> q" using st pend by (auto simp: in_step_def)
    with y show ?thesis by (cases y; cases "rn_epoch (fst y) = e") (auto simp: sent_current sent_old r intro: order_trans)
  qed
  moreover have "rt_suite r = rt_suite ?r" "rt_hasConnectionID r = rt_hasConnectionID ?r" "rt_acceptedCIDs r = rt_acceptedCIDs ?r"
    by (simp_all add: r)
  ultimately show ?thesis
    using inv assms(7) by (simp add: pair_inv_def Let_def list_all_iff)
qed

lemma inv_process:
  assumes "provider_ok cp (st_suite (tp_sender p))" and inv: "pair_inv cp p e q"
    and m: "(number, content) \<in> set (tp_sent p)" and f: "parseHandshakeFragmentView content = Inr (f, n)"
    and t: "processKeyUpdate cp (tp_receiver p) (hf_messageSequence f) (hf_body f) = (r, res)"
  shows "\<not> isl res \<and> pair_inv cp (p\<lparr>tp_receiver := r, tp_processed := number # tp_processed p\<rparr>) e q"
proof -
  have n: "number \<in> fst ` set (tp_sent p)" using m by force
  from process_cases [OF assms] show ?thesis
  proof (elim conjE disjE, goal_cases)
    case 1
    with n have "pair_inv cp (p\<lparr>tp_receiver := r, tp_processed := number # tp_processed p\<rparr>) e q"
      using inv unfolding pair_inv_def Let_def by simp
    with 1 show ?case by simp
  next
    case 2
    then show ?case using inv_process_new [OF inv _ _ refl _ _ n] by (auto simp: Let_def)
  qed
qed

lemma st_suite_step [simp]:
  "st_suite (fst (processACK s numbers)) = st_suite s" "st_suite (fst (awaitUpdate cp s c wire number)) = st_suite s"
  "st_suite (fst (beginKeyUpdate cp s request)) = st_suite s" "st_suite (fst (retransmitKeyUpdate s)) = st_suite s"
  "st_suite (fst (sendingSetConnectionID s cid)) = st_suite s"
  by (simp_all add: processACK_def awaitUpdate_def beginKeyUpdate_def retransmitKeyUpdate_def sendingSetConnectionID_def Let_def
      split: sum.split option.split prod.split)

lemma noteSent_sender [simp]: "tp_sender (noteSent p s res) = s"
  by (simp add: noteSent_def split: sum.split prod.split)

lemma update_step_inv:
  assumes "update_step cp p p'" and "provider_ok cp (st_suite (tp_sender p))" and "pair_inv cp p e q"
  shows "\<exists>e q. pair_inv cp p' e q"
  using assms
proof (induction rule: update_step.induct)
  case (begin_update p request s res)
  show ?case by (rule inv_begin [OF begin_update(2,3,1)])
next
  case (retransmit p s res)
  from inv_retransmit [OF retransmit(3,1)] show ?case by auto
next
  case (seal_record p c ct content wide lp c' res)
  from inv_seal [OF seal_record(4,1,2)] show ?case by auto
next
  case (allocate p count)
  from inv_allocate [OF allocate(4,1,2)] show ?case by auto
next
  case (switch_cid p cid s res)
  from inv_switch_cid [OF switch_cid(5,1,2,3)] show ?case by auto
next
  case (acknowledge numbers p)
  from inv_acknowledge [OF acknowledge(3,1)] show ?case by auto
next
  case (process number content p f n r m)
  from inv_process [OF process(4,5,1,2,3)] show ?case by auto
next
  case (process_fails number content p f n r err)
  from inv_process [OF process_fails(4,5,1,2,3)] show ?case by simp
next
  case (open_datagram p d x res)
  from inv_open [OF open_datagram(3,1)] show ?case by auto
next
  case (accept_cids p cids r res)
  from inv_accept [OF accept_cids(3,1)] show ?case by auto
qed

lemma update_step_suite: "update_step cp p p' \<Longrightarrow> st_suite (tp_sender p') = st_suite (tp_sender p)"
proof (induction rule: update_step.induct)
  case (begin_update p request s res) then show ?case using st_suite_step(3) [of cp "tp_sender p" request] by simp
next
  case (retransmit p s res) then show ?case using st_suite_step(4) [of "tp_sender p"] by simp
next
  case (switch_cid p cid s res) then show ?case using st_suite_step(5) [of "tp_sender p" cid] by simp
qed simp_all

lemma update_reachable_inv:
  assumes "update_reachable cp p0 p" and "provider_ok cp (st_suite (tp_sender p0))" and "\<exists>e q. pair_inv cp p0 e q"
  shows "st_suite (tp_sender p) = st_suite (tp_sender p0) \<and> (\<exists>e q. pair_inv cp p e q)"
  using assms
proof (induction rule: update_reachable.induct)
  case (step p p')
  then show ?case using update_step_inv [OF step(2)] update_step_suite [OF step(2)] by force
qed simp

section \<open>The receiver selects the sender's epoch\<close>

lemma openRecord_matches:
  assumes "openRecord c d = (c', Inr v)"
  shows "2 \<le> length d \<and> ucast (d ! 0 AND 3) = rc_epoch c AND 3"
proof (rule ccontr)
  assume "\<not> ?thesis"
  then have "isl (snd (openRecord c d))" by (auto simp: openRecord_def recordCipherMatchesUnifiedEpoch_def Let_def)
  with assms show False by simp
qed

lemma next_epoch_bits: "(e + 1) AND 3 \<noteq> (e :: u64) AND 3"
proof
  assume "(e + 1) AND 3 = e AND 3"
  then have "bit ((e + 1) AND 3) 0 = bit (e AND 3) 0" by simp
  then show False by (simp add: bit_0 even_and_iff)
qed

lemma select_current:
  assumes "epochs_ok s" and "map_of (es_ciphers s) e = Some c" and "\<And>k. map_of (es_ciphers s) k \<noteq> None \<Longrightarrow> k \<le> es_current s"
    and "es_current s = e \<or> es_current s = e + 1 \<and> e < maxSendingEpoch" and bits: "ucast (first AND 3) = e AND 3"
  shows "selectCipherLocked s first = Inr c"
proof -
  have up: "k \<le> e" if "k \<in> candidates s first" for k
  proof -
    from that have k: "k \<le> es_current s" "k AND 3 = e AND 3" using bits by (auto simp: candidates_def)
    show ?thesis
    proof (cases "es_current s = e")
      case False
      with assms(4) have cur: "es_current s = e + 1" "e < maxSendingEpoch" by auto
      with k next_epoch_bits [of e] have "k \<noteq> e + 1" by auto
      with k(1) cur have "k < e + 1" by simp
      then show ?thesis using unat_Suc_below [OF cur(2)] by (simp add: word_less_nat_alt word_le_nat_alt)
    qed (use k in simp)
  qed
  have mem: "e \<in> candidates s first" using assms(2,3) bits by (simp add: candidates_def)
  with up have "Max (candidates s first) = e" by (intro Max_eqI) auto
  with mem assms(2) show ?thesis by (auto simp: selectCipherLocked_Max [OF assms(1)])
qed

definition sendable :: "sendingTraffic \<Rightarrow> receivingTraffic \<Rightarrow> u64 \<Rightarrow> recordCipher \<Rightarrow> recordCipher \<Rightarrow> bool" where
  "sendable s r e c rc \<longleftrightarrow>
     st_cipher s = Some c \<and> rc_epoch c = e \<and> map_of (es_ciphers (rt_epochs r)) e = Some rc \<and> paired c rc \<and>
     secretForEpoch r e = Some (st_secret s) \<and>
     (rt_current r = e \<or> rt_current r = e + 1 \<and> ku_pending (st_update s))"

lemma pair_inv_sendable:
  assumes ok: "provider_ok cp (st_suite (tp_sender p))" and inv: "pair_inv cp p e q"
  shows "\<exists>c rc. sendable (tp_sender p) (tp_receiver p) e c rc \<and> aead_ok (rc_aead c) \<and>
    (\<forall>first. ucast (first AND 3) = e AND 3 \<longrightarrow> selectCipherLocked (rt_epochs (tp_receiver p)) first = Inr rc)"
proof -
  let ?s = "tp_sender p" and ?r = "tp_receiver p"
  have sinv: "sender_inv cp ?s e q" and rinv: "receiver_inv cp ?r" and suite: "st_suite ?s = rt_suite ?r"
    and has: "st_hasConnectionID ?s = rt_hasConnectionID ?r" "rt_hasConnectionID ?r \<longrightarrow> st_connectionID ?s \<in> set (rt_acceptedCIDs ?r)"
    and phase: "in_step ?s ?r e q \<or> one_ahead cp ?s ?r e q"
    using inv by (simp_all add: pair_inv_def Let_def)
  obtain c where c: "st_cipher ?s = Some c" "sends cp ?s (st_secret ?s) e c" using sinv by (auto simp: sender_inv_def)
  from phase rinv have h: "holdsEpoch cp ?r (st_secret ?s) e" by (auto simp: in_step_def one_ahead_def receiver_inv_def)
  then obtain rc where rc: "map_of (es_ciphers (rt_epochs ?r)) e = Some rc" "receives cp ?r (st_secret ?s) e rc" by (auto simp: holdsEpoch_def)
  have t: "trafficCipher cp (rt_suite ?r) (st_secret ?s) e c" "trafficCipher cp (rt_suite ?r) (st_secret ?s) e rc"
    using c(2) rc(2) suite by (simp_all add: sends_def receives_def)
  have pair: "paired c rc"
    using trafficCipher_agree [OF t] c(2) rc(2) has by (auto simp: paired_def sends_def receives_def)
  have cur: "rt_current ?r = e \<or> rt_current ?r = e + 1 \<and> ku_pending (st_update ?s) \<and> e < maxSendingEpoch"
    using phase sinv by (auto simp: in_step_def one_ahead_def sender_inv_def pending_ok_def)
  have "sendable ?s ?r e c rc"
    using c(1) t(1) rc(1) pair h cur by (auto simp: sendable_def secretForEpoch_def holdsEpoch_def trafficCipher_def)
  moreover have "selectCipherLocked (rt_epochs ?r) first = Inr rc" if "ucast (first AND 3) = e AND 3" for first
    using rinv cur that by (intro select_current [OF _ rc(1)]) (auto simp: receiver_inv_def)
  moreover have "aead_ok (rc_aead c)" using trafficCipher_aead [OF ok] t(1) suite by simp
  ultimately show ?thesis by blast
qed

lemma sendable_opens:
  assumes "sendable s r e c rc" and "aead_ok (rc_aead c)"
    and sel: "\<forall>first. ucast (first AND 3) = e AND 3 \<longrightarrow> selectCipherLocked (rt_epochs r) first = Inr rc"
    and "sealWithHeader c ct content wide lp = (c', Inr packet)"
    and "reachable_sequence wide (nextExpected (rc_replay rc)) (rc_nextSequence c)" and "replayCheck (rc_replay rc) (rc_nextSequence c)"
    and "rc_plaintextLimit rc = 0 \<or> length content < unat (rc_plaintextLimit rc)"
  shows "\<exists>epochs. epochOpenRecord (rt_epochs r) packet = (epochs, Inr (content, ct, e, length packet))"
proof -
  have pair: "paired c rc" "rc_epoch c = e" using assms(1) by (simp_all add: sendable_def)
  from open_sealed [OF assms(2) pair(1) assms(4) _ assms(5,6,7), of "[]"] obtain cid where
    opened: "openRecord rc packet = (rc\<lparr>rc_replay := replayAccept (rc_replay rc) (rc_nextSequence c),
      rc_lastOpened := rc_nextSequence c, rc_lastConnectionID := cid\<rparr>, Inr (content, ct, length packet))" by auto
  from openRecord_matches [OF this] pair have "packet \<noteq> []" "ucast (packet ! 0 AND 3) = e AND 3" by (auto simp: paired_def)
  with sel opened pair show ?thesis by (auto simp: epochOpenRecord_def paired_def)
qed

section \<open>The start\<close>

definition startPair :: "conn \<Rightarrow> conn \<Rightarrow> trafficPair" where
  "startPair a b = \<lparr>tp_sender = the (co_sendingTraffic a), tp_receiver = the (co_receivingTraffic b), tp_sent = [], tp_processed = []\<rparr>"

definition sendingStart :: "conn \<Rightarrow> cipherSuite \<Rightarrow> bytes \<Rightarrow> recordCipher \<Rightarrow> u16 \<Rightarrow> sendingTraffic" where
  "sendingStart a suite x c m =
     (let s = sendingSetPlaintextLimit (newSendingTrafficWithCipher suite x c m (co_replayWindow a)) (co_peerRecordSizeLimit a) in
      if co_connectionIDNegotiated a then fst (sendingSetConnectionID s (co_sendConnectionID a)) else s)"

definition receivingStart :: "conn \<Rightarrow> cipherSuite \<Rightarrow> bytes \<Rightarrow> recordCipher \<Rightarrow> receivingTraffic" where
  "receivingStart b suite x c =
     (let r = receivingSetPlaintextLimit
         \<lparr>rt_suite = suite, rt_secret = x, rt_epochs = \<lparr>es_current = 3, es_ciphers = [(3, c)]\<rparr>, rt_current = 3,
          rt_replaySize = co_replayWindow b, rt_lastUpdateSequence = 0, rt_hasUpdateSequence = False, rt_connectionID = [],
          rt_hasConnectionID = False, rt_plaintextLimit = rc_plaintextLimit c, rt_acceptedCIDs = [], rt_secrets = [(3, x)]\<rparr>
         (co_localRecordSizeLimit b) in
      if co_connectionIDNegotiated b then fst (receivingSetConnectionID r (co_receiveConnectionID b)) else r)"

lemma install_cases:
  assumes "provider_ok cp suite" and "co_sendingTraffic a = None"
  shows "\<exists>c d. suiteCipher cp suite (ownedSecret suite (if co_isClient a then cs else ss)) 3 (co_replayWindow a) = Inr c \<and>
      suiteCipher cp suite (ownedSecret suite (if co_isClient a then ss else cs)) 3 (co_replayWindow a) = Inr d \<and>
      (if co_connectionIDNegotiated a \<and> (255 < length (co_sendConnectionID a) \<or> 255 < length (co_receiveConnectionID a))
       then isl (installApplicationKeysAt cp a suite cs ss m)
       else installApplicationKeysAt cp a suite cs ss m =
         Inr (a\<lparr>co_sendingTraffic := Some (sendingStart a suite (ownedSecret suite (if co_isClient a then cs else ss)) c m),
                co_receivingTraffic := Some (receivingStart a suite (ownedSecret suite (if co_isClient a then ss else cs)) d)\<rparr>))"
proof -
  let ?x = "ownedSecret suite (if co_isClient a then cs else ss)" and ?y = "ownedSecret suite (if co_isClient a then ss else cs)"
  obtain c d where c: "suiteCipher cp suite ?x 3 (co_replayWindow a) = Inr c" and d: "suiteCipher cp suite ?y 3 (co_replayWindow a) = Inr d"
    using suiteCipher_total [OF assms(1)] by blast
  have "rc_epoch d = 3" using suiteCipher_Inr [OF d] by (simp add: trafficCipher_def)
  then have "newReceivingTrafficWithCipher suite ?y d 3 (co_replayWindow a) =
      Inr \<lparr>rt_suite = suite, rt_secret = ?y, rt_epochs = \<lparr>es_current = 3, es_ciphers = [(3, d)]\<rparr>, rt_current = 3,
          rt_replaySize = co_replayWindow a, rt_lastUpdateSequence = 0, rt_hasUpdateSequence = False, rt_connectionID = [],
          rt_hasConnectionID = False, rt_plaintextLimit = rc_plaintextLimit d, rt_acceptedCIDs = [], rt_secrets = [(3, ?y)]\<rparr>"
    by (simp add: newReceivingTrafficWithCipher_def epochInstall_def epochSetCurrent_def newEpochSet_def)
  moreover have "installApplicationKeysAt cp a suite cs ss m =
      (rbind (newSendingTrafficWithOwnedSecret cp suite ?x 3 m (co_replayWindow a)) (\<lambda>sending.
        rbind (newReceivingTrafficWithOwnedSecret cp suite ?y 3 (co_replayWindow a)) (\<lambda>receiving.
        let sending = sendingSetPlaintextLimit sending (co_peerRecordSizeLimit a);
            receiving = receivingSetPlaintextLimit receiving (co_localRecordSizeLimit a)
        in if co_connectionIDNegotiated a
           then case sendingSetConnectionID sending (co_sendConnectionID a) of
                  (sending, Inl err) \<Rightarrow> Inl err
                | (sending, Inr _) \<Rightarrow>
                    (case receivingSetConnectionID receiving (co_receiveConnectionID a) of
                       (receiving, Inl err) \<Rightarrow> Inl err
                     | (receiving, Inr _) \<Rightarrow>
                         Inr (a\<lparr>co_sendingTraffic := Some sending, co_receivingTraffic := Some receiving\<rparr>))
           else Inr (a\<lparr>co_sendingTraffic := Some sending, co_receivingTraffic := Some receiving\<rparr>))))"
    using assms(2) by (auto simp: installApplicationKeysAt_def)
  ultimately show ?thesis
    using c d
    by (auto simp: newSendingTrafficWithOwnedSecret_def newReceivingTrafficWithOwnedSecret_def sendingStart_def receivingStart_def
        sendingSetPlaintextLimit_def receivingSetPlaintextLimit_def newSendingTrafficWithCipher_def
        sendingSetConnectionID_def receivingSetConnectionID_def setConnectionID_def Let_def simp del: rbind_eq_Inr)
qed

lemma sendingStart_inv:
  assumes c: "suiteCipher cp suite x 3 n = Inr c" and "co_connectionIDNegotiated a \<longrightarrow> length (co_sendConnectionID a) \<le> 255"
  shows "sender_inv cp (sendingStart a suite x c m) 3 q \<and>
    st_suite (sendingStart a suite x c m) = suite \<and> st_secret (sendingStart a suite x c m) = x \<and>
    st_update (sendingStart a suite x c m) = \<lparr>ku_pending = False, ku_records = []\<rparr> \<and>
    st_hasConnectionID (sendingStart a suite x c m) = co_connectionIDNegotiated a \<and>
    (co_connectionIDNegotiated a \<longrightarrow> st_connectionID (sendingStart a suite x c m) = co_sendConnectionID a)"
  using suiteCipher_Inr [OF c] assms(2)
  by (cases "co_connectionIDNegotiated a") (simp_all add: sendingStart_def sendingSetPlaintextLimit_def newSendingTrafficWithCipher_def sendingSetConnectionID_def setConnectionID_def
      sender_inv_def sends_def trafficCipher_def setPlaintextLimit_def Let_def)

lemma receivingStart_inv:
  assumes d: "suiteCipher cp suite x 3 n = Inr d" and "co_connectionIDNegotiated b \<longrightarrow> length (co_receiveConnectionID b) \<le> 255"
  shows "receiver_inv cp (receivingStart b suite x d) \<and>
    rt_suite (receivingStart b suite x d) = suite \<and> rt_secret (receivingStart b suite x d) = x \<and> rt_current (receivingStart b suite x d) = 3 \<and>
    \<not> rt_hasUpdateSequence (receivingStart b suite x d) \<and>
    rt_hasConnectionID (receivingStart b suite x d) = co_connectionIDNegotiated b \<and>
    (co_connectionIDNegotiated b \<longrightarrow> rt_acceptedCIDs (receivingStart b suite x d) = [co_receiveConnectionID b])"
  using suiteCipher_Inr [OF d] assms(2)
  by (cases "co_connectionIDNegotiated b") (simp_all add: receivingStart_def receivingSetPlaintextLimit_def receivingSetConnectionID_def setConnectionID_def receiver_inv_def
      holdsEpoch_def receives_def trafficCipher_def setPlaintextLimit_def cids_ok_def epochs_ok_def prefix_free_def Let_def)

definition peers :: "conn \<Rightarrow> conn \<Rightarrow> bool" where
  "peers a b \<longleftrightarrow>
     co_isClient a \<noteq> co_isClient b \<and> co_sendingTraffic a = None \<and> co_sendingTraffic b = None \<and>
     co_connectionIDNegotiated a = co_connectionIDNegotiated b \<and> co_sendConnectionID a = co_receiveConnectionID b"

lemma start_inv:
  assumes ok: "provider_ok cp suite" and p: "peers a b"
    and a: "installApplicationKeysAt cp a suite cs ss m = Inr a'" and b: "installApplicationKeysAt cp b suite cs ss n = Inr b'"
  shows "st_suite (tp_sender (startPair a' b')) = suite \<and> pair_inv cp (startPair a' b') 3 0"
proof -
  let ?x = "ownedSecret suite (if co_isClient a then cs else ss)"
  have none: "co_sendingTraffic a = None" "co_sendingTraffic b = None" and x: "?x = ownedSecret suite (if co_isClient b then ss else cs)"
    using p by (auto simp: peers_def)
  from install_cases [OF ok none(1), of cs ss m] a obtain c where
    c: "suiteCipher cp suite ?x 3 (co_replayWindow a) = Inr c" "co_sendingTraffic a' = Some (sendingStart a suite ?x c m)"
    and la: "co_connectionIDNegotiated a \<longrightarrow> length (co_sendConnectionID a) \<le> 255"
    by (auto split: if_splits)
  from install_cases [OF ok none(2), of cs ss n] b obtain d where
    d: "suiteCipher cp suite ?x 3 (co_replayWindow b) = Inr d" "co_receivingTraffic b' = Some (receivingStart b suite ?x d)"
    and lb: "co_connectionIDNegotiated b \<longrightarrow> length (co_receiveConnectionID b) \<le> 255"
    unfolding x by (auto split: if_splits)
  from sendingStart_inv [OF c(1) la, of m 0] receivingStart_inv [OF d(1) lb] p c(2) d(2) show ?thesis
    by (simp add: startPair_def pair_inv_def in_step_def peers_def Let_def)
qed

section \<open>Properties\<close>

text \<open>
  C3. Sender and receiver always agree on the keys. Two endpoints install the application keys of one
  handshake and then run any interleaving of: key updates started, retransmitted, delivered late,
  repeatedly or never, acknowledgements, records sealed, other handshake messages numbered, arbitrary
  datagrams given to the receiver, connection IDs issued and switched. In every state they reach, the
  sender has a cipher, the receiver holds the cipher of the same epoch with the same keys and the same
  traffic secret, the receiver is at the sender's epoch or one ahead of a sender that still waits for its
  acknowledgement, and every record the sender seals then is selected by its two epoch bits and opened to
  its content, whenever its sequence number is within the window and unseen and its size within the
  receiver's limit.
\<close>

theorem key_update_agreement:
  assumes "provider_ok cp suite" and "peers a b"
    and "installApplicationKeysAt cp a suite clientSecret serverSecret m = Inr a'"
    and "installApplicationKeysAt cp b suite clientSecret serverSecret n = Inr b'"
    and "update_reachable cp (startPair a' b') p"
  shows "\<exists>e c rc. sendable (tp_sender p) (tp_receiver p) e c rc \<and>
     (\<forall>ct content wide lp c' packet.
        sealWithHeader c ct content wide lp = (c', Inr packet) \<and>
        reachable_sequence wide (nextExpected (rc_replay rc)) (rc_nextSequence c) \<and> replayCheck (rc_replay rc) (rc_nextSequence c) \<and>
        (rc_plaintextLimit rc = 0 \<or> length content < unat (rc_plaintextLimit rc)) \<longrightarrow>
        (\<exists>epochs. epochOpenRecord (rt_epochs (tp_receiver p)) packet = (epochs, Inr (content, ct, e, length packet))))"
proof -
  from start_inv [OF assms(1-4)] have s: "st_suite (tp_sender (startPair a' b')) = suite" and i: "\<exists>e q. pair_inv cp (startPair a' b') e q" by auto
  from update_reachable_inv [OF assms(5) _ i] s assms(1) obtain e q where
    ok: "provider_ok cp (st_suite (tp_sender p))" and inv: "pair_inv cp p e q" by auto
  from pair_inv_sendable [OF this] obtain c rc where x: "sendable (tp_sender p) (tp_receiver p) e c rc" "aead_ok (rc_aead c)"
    "\<forall>first. ucast (first AND 3) = e AND 3 \<longrightarrow> selectCipherLocked (rt_epochs (tp_receiver p)) first = Inr rc" by blast
  show ?thesis using x(1) sendable_opens [OF x] by blast
qed

definition sampleProvider :: cryptoProvider where
  "sampleProvider = \<lparr>cp_hmac = sampleMac, cp_newAEAD = \<lambda>suite key. Inr sampleAead, cp_newMask = \<lambda>suite key. Inr (\<lambda>sample. Inr (0, 0))\<rparr>"

definition sampleConn :: "bool \<Rightarrow> conn" where
  "sampleConn isClient = \<lparr>co_isClient = isClient, co_replayWindow = 64, co_peerRecordSizeLimit = 0, co_localRecordSizeLimit = 0,
     co_connectionIDNegotiated = True, co_sendConnectionID = [7, 7], co_receiveConnectionID = [7, 7], co_sendingTraffic = None,
     co_receivingTraffic = None, co_keyUpdateResponsePending = False\<rparr>"

theorem key_update_agreement_witness:
  "\<exists>a b p e c rc. installApplicationKeysAt sampleProvider (sampleConn True) (hd supportedCipherSuites) [1] [2] 0 = Inr a \<and>
     installApplicationKeysAt sampleProvider (sampleConn False) (hd supportedCipherSuites) [1] [2] 0 = Inr b \<and>
     p = noteSent (startPair a b) (fst (beginKeyUpdate sampleProvider (tp_sender (startPair a b)) True))
           (snd (beginKeyUpdate sampleProvider (tp_sender (startPair a b)) True)) \<and>
     sendable (tp_sender p) (tp_receiver p) e c rc"
proof -
  let ?suite = "hd supportedCipherSuites"
  have ok: "provider_ok sampleProvider ?suite"
    using hmac_ok_sampleMac aead_ok_sample by (simp add: provider_ok_def sampleProvider_def supportedCipherSuites_def)
  have none: "co_sendingTraffic (sampleConn x) = None" for x by (simp add: sampleConn_def)
  obtain a b where a: "installApplicationKeysAt sampleProvider (sampleConn True) ?suite [1] [2] 0 = Inr a"
    and b: "installApplicationKeysAt sampleProvider (sampleConn False) ?suite [1] [2] 0 = Inr b"
    using install_cases [OF ok none, of True "[1]" "[2]" 0] install_cases [OF ok none, of False "[1]" "[2]" 0]
    by (auto simp: sampleConn_def)
  have p: "peers (sampleConn True) (sampleConn False)" by (simp add: peers_def sampleConn_def)
  let ?b = "beginKeyUpdate sampleProvider (tp_sender (startPair a b)) True"
  have "update_reachable sampleProvider (startPair a b) (noteSent (startPair a b) (fst ?b) (snd ?b))"
    by (rule update_reachable.step [OF update_reachable.start update_step.begin_update]) simp
  from key_update_agreement [OF ok p a b this] a b show ?thesis by blast
qed

end
