(* ===== verification/Key_Exchange.thy ===== *)
theory Key_Exchange
  imports Hello Cipher_Suite
begin

text \<open>
  \<^verbatim>\<open>src/key_exchange.go\<close> and \<^verbatim>\<open>src/negotiate.go\<close>: the classical and hybrid key exchanges and the
  selection of suites, key shares, signature schemes and protocols. The standard library's ECDH and
  ML-KEM are one parameter, a record of its functions over its private key types; what
  \<^verbatim>\<open>GenerateKey\<close> and the random source return is an argument. The source's checks for missing
  pointers are not represented: a key value here has all its parts.
\<close>

section \<open>Groups\<close>

abbreviation X25519 :: u16 where "X25519 \<equiv> 29"
abbreviation CurveP256 :: u16 where "CurveP256 \<equiv> 23"
abbreviation CurveP384 :: u16 where "CurveP384 \<equiv> 24"
abbreviation X25519MLKEM768 :: u16 where "X25519MLKEM768 \<equiv> 4588"
abbreviation SecP256r1MLKEM768 :: u16 where "SecP256r1MLKEM768 \<equiv> 4587"
abbreviation SecP384r1MLKEM1024 :: u16 where "SecP384r1MLKEM1024 \<equiv> 4589"

record hybridKeyExchange =
  hk_ecdhGroup :: u16
  hk_ecdhElementSize :: nat
  hk_mlkemPublicKeySize :: nat
  hk_mlkemCiphertextSize :: nat
  hk_mlkemFirst :: bool

definition hybridKeyExchangeForID :: "u16 \<Rightarrow> hybridKeyExchange option" where
  "hybridKeyExchangeForID g =
     (if g = X25519MLKEM768
        then Some \<lparr>hk_ecdhGroup = X25519, hk_ecdhElementSize = 32, hk_mlkemPublicKeySize = 1184, hk_mlkemCiphertextSize = 1088, hk_mlkemFirst = True\<rparr>
      else if g = SecP256r1MLKEM768
        then Some \<lparr>hk_ecdhGroup = CurveP256, hk_ecdhElementSize = 65, hk_mlkemPublicKeySize = 1184, hk_mlkemCiphertextSize = 1088, hk_mlkemFirst = False\<rparr>
      else if g = SecP384r1MLKEM1024
        then Some \<lparr>hk_ecdhGroup = CurveP384, hk_ecdhElementSize = 97, hk_mlkemPublicKeySize = 1568, hk_mlkemCiphertextSize = 1568, hk_mlkemFirst = False\<rparr>
      else None)"

text \<open>A curve of the standard library is named by its group.\<close>

definition curveForID :: "u16 \<Rightarrow> u16 result" where
  "curveForID g =
     (if g = X25519 \<or> g = CurveP256 \<or> g = CurveP384 then Inr g
      else Inl (ErrorString ''dtls13: unsupported key exchange group''))"

definition supportedKeyExchangeGroup :: "u16 \<Rightarrow> bool" where
  "supportedKeyExchangeGroup g \<longleftrightarrow> \<not> isl (curveForID g) \<or> hybridKeyExchangeForID g \<noteq> None"

section \<open>The library\<close>

record ('k, 'd) kexLibrary =
  kl_curve :: "'k \<Rightarrow> u16"
  kl_public :: "'k \<Rightarrow> bytes"
  kl_validPublic :: "u16 \<Rightarrow> bytes \<Rightarrow> bool"
  kl_ecdh :: "'k \<Rightarrow> bytes \<Rightarrow> bytes option"
  kl_newDecapsulator :: "u16 \<Rightarrow> bytes \<Rightarrow> 'd result"
  kl_encapsulationKey :: "'d \<Rightarrow> bytes"
  kl_validEncapsulationKey :: "u16 \<Rightarrow> bytes \<Rightarrow> bool"
  kl_encapsulate :: "bytes \<Rightarrow> bytes \<Rightarrow> bytes \<times> bytes"
  kl_decapsulate :: "'d \<Rightarrow> bytes \<Rightarrow> bytes option"

section \<open>Client keys\<close>

datatype ('k, 'd) clientKeyExchange = EphemeralKey u16 'k | HybridEphemeralKey u16 'k 'd

definition generateEphemeralKey ::
  "('k, 'd) kexLibrary \<Rightarrow> u16 \<Rightarrow> (u16 \<Rightarrow> 'k result) \<Rightarrow> bytes result \<Rightarrow> ('k, 'd) clientKeyExchange result" where
  "generateEphemeralKey lib g generateKey readSeed =
     (case curveForID g of
        Inr curve \<Rightarrow> rbind (generateKey curve) (\<lambda>private. Inr (EphemeralKey g private))
      | Inl err \<Rightarrow>
          (case hybridKeyExchangeForID g of
             None \<Rightarrow> Inl err
           | Some hybrid \<Rightarrow>
               rbind (generateKey (hk_ecdhGroup hybrid)) (\<lambda>private.
               rbind readSeed (\<lambda>seed.
               rbind (kl_newDecapsulator lib g seed) (\<lambda>decapsulationKey.
                 Inr (HybridEphemeralKey g private decapsulationKey))))))"

fun groupID :: "('k, 'd) clientKeyExchange \<Rightarrow> u16" where
  "groupID (EphemeralKey g private) = g"
| "groupID (HybridEphemeralKey g private mlkem) = g"

text \<open>The zero value stands for the description of a group that is not hybrid, as in the source.\<close>

definition hybridOf :: "u16 \<Rightarrow> hybridKeyExchange" where
  "hybridOf g =
     (case hybridKeyExchangeForID g of
        Some hybrid \<Rightarrow> hybrid
      | None \<Rightarrow> \<lparr>hk_ecdhGroup = 0, hk_ecdhElementSize = 0, hk_mlkemPublicKeySize = 0, hk_mlkemCiphertextSize = 0, hk_mlkemFirst = False\<rparr>)"

fun publicBytes :: "('k, 'd) kexLibrary \<Rightarrow> ('k, 'd) clientKeyExchange \<Rightarrow> bytes" where
  "publicBytes lib (EphemeralKey g private) = kl_public lib private"
| "publicBytes lib (HybridEphemeralKey g private mlkem) =
     (if hk_mlkemFirst (hybridOf g) then kl_encapsulationKey lib mlkem @ kl_public lib private
      else kl_public lib private @ kl_encapsulationKey lib mlkem)"

fun fallbackPublicBytes :: "('k, 'd) kexLibrary \<Rightarrow> ('k, 'd) clientKeyExchange \<Rightarrow> (u16 \<times> bytes) option" where
  "fallbackPublicBytes lib (EphemeralKey g private) = None"
| "fallbackPublicBytes lib (HybridEphemeralKey g private mlkem) = Some (hk_ecdhGroup (hybridOf g), kl_public lib private)"

definition ecdhSharedSecret :: "('k, 'd) kexLibrary \<Rightarrow> 'k \<Rightarrow> bytes \<Rightarrow> bytes result" where
  "ecdhSharedSecret lib private peerPublic =
     (if \<not> kl_validPublic lib (kl_curve lib private) peerPublic then Inl (ProtocolError ''invalid peer key share'')
      else case kl_ecdh lib private peerPublic of
             None \<Rightarrow> Inl (ProtocolError ''invalid peer key share'')
           | Some secret \<Rightarrow> Inr secret)"

definition splitHybridShare :: "hybridKeyExchange \<Rightarrow> bytes \<Rightarrow> nat \<Rightarrow> bytes \<times> bytes" where
  "splitHybridShare hybrid share mlkemSize =
     (if hk_mlkemFirst hybrid then (drop mlkemSize share, take mlkemSize share)
      else (take (hk_ecdhElementSize hybrid) share, drop (hk_ecdhElementSize hybrid) share))"

definition joinHybridSecret :: "hybridKeyExchange \<Rightarrow> bytes \<Rightarrow> bytes \<Rightarrow> bytes" where
  "joinHybridSecret hybrid ecdhSecret mlkemSecret =
     (if hk_mlkemFirst hybrid then mlkemSecret @ ecdhSecret else ecdhSecret @ mlkemSecret)"

fun sharedSecret :: "('k, 'd) kexLibrary \<Rightarrow> ('k, 'd) clientKeyExchange \<Rightarrow> u16 \<Rightarrow> bytes \<Rightarrow> bytes result" where
  "sharedSecret lib (EphemeralKey g private) peerGroup peerPublic =
     (if peerGroup \<noteq> g then Inl (ProtocolError ''peer key share group does not match local key'')
      else ecdhSharedSecret lib private peerPublic)"
| "sharedSecret lib (HybridEphemeralKey g private mlkem) peerGroup peerPublic =
     (let hybrid = hybridOf g in
      if peerGroup = hk_ecdhGroup hybrid then ecdhSharedSecret lib private peerPublic
      else if peerGroup \<noteq> g then Inl (ProtocolError ''peer key share group does not match local key'')
      else if length peerPublic \<noteq> hk_ecdhElementSize hybrid + hk_mlkemCiphertextSize hybrid
        then Inl (ProtocolError ''invalid hybrid server key share length'')
      else
        let (ecdhShare, mlkemCiphertext) = splitHybridShare hybrid peerPublic (hk_mlkemCiphertextSize hybrid) in
        rbind (ecdhSharedSecret lib private ecdhShare) (\<lambda>ecdhSecret.
          case kl_decapsulate lib mlkem mlkemCiphertext of
            None \<Rightarrow> Inl (ProtocolError ''invalid ML-KEM ciphertext'')
          | Some mlkemSecret \<Rightarrow> Inr (joinHybridSecret hybrid ecdhSecret mlkemSecret)))"

section \<open>The server's share\<close>

definition wrapInternal :: "'a result \<Rightarrow> 'a result" where
  "wrapInternal res = (case res of Inl err \<Rightarrow> Inl (alertError alertInternalError err) | Inr x \<Rightarrow> Inr x)"

text \<open>\<open>coins\<close> is the randomness that \<^verbatim>\<open>Encapsulate\<close> draws inside the library.\<close>

definition hybridServerShare ::
  "('k, 'd) kexLibrary \<Rightarrow> u16 \<Rightarrow> hybridKeyExchange \<Rightarrow> bytes \<Rightarrow> (u16 \<Rightarrow> 'k result) \<Rightarrow> bytes \<Rightarrow> (bytes \<times> bytes) result" where
  "hybridServerShare lib g hybrid clientShare generateKey coins =
     (if length clientShare \<noteq> hk_ecdhElementSize hybrid + hk_mlkemPublicKeySize hybrid
        then Inl (ProtocolError ''invalid hybrid client key share length'')
      else
        let (ecdhShare, mlkemPublic) = splitHybridShare hybrid clientShare (hk_mlkemPublicKeySize hybrid) in
        if \<not> kl_validPublic lib (hk_ecdhGroup hybrid) ecdhShare then Inl (ProtocolError ''invalid peer key share'')
        else if \<not> kl_validEncapsulationKey lib g mlkemPublic then Inl (ProtocolError ''invalid ML-KEM public key'')
        else
          rbind (wrapInternal (generateKey (hk_ecdhGroup hybrid))) (\<lambda>private.
            case kl_ecdh lib private ecdhShare of
              None \<Rightarrow> Inl (ProtocolError ''invalid peer key share'')
            | Some ecdhSecret \<Rightarrow>
                (let (mlkemSecret, ciphertext) = kl_encapsulate lib mlkemPublic coins;
                     ecdhPublic = kl_public lib private;
                     serverShare = (if hk_mlkemFirst hybrid then ciphertext @ ecdhPublic else ecdhPublic @ ciphertext)
                 in Inr (serverShare, joinHybridSecret hybrid ecdhSecret mlkemSecret))))"

definition generateServerKeyShare ::
  "('k, 'd) kexLibrary \<Rightarrow> u16 \<Rightarrow> bytes \<Rightarrow> (u16 \<Rightarrow> 'k result) \<Rightarrow> bytes \<Rightarrow> (bytes \<times> bytes) result" where
  "generateServerKeyShare lib g clientShare generateKey coins =
     (case hybridKeyExchangeForID g of
        None \<Rightarrow>
          rbind (wrapInternal (curveForID g)) (\<lambda>curve.
          rbind (wrapInternal (generateKey curve)) (\<lambda>private.
          rbind (ecdhSharedSecret lib private clientShare) (\<lambda>secret. Inr (kl_public lib private, secret))))
      | Some hybrid \<Rightarrow> hybridServerShare lib g hybrid clientShare generateKey coins)"

text \<open>The key shares of the first ClientHello (\<^verbatim>\<open>clientPrepareHello\<close>).\<close>

definition clientKeyShares :: "('k, 'd) kexLibrary \<Rightarrow> ('k, 'd) clientKeyExchange \<Rightarrow> u16 list \<Rightarrow> keyShareEntry list" where
  "clientKeyShares lib key curvePreferences =
     (let keyShares = [\<lparr>ks_group = groupID key, ks_data = publicBytes lib key\<rparr>] in
      case fallbackPublicBytes lib key of
        Some (g, public) \<Rightarrow>
          if g \<in> set curvePreferences then keyShares @ [\<lparr>ks_group = g, ks_data = public\<rparr>] else keyShares
      | None \<Rightarrow> keyShares)"

section \<open>Negotiation\<close>

text \<open>The first element of the preferences, in order, for which the inner loop finds a candidate.\<close>

fun firstPreferred :: "('p \<Rightarrow> 'c \<Rightarrow> bool) \<Rightarrow> 'p list \<Rightarrow> 'c list \<Rightarrow> 'c option" where
  "firstPreferred accept [] candidates = None"
| "firstPreferred accept (p # preferences) candidates =
     (case find (accept p) candidates of
        Some c \<Rightarrow> Some c
      | None \<Rightarrow> firstPreferred accept preferences candidates)"

definition selectCipherSuite :: "u16 list \<Rightarrow> u16 list \<Rightarrow> cipherSuite result" where
  "selectCipherSuite preferences offered =
     (case firstPreferred (\<lambda>preferred candidate. candidate = preferred) preferences offered of
        Some candidate \<Rightarrow> cipherSuiteForID candidate
      | None \<Rightarrow> Inl (alertError alertHandshakeFailure (ErrorString ''dtls13: no mutually supported cipher suite'')))"

definition selectKeyShare :: "u16 list \<Rightarrow> keyShareEntry list \<Rightarrow> keyShareEntry result" where
  "selectKeyShare preferences shares =
     (case firstPreferred (\<lambda>preferred share. ks_group share = preferred \<and> supportedKeyExchangeGroup (ks_group share)) preferences shares of
        Some share \<Rightarrow> Inr share
      | None \<Rightarrow> Inl (alertError alertHandshakeFailure (ErrorString ''dtls13: no mutually supported key share'')))"

datatype publicKeyKind = RSAKey | ECDSAKey string | Ed25519Key | OtherKey

abbreviation Ed25519 :: u16 where "Ed25519 \<equiv> 0x0807"
abbreviation ECDSAWithP256AndSHA256 :: u16 where "ECDSAWithP256AndSHA256 \<equiv> 0x0403"
abbreviation ECDSAWithP384AndSHA384 :: u16 where "ECDSAWithP384AndSHA384 \<equiv> 0x0503"
abbreviation ECDSAWithP521AndSHA512 :: u16 where "ECDSAWithP521AndSHA512 \<equiv> 0x0603"
abbreviation PSSWithSHA256 :: u16 where "PSSWithSHA256 \<equiv> 0x0804"
abbreviation PSSWithSHA384 :: u16 where "PSSWithSHA384 \<equiv> 0x0805"
abbreviation PSSWithSHA512 :: u16 where "PSSWithSHA512 \<equiv> 0x0806"

fun signatureSchemePublicKeyCompatible :: "publicKeyKind \<Rightarrow> u16 \<Rightarrow> bool" where
  "signatureSchemePublicKeyCompatible RSAKey scheme =
     (scheme = PSSWithSHA256 \<or> scheme = PSSWithSHA384 \<or> scheme = PSSWithSHA512)"
| "signatureSchemePublicKeyCompatible (ECDSAKey curve) scheme =
     (if curve = ''P-256'' then scheme = ECDSAWithP256AndSHA256
      else if curve = ''P-384'' then scheme = ECDSAWithP384AndSHA384
      else if curve = ''P-521'' then scheme = ECDSAWithP521AndSHA512
      else False)"
| "signatureSchemePublicKeyCompatible Ed25519Key scheme = (scheme = Ed25519)"
| "signatureSchemePublicKeyCompatible OtherKey scheme = False"

definition signaturePreferences :: "u16 list" where
  "signaturePreferences = [Ed25519, ECDSAWithP256AndSHA256, PSSWithSHA256, ECDSAWithP384AndSHA384, PSSWithSHA384, ECDSAWithP521AndSHA512, PSSWithSHA512]"

definition selectSignatureScheme :: "publicKeyKind \<Rightarrow> u16 list \<Rightarrow> u16 result" where
  "selectSignatureScheme signer offered =
     (case firstPreferred (\<lambda>preferred candidate. candidate = preferred \<and> signatureSchemePublicKeyCompatible signer candidate)
             signaturePreferences offered of
        Some candidate \<Rightarrow> Inr candidate
      | None \<Rightarrow> Inl (alertError alertHandshakeFailure (ErrorString ''dtls13: no compatible certificate signature scheme'')))"

definition negotiateALPN :: "bytes list \<Rightarrow> bytes list \<Rightarrow> bytes result" where
  "negotiateALPN server client =
     (if length server = 0 \<or> length client = 0 then Inr []
      else case find (\<lambda>serverProto. serverProto \<in> set client) server of
             Some serverProto \<Rightarrow> Inr serverProto
           | None \<Rightarrow> Inl (alertError alertNoApplicationProtocol (ErrorString ''dtls13: no mutually supported ALPN protocol'')))"

section \<open>Selection\<close>

lemma firstPreferred_Some:
  "firstPreferred accept ps cs = Some c \<Longrightarrow>
   \<exists>pre p post. ps = pre @ p # post \<and> c \<in> set cs \<and> accept p c \<and> (\<forall>q \<in> set pre. \<forall>d \<in> set cs. \<not> accept q d)"
proof (induction ps)
  case (Cons p ps)
  show ?case
  proof (cases "find (accept p) cs")
    case None
    with Cons obtain pre q post where "ps = pre @ q # post" "c \<in> set cs" "accept q c" "\<forall>r \<in> set pre. \<forall>d \<in> set cs. \<not> accept r d"
      by auto
    with None show ?thesis by (intro exI [of _ "p # pre"] exI [of _ q] exI [of _ post]) (auto simp: find_None_iff)
  next
    case (Some d)
    with Cons.prems have "d = c" by simp
    with Some have "c \<in> set cs" "accept p c" by (auto simp: find_Some_iff)
    then show ?thesis by (intro exI [of _ "[]"]) auto
  qed
qed simp

lemma firstPreferred_None: "firstPreferred accept ps cs = None \<longleftrightarrow> (\<forall>p \<in> set ps. \<forall>c \<in> set cs. \<not> accept p c)"
proof (induction ps)
  case (Cons p ps)
  show ?case
  proof (cases "find (accept p) cs")
    case None
    then have "\<forall>c \<in> set cs. \<not> accept p c" by (auto simp: find_None_iff)
    with None Cons show ?thesis by auto
  next
    case (Some c)
    then have "c \<in> set cs" "accept p c" by (auto simp: find_Some_iff)
    with Some show ?thesis by auto
  qed
qed simp

section \<open>Agreement\<close>

fun curveElementSize :: "u16 \<Rightarrow> nat" where
  "curveElementSize g = (if g = X25519 then 32 else if g = CurveP256 then 65 else 97)"

text \<open>
  What the standard library documents: public keys have their curve's length, two keys of one curve
  agree on the ECDH secret, an ML-KEM key has the sizes of its parameter set, and decapsulation
  inverts encapsulation. A key that \<^verbatim>\<open>GenerateKey\<close> returns is on the curve asked for.
\<close>

definition kem_ok :: "('k, 'd) kexLibrary \<Rightarrow> u16 \<Rightarrow> 'd \<Rightarrow> bool" where
  "kem_ok lib g d \<longleftrightarrow>
     length (kl_encapsulationKey lib d) = hk_mlkemPublicKeySize (hybridOf g) \<and>
     kl_validEncapsulationKey lib g (kl_encapsulationKey lib d) \<and>
     (\<forall>coins secret ciphertext. kl_encapsulate lib (kl_encapsulationKey lib d) coins = (secret, ciphertext) \<longrightarrow>
        length ciphertext = hk_mlkemCiphertextSize (hybridOf g) \<and> kl_decapsulate lib d ciphertext = Some secret)"

definition kex_ok :: "('k, 'd) kexLibrary \<Rightarrow> bool" where
  "kex_ok lib \<longleftrightarrow>
     (\<forall>k. length (kl_public lib k) = curveElementSize (kl_curve lib k)) \<and>
     (\<forall>a b. kl_curve lib a = kl_curve lib b \<longrightarrow> kl_validPublic lib (kl_curve lib a) (kl_public lib b) \<and>
        (\<exists>s. kl_ecdh lib a (kl_public lib b) = Some s \<and> kl_ecdh lib b (kl_public lib a) = Some s)) \<and>
     (\<forall>g seed d. kl_newDecapsulator lib g seed = Inr d \<longrightarrow> kem_ok lib g d)"

definition generator_ok :: "('k, 'd) kexLibrary \<Rightarrow> (u16 \<Rightarrow> 'k result) \<Rightarrow> bool" where
  "generator_ok lib generateKey \<longleftrightarrow> (\<forall>curve k. generateKey curve = Inr k \<longrightarrow> kl_curve lib k = curve)"

lemma hybrid_cases:
  "hybridKeyExchangeForID g = Some h \<Longrightarrow>
   hybridOf g = h \<and> hk_ecdhElementSize h = curveElementSize (hk_ecdhGroup h) \<and> curveForID (hk_ecdhGroup h) = Inr (hk_ecdhGroup h) \<and>
   hybridKeyExchangeForID (hk_ecdhGroup h) = None \<and> g \<noteq> hk_ecdhGroup h"
  by (auto simp: hybridKeyExchangeForID_def hybridOf_def curveForID_def split: if_splits)

lemma curve_not_hybrid: "curveForID g = Inr c \<Longrightarrow> c = g \<and> hybridKeyExchangeForID g = None"
  by (auto simp: curveForID_def hybridKeyExchangeForID_def split: if_splits)

lemma ecdh_agrees:
  assumes "kex_ok lib" and "kl_curve lib a = kl_curve lib b"
  shows "\<exists>s. ecdhSharedSecret lib a (kl_public lib b) = Inr s \<and> ecdhSharedSecret lib b (kl_public lib a) = Inr s \<and>
    kl_ecdh lib b (kl_public lib a) = Some s \<and> kl_validPublic lib (kl_curve lib b) (kl_public lib a)"
proof -
  from assms obtain s where "kl_ecdh lib a (kl_public lib b) = Some s" "kl_ecdh lib b (kl_public lib a) = Some s"
      "kl_validPublic lib (kl_curve lib a) (kl_public lib b)"
    unfolding kex_ok_def by blast
  moreover have "kl_validPublic lib (kl_curve lib b) (kl_public lib a)" using assms unfolding kex_ok_def by metis
  ultimately show ?thesis by (simp add: ecdhSharedSecret_def)
qed

lemma classical_agrees:
  assumes ok: "kex_ok lib" and gs: "generator_ok lib genS" and k: "kl_curve lib private = g" and g: "curveForID g = Inr g"
    and s: "genS g = Inr srv"
  shows "\<exists>secret. generateServerKeyShare lib g (kl_public lib private) genS coins = Inr (kl_public lib srv, secret) \<and>
    ecdhSharedSecret lib private (kl_public lib srv) = Inr secret"
proof -
  have "kl_curve lib srv = kl_curve lib private" using gs s k by (simp add: generator_ok_def)
  from ecdh_agrees [OF ok this] curve_not_hybrid [OF g] g s show ?thesis
    by (auto simp: generateServerKeyShare_def wrapInternal_def)
qed

lemma kem_agrees:
  assumes "kex_ok lib" and "kl_newDecapsulator lib g seed = Inr d" and e: "kl_encapsulate lib (kl_encapsulationKey lib d) coins = (ms, ct)"
  shows "length (kl_encapsulationKey lib d) = hk_mlkemPublicKeySize (hybridOf g) \<and> kl_validEncapsulationKey lib g (kl_encapsulationKey lib d) \<and>
    length ct = hk_mlkemCiphertextSize (hybridOf g) \<and> kl_decapsulate lib d ct = Some ms"
proof -
  have "kem_ok lib g d" using assms(1,2) unfolding kex_ok_def by blast
  then show ?thesis using e by (simp add: kem_ok_def)
qed

lemma split_share:
  assumes "length e = hk_ecdhElementSize h" and "length m = n"
  shows "splitHybridShare h (if hk_mlkemFirst h then m @ e else e @ m) n = (e, m)"
  using assms by (simp add: splitHybridShare_def)

lemma hybrid_agrees:
  assumes ok: "kex_ok lib" and gs: "generator_ok lib genS" and h: "hybridKeyExchangeForID g = Some h"
    and k: "kl_curve lib private = hk_ecdhGroup h" and d: "kl_newDecapsulator lib g seed = Inr d" and s: "genS (hk_ecdhGroup h) = Inr srv"
  shows "\<exists>share secret. generateServerKeyShare lib g (publicBytes lib (HybridEphemeralKey g private d)) genS coins = Inr (share, secret) \<and>
    sharedSecret lib (HybridEphemeralKey g private d) g share = Inr secret"
proof -
  note hc = hybrid_cases [OF h]
  have cs: "kl_curve lib srv = kl_curve lib private" using gs s k by (simp add: generator_ok_def)
  obtain ms ct where e: "kl_encapsulate lib (kl_encapsulationKey lib d) coins = (ms, ct)" by fastforce
  have "length (kl_encapsulationKey lib d) = hk_mlkemPublicKeySize h" and v: "kl_validEncapsulationKey lib g (kl_encapsulationKey lib d)"
    and "length ct = hk_mlkemCiphertextSize h" and dec: "kl_decapsulate lib d ct = Some ms"
    using kem_agrees [OF ok d e] hc by simp_all
  moreover have len: "length (kl_public lib private) = hk_ecdhElementSize h" "length (kl_public lib srv) = hk_ecdhElementSize h"
    using ok hc k cs by (simp_all add: kex_ok_def)
  ultimately have split: "splitHybridShare h (publicBytes lib (HybridEphemeralKey g private d)) (hk_mlkemPublicKeySize h) =
      (kl_public lib private, kl_encapsulationKey lib d)"
    "splitHybridShare h (if hk_mlkemFirst h then ct @ kl_public lib srv else kl_public lib srv @ ct) (hk_mlkemCiphertextSize h) = (kl_public lib srv, ct)"
    "length (publicBytes lib (HybridEphemeralKey g private d)) = hk_ecdhElementSize h + hk_mlkemPublicKeySize h"
    "length (if hk_mlkemFirst h then ct @ kl_public lib srv else kl_public lib srv @ ct) = hk_ecdhElementSize h + hk_mlkemCiphertextSize h"
    using hc split_share [of "kl_public lib private" h "kl_encapsulationKey lib d"] split_share [of "kl_public lib srv" h ct] by simp_all
  obtain es where es: "ecdhSharedSecret lib private (kl_public lib srv) = Inr es" "kl_ecdh lib srv (kl_public lib private) = Some es"
      "kl_validPublic lib (hk_ecdhGroup h) (kl_public lib private)"
    using ecdh_agrees [OF ok cs [symmetric]] cs k by auto
  have "generateServerKeyShare lib g (publicBytes lib (HybridEphemeralKey g private d)) genS coins =
      Inr (if hk_mlkemFirst h then ct @ kl_public lib srv else kl_public lib srv @ ct, joinHybridSecret h es ms)"
    using h s v e es split by (simp add: generateServerKeyShare_def hybridServerShare_def wrapInternal_def del: publicBytes.simps)
  moreover have "sharedSecret lib (HybridEphemeralKey g private d) g (if hk_mlkemFirst h then ct @ kl_public lib srv else kl_public lib srv @ ct) =
      Inr (joinHybridSecret h es ms)"
    using hc split es dec by (simp add: Let_def)
  ultimately show ?thesis by blast
qed

lemma generated_shares:
  assumes ok: "kex_ok lib" and gc: "generator_ok lib genC" and gs: "generator_ok lib genS" and total: "\<And>curve. \<not> isl (genS curve)"
    and key: "generateEphemeralKey lib g genC readSeed = Inr key" and share: "share \<in> set (clientKeyShares lib key curves)"
  shows "\<exists>serverShare secret. generateServerKeyShare lib (ks_group share) (ks_data share) genS coins = Inr (serverShare, secret) \<and>
    sharedSecret lib key (ks_group share) serverShare = Inr secret"
proof (cases "curveForID g")
  case (Inr c)
  then have c: "c = g" "curveForID g = Inr g" using curve_not_hybrid by auto
  with key obtain priv where k: "key = EphemeralKey g priv" "kl_curve lib priv = g"
    using gc by (auto simp: generateEphemeralKey_def generator_ok_def)
  obtain srv where s: "genS g = Inr srv" using total [of g] by (cases "genS g") auto
  from classical_agrees [OF ok gs k(2) c(2) s, of coins] share k(1) show ?thesis by (auto simp: clientKeyShares_def)
next
  case (Inl err)
  with key obtain h priv seed d where h: "hybridKeyExchangeForID g = Some h" and k: "key = HybridEphemeralKey g priv d"
    and d: "kl_newDecapsulator lib g seed = Inr d" and p: "kl_curve lib priv = hk_ecdhGroup h"
    using gc by (auto simp: generateEphemeralKey_def generator_ok_def split: option.splits)
  note hc = hybrid_cases [OF h]
  obtain srv where s: "genS (hk_ecdhGroup h) = Inr srv" using total [of "hk_ecdhGroup h"] by (cases "genS (hk_ecdhGroup h)") auto
  from share k hc consider "share = \<lparr>ks_group = g, ks_data = publicBytes lib key\<rparr>"
    | "share = \<lparr>ks_group = hk_ecdhGroup h, ks_data = kl_public lib priv\<rparr>"
    by (auto simp: clientKeyShares_def Let_def simp del: publicBytes.simps curveElementSize.simps split: if_splits)
  then show ?thesis
  proof cases
    case 1
    then show ?thesis using hybrid_agrees [OF ok gs h p d s, of coins] k by auto
  next
    case 2
    from classical_agrees [OF ok gs p _ s, of coins] hc 2 k show ?thesis by (auto simp: Let_def)
  qed
qed

section \<open>Properties\<close>

text \<open>
  C6. Both ends derive the same secret. For a client key of any supported group, classical or hybrid,
  and the key shares the client offers with it, including the classical fallback share of a hybrid key,
  the server selects the share of its most preferred offered group, its own share is computed without
  error, and the client computes from it the very secret the server holds.
\<close>

theorem key_exchange_agrees:
  assumes "kex_ok lib" and "generator_ok lib genC" and "generator_ok lib genS" and "\<And>curve. \<not> isl (genS curve)"
    and "generateEphemeralKey lib g genC readSeed = Inr key"
    and "selectKeyShare preferences (clientKeyShares lib key curves) = Inr share"
  shows "(\<exists>pre post. preferences = pre @ ks_group share # post \<and>
       (\<forall>q \<in> set pre. \<forall>other \<in> set (clientKeyShares lib key curves).
          \<not> (ks_group other = q \<and> supportedKeyExchangeGroup (ks_group other)))) \<and>
     (\<exists>serverShare secret. generateServerKeyShare lib (ks_group share) (ks_data share) genS coins = Inr (serverShare, secret) \<and>
       sharedSecret lib key (ks_group share) serverShare = Inr secret)"
proof -
  from assms(6) have "firstPreferred (\<lambda>p s. ks_group s = p \<and> supportedKeyExchangeGroup (ks_group s)) preferences (clientKeyShares lib key curves) = Some share"
    by (auto simp: selectKeyShare_def split: option.splits)
  from firstPreferred_Some [OF this] obtain pre p post where s: "preferences = pre @ p # post" "share \<in> set (clientKeyShares lib key curves)"
    "ks_group share = p" "\<forall>q \<in> set pre. \<forall>d \<in> set (clientKeyShares lib key curves). \<not> (ks_group d = q \<and> supportedKeyExchangeGroup (ks_group d))"
    by auto
  then show ?thesis using generated_shares [OF assms(1-5) s(2)] by auto
qed

definition sampleLibrary :: "(u16 \<times> u8, u16) kexLibrary" where
  "sampleLibrary =
     \<lparr>kl_curve = fst, kl_public = (\<lambda>(g, x). replicate (curveElementSize g) x), kl_validPublic = (\<lambda>g public. True),
      kl_ecdh = (\<lambda>(g, x) public. Some (if public = [] then [] else [x + hd public])), kl_newDecapsulator = (\<lambda>g seed. Inr g),
      kl_encapsulationKey = (\<lambda>g. replicate (hk_mlkemPublicKeySize (hybridOf g)) 0), kl_validEncapsulationKey = (\<lambda>g public. True),
      kl_encapsulate = (\<lambda>public coins. ([5], replicate (if length public = 1184 then 1088 else length public) 1)),
      kl_decapsulate = (\<lambda>g ciphertext. Some [5])\<rparr>"

lemma sampleLibrary_ok: "kex_ok sampleLibrary"
  by (auto simp: kex_ok_def kem_ok_def sampleLibrary_def hybridOf_def hybridKeyExchangeForID_def add.commute)

theorem key_exchange_agrees_witness:
  "\<exists>serverShare secret.
     selectKeyShare [X25519] (clientKeyShares sampleLibrary (HybridEphemeralKey X25519MLKEM768 (X25519, 3) X25519MLKEM768) [X25519MLKEM768, X25519]) =
       Inr \<lparr>ks_group = X25519, ks_data = replicate 32 3\<rparr> \<and>
     generateServerKeyShare sampleLibrary X25519 (replicate 32 3) (\<lambda>curve. Inr (curve, 4)) [] = Inr (serverShare, secret) \<and>
     sharedSecret sampleLibrary (HybridEphemeralKey X25519MLKEM768 (X25519, 3) X25519MLKEM768) X25519 serverShare = Inr secret"
proof -
  let ?key = "HybridEphemeralKey X25519MLKEM768 (X25519, 3) X25519MLKEM768 :: (u16 \<times> u8, u16) clientKeyExchange"
  have gen: "generator_ok sampleLibrary (\<lambda>curve. Inr (curve, x))" for x by (simp add: generator_ok_def sampleLibrary_def)
  have key: "generateEphemeralKey sampleLibrary X25519MLKEM768 (\<lambda>curve. Inr (curve, 3)) (Inr []) = Inr ?key"
    by (simp add: generateEphemeralKey_def curveForID_def hybridKeyExchangeForID_def sampleLibrary_def)
  have share: "selectKeyShare [X25519] (clientKeyShares sampleLibrary ?key [X25519MLKEM768, X25519]) = Inr \<lparr>ks_group = X25519, ks_data = replicate 32 3\<rparr>"
    by (simp add: selectKeyShare_def clientKeyShares_def hybridOf_def hybridKeyExchangeForID_def supportedKeyExchangeGroup_def curveForID_def
        sampleLibrary_def)
  show ?thesis using key_exchange_agrees [OF sampleLibrary_ok gen [of 3] gen [of 4] _ key share, of "[]"] share by auto
qed

end
