(* ===== verification/Path_Mtu.thy ===== *)
theory Path_Mtu
  imports Flight Alert
begin

text \<open>
  Transmission of flights: the path MTU estimate, the retransmission interval and the size errors of
  \<^verbatim>\<open>src/conn.go\<close>, and the functions of \<^verbatim>\<open>src/handshake_driver.go\<close> that write and retransmit a flight.
  The transport is a parameter that answers the n-th write; an answer other than success is an error
  value. The compare-and-swap loops run without interference here, so their first attempt succeeds.
\<close>

section \<open>Addresses\<close>

text \<open>
  A \<^verbatim>\<open>net.Addr\<close> as the program can observe it: what the type assertion to \<^verbatim>\<open>*net.UDPAddr\<close> yields (IP,
  port and zone), and the strings its two methods return.
\<close>

record netAddr =
  na_udp :: "(bytes \<times> int \<times> string) option"
  na_network :: string
  na_text :: string

definition v4InV6Prefix :: bytes where
  "v4InV6Prefix = replicate 10 0 @ [0xff, 0xff]"

text \<open>\<^verbatim>\<open>IP.To4\<close> and \<^verbatim>\<open>IP.Equal\<close> of the standard library.\<close>

definition ipTo4 :: "bytes \<Rightarrow> bytes option" where
  "ipTo4 ip =
     (if length ip = 4 then Some ip
      else if length ip = 16 \<and> take 12 ip = v4InV6Prefix then Some (drop 12 ip)
      else None)"

definition ipEqual :: "bytes \<Rightarrow> bytes \<Rightarrow> bool" where
  "ipEqual ip x =
     (if length ip = length x then ip = x
      else if length ip = 4 \<and> length x = 16 then take 12 x = v4InV6Prefix \<and> ip = drop 12 x
      else if length ip = 16 \<and> length x = 4 then take 12 ip = v4InV6Prefix \<and> drop 12 ip = x
      else False)"

definition sameNetworkAddress :: "netAddr option \<Rightarrow> netAddr option \<Rightarrow> bool" where
  "sameNetworkAddress left right =
     (case (left, right) of
        (Some l, Some r) \<Rightarrow>
          (case (na_udp l, na_udp r) of
             (Some (lip, lport, lzone), Some (rip, rport, rzone)) \<Rightarrow> lport = rport \<and> lzone = rzone \<and> ipEqual lip rip
           | _ \<Rightarrow> na_network l = na_network r \<and> na_text l = na_text r)
      | (None, None) \<Rightarrow> True
      | _ \<Rightarrow> False)"

lemma ipEqual_sym: "ipEqual ip x \<longleftrightarrow> ipEqual x ip"
  by (auto simp: ipEqual_def)

lemma sameNetworkAddress_refl [simp]: "sameNetworkAddress a a"
  by (auto simp: sameNetworkAddress_def ipEqual_def split: option.splits)

lemma sameNetworkAddress_sym: "sameNetworkAddress a b \<longleftrightarrow> sameNetworkAddress b a"
  by (auto simp: sameNetworkAddress_def ipEqual_sym split: option.splits)

section \<open>Size errors\<close>

abbreviation ErrDatagramTooLarge :: go_error where
  "ErrDatagramTooLarge \<equiv> ErrorString ''dtls13: datagram too large''"

text \<open>The errno \<^verbatim>\<open>syscall.EMSGSIZE\<close>, by its text.\<close>

abbreviation EMSGSIZE :: go_error where
  "EMSGSIZE \<equiv> ErrorString ''message too long''"

definition datagramTooLargeError :: go_error where
  "datagramTooLargeError = NetOpError ErrDatagramTooLarge"

definition isMessageTooLongErrno :: "go_error \<Rightarrow> bool" where
  "isMessageTooLongErrno err = List.member (errors_chain err) EMSGSIZE"

definition isMessageTooLong :: "go_error \<Rightarrow> bool" where
  "isMessageTooLong err = (List.member (errors_chain err) ErrDatagramTooLarge \<or> isMessageTooLongErrno err)"

definition normalizeDatagramWriteError :: "go_error \<Rightarrow> go_error" where
  "normalizeDatagramWriteError err = (if isMessageTooLong err then datagramTooLargeError else err)"

section \<open>The path MTU\<close>

text \<open>
  The configured MTU, the current estimate (zero before its first use) and the local address of the
  transport, \<open>None\<close> when there is no transport.
\<close>

record pathMtu =
  pm_configured :: int
  pm_path :: int
  pm_local :: "netAddr option"

definition currentMTU :: "pathMtu \<Rightarrow> pathMtu \<times> int" where
  "currentMTU p =
     (if pm_path p \<noteq> 0 then (p, pm_path p) else (p\<lparr>pm_path := pm_configured p\<rparr>, pm_configured p))"

definition pathMTUFloor :: "pathMtu \<Rightarrow> int" where
  "pathMTUFloor p =
     (case pm_local p of
        None \<Rightarrow> 256
      | Some addr \<Rightarrow>
          (case na_udp addr of
             None \<Rightarrow> 256
           | Some (ip, _) \<Rightarrow> if ipTo4 ip \<noteq> None then 576 - 20 - 8 else 1280 - 40 - 8))"

definition reducePathMTU :: "pathMtu \<Rightarrow> pathMtu \<times> int \<times> bool" where
  "reducePathMTU p =
     (let (p, current) = currentMTU p; floor = pathMTUFloor p in
      if current \<le> floor then (p, current, False)
      else let upcoming = max (current * 3 div 4) floor in (p\<lparr>pm_path := upcoming\<rparr>, upcoming, True))"

abbreviation mtuOf :: "pathMtu \<Rightarrow> int" where
  "mtuOf p \<equiv> snd (currentMTU p)"

lemma floor_positive: "256 \<le> pathMTUFloor p"
  by (simp add: pathMTUFloor_def split: option.splits)

lemma floor_frame [simp]: "pathMTUFloor (p\<lparr>pm_path := x\<rparr>) = pathMTUFloor p"
  by (simp add: pathMTUFloor_def)

lemma floor_current [simp]: "pathMTUFloor (fst (currentMTU p)) = pathMTUFloor p"
  by (simp add: currentMTU_def)

lemma reducePathMTU_run:
  assumes "reducePathMTU p = (p', mtu, reduced)"
  shows "pathMTUFloor p' = pathMTUFloor p \<and> mtuOf p' = mtu \<and>
    (if reduced then pathMTUFloor p \<le> mtu \<and> mtu < mtuOf p \<and> mtuOf p * 3 div 4 \<le> mtu
     else mtuOf p \<le> pathMTUFloor p \<and> mtu = mtuOf p)"
proof (cases "mtuOf p \<le> pathMTUFloor p")
  case True
  then show ?thesis using assms by (auto simp: reducePathMTU_def currentMTU_def Let_def split: if_splits)
next
  case False
  let ?next = "max (mtuOf p * 3 div 4) (pathMTUFloor p)"
  have n: "256 \<le> ?next" "?next < mtuOf p" using False floor_positive [of p] by auto
  have "reduced \<and> mtu = ?next \<and> p' = (fst (currentMTU p))\<lparr>pm_path := ?next\<rparr>"
    using assms False by (auto simp: reducePathMTU_def Let_def split_beta)
  then show ?thesis using n by (auto simp: currentMTU_def)
qed

section \<open>The retransmission interval\<close>

text \<open>Times and durations in nanoseconds.\<close>

record flightTimer =
  ft_interval :: int
  ft_maxInterval :: int
  ft_retransmitNanos :: int
  ft_lastRTTSample :: int

definition flightInterval :: "flightTimer \<Rightarrow> int \<Rightarrow> flightTimer \<times> int" where
  "flightInterval t now =
     (let current = ft_retransmitNanos t in
      if current \<le> 0 then (t, ft_interval t)
      else if 10 * current \<le> now - ft_lastRTTSample t then (t\<lparr>ft_retransmitNanos := 0\<rparr>, ft_interval t)
      else (t, current))"

definition observeFlightRTT :: "flightTimer \<Rightarrow> flight \<Rightarrow> int \<Rightarrow> flightTimer" where
  "observeFlightRTT t f now =
     (case rttSample f now of
        None \<Rightarrow> t
      | Some sample \<Rightarrow>
          let interval = min (max (sample + sample div 2) 1000000) (ft_maxInterval t) in
          t\<lparr>ft_retransmitNanos := interval, ft_lastRTTSample := now\<rparr>)"

section \<open>Writing a flight\<close>

text \<open>
  The state of a transmission: the path MTU, the ciphers, how many writes were attempted and the
  datagrams the transport accepted so far.
\<close>

record transmitter =
  tx_mtu :: pathMtu
  tx_store :: cipherStore
  tx_attempts :: nat
  tx_sent :: "bytes list"

type_synonym transport = "nat \<Rightarrow> bytes \<Rightarrow> go_error option"
type_synonym clock = "nat \<Rightarrow> int"

fun writeRecords :: "transport \<Rightarrow> transmitter \<Rightarrow> bytes list \<Rightarrow> transmitter \<times> go_error option" where
  "writeRecords send t [] = (t, None)"
| "writeRecords send t (record # records) =
     (case send (tx_attempts t) record of
        Some err \<Rightarrow> (t\<lparr>tx_attempts := tx_attempts t + 1\<rparr>, Some err)
      | None \<Rightarrow> writeRecords send (t\<lparr>tx_attempts := tx_attempts t + 1, tx_sent := tx_sent t @ [record]\<rparr>) records)"

lemma writeRecords_mtu [simp]: "tx_mtu (fst (writeRecords send t records)) = tx_mtu t"
  by (induction send t records rule: writeRecords.induct) (simp_all split: option.splits)

text \<open>One round of \<^verbatim>\<open>writeFlight\<close>, and the loop that reduces the path MTU when a datagram is too long.\<close>

definition writeRound :: "transport \<Rightarrow> clock \<Rightarrow> transmitter \<Rightarrow> flight \<Rightarrow> transmitter \<times> flight \<times> go_error option" where
  "writeRound send clock t f =
     (let (f, records) = nextUnsentWire f;
          f = (if 0 < length records then noteSend f (clock (tx_attempts t)) False else f);
          (t, err) = writeRecords send t records
      in (t, f, err))"

lemma writeRound_mtu [simp]: "tx_mtu (fst (writeRound send clock t f)) = tx_mtu t"
  by (simp add: writeRound_def Let_def split_beta)

lemma reduced_decreases:
  "snd (snd (reducePathMTU p)) \<Longrightarrow>
   pathMTUFloor p < mtuOf p \<and>
   mtuOf (fst (reducePathMTU p)) - pathMTUFloor (fst (reducePathMTU p)) < mtuOf p - pathMTUFloor p"
  using reducePathMTU_run [of p "fst (reducePathMTU p)" "fst (snd (reducePathMTU p))" True] by (cases "reducePathMTU p") auto

function writeFlight :: "transport \<Rightarrow> clock \<Rightarrow> transmitter \<Rightarrow> flight \<Rightarrow> transmitter \<times> flight \<times> unit result" where
  "writeFlight send clock t f =
     (let (t, f, err) = writeRound send clock t f in
      case err of
        None \<Rightarrow> (t, f, Inr ())
      | Some e \<Rightarrow>
          if \<not> isMessageTooLong e then (t, f, Inl e)
          else
            let (p, mtu, reduced) = reducePathMTU (tx_mtu t); t = t\<lparr>tx_mtu := p\<rparr> in
            if \<not> reduced then (t, f, Inl (normalizeDatagramWriteError e))
            else
              (case resizeFlight (Some f) mtu (tx_store t) of
                 (g, store, Inl err) \<Rightarrow> (t\<lparr>tx_store := store\<rparr>, (case g of Some g \<Rightarrow> g | None \<Rightarrow> f), Inl err)
               | (g, store, Inr _) \<Rightarrow> writeFlight send clock (t\<lparr>tx_store := store\<rparr>) ((case g of Some g \<Rightarrow> g | None \<Rightarrow> f))))"
  by pat_completeness auto

termination
  by (relation "measure (\<lambda>(send, clock, t, f). nat (mtuOf (tx_mtu t) - pathMTUFloor (tx_mtu t)))")
    (auto dest!: reduced_decreases simp: prod_eq_iff)

declare writeFlight.simps [simp del]

definition retransmitFlight :: "transport \<Rightarrow> clock \<Rightarrow> transmitter \<Rightarrow> flight \<Rightarrow> transmitter \<times> flight \<times> unit result" where
  "retransmitFlight send clock t f =
     (let records = retransmitWire f 10;
          f = (if 0 < length records then noteSend f (clock (tx_attempts t)) True else f);
          (t, err) = writeRecords send t records
      in (t, f, case err of None \<Rightarrow> Inr () | Some e \<Rightarrow> Inl (normalizeDatagramWriteError e)))"

definition retransmitPartialFlight :: "transport \<Rightarrow> clock \<Rightarrow> transmitter \<Rightarrow> flight \<Rightarrow> transmitter \<times> flight \<times> unit result" where
  "retransmitPartialFlight send clock t f =
     (let (f, claimed) = claimPartialRetransmission f in
      if \<not> claimed then writeFlight send clock t f
      else
        let (f, store, res) = refreshPending f (tx_store t); t = t\<lparr>tx_store := store\<rparr> in
        case res of
          Inl err \<Rightarrow> (t, f, Inl err)
        | Inr _ \<Rightarrow>
            (let (t, f, res) = retransmitFlight send clock t f in
             case res of
               Inl err \<Rightarrow> (t, f, Inl err)
             | Inr _ \<Rightarrow> writeFlight send clock t f))"

definition prepareFlightRetransmission :: "transmitter \<Rightarrow> flight \<Rightarrow> nat \<Rightarrow> transmitter \<times> flight \<times> bool result" where
  "prepareFlightRetransmission t f timeoutCount =
     (let (p, mtu, reduced) = (if 0 < timeoutCount \<and> timeoutCount mod 3 = 0 then reducePathMTU (tx_mtu t) else (tx_mtu t, 0, False));
          t = t\<lparr>tx_mtu := p\<rparr>
      in if reduced
           then let (g, store, res) = resizeFlight (Some f) mtu (tx_store t) in
                (t\<lparr>tx_store := store\<rparr>, (case g of Some g \<Rightarrow> g | None \<Rightarrow> f), map_sum id (\<lambda>_. True) res)
         else let (g, store, res) = refreshPending f (tx_store t) in
                (t\<lparr>tx_store := store\<rparr>, g, map_sum id (\<lambda>_. False) res))"

section \<open>Records within the MTU\<close>

definition fits :: "int \<Rightarrow> flight \<Rightarrow> bool" where
  "fits mtu f \<longleftrightarrow> (\<forall>r \<in> set (fl_records f). int (length (fr_wire r)) \<le> mtu)"

lemma protectedFlightRecords_fit:
  "protectedFlightRecords mtu c fs = (c', Inr rs) \<Longrightarrow> r \<in> set rs \<Longrightarrow> int (length (fr_wire r)) \<le> mtu"
  by (induction mtu c fs arbitrary: c' rs rule: protectedFlightRecords.induct)
    (auto simp: Let_def newFlightRecord_def split: prod.splits sum.splits if_splits)

lemma buildProtectedFlight_fits: "buildProtectedFlight messages mtu addr store = (store', Inr f) \<Longrightarrow> fits mtu f"
  by (auto simp: buildProtectedFlight_def Let_def fits_def split: option.splits if_splits sum.splits prod.splits
      dest!: protectedFlightRecords_fit)

lemma plainFlightRecords_fit:
  "plainFlightRecords epoch sequence fs = Inr (rs, n) \<Longrightarrow> \<forall>f \<in> set fs. length (hf_body f) \<le> k \<Longrightarrow>
   r \<in> set rs \<Longrightarrow> length (fr_wire r) \<le> plainRecordHeaderLen + handshakeHeaderLen + k"
proof (induction epoch sequence fs arbitrary: rs n rule: plainFlightRecords.induct)
  case (2 epoch sequence f fs)
  then show ?case
    by (auto simp: Let_def rbind_def newFlightRecord_def allocatePlainRecordWire_def split: sum.splits if_splits)
qed simp

lemma buildPlainFlight_fits:
  assumes "buildPlainFlight messages mtu epoch first = Inr (f, next)"
  shows "fits mtu f"
proof -
  let ?k = "nat (plainMaxFragment mtu)"
  from assms obtain rs count where k: "0 < ?k" and count: "countHandshakeFragments messages ?k = Inr count"
    and rs: "plainFlightRecords epoch first (messageFragments ?k messages) = Inr (rs, next)" "fl_records f = rs"
    by (auto simp: buildPlainFlight_def messageFragments_def rbind_def Let_def not_less split: if_splits sum.splits)
  have "\<forall>x \<in> set (messageFragments ?k messages). length (hf_body x) \<le> ?k"
    using fragment_count_exact [OF k count] by (auto simp: messageFragments_def list_all_iff)
  note fit = plainFlightRecords_fit [OF rs(1) this]
  have "int (plainRecordHeaderLen + handshakeHeaderLen + ?k) \<le> mtu" using k by (simp add: plainMaxFragment_def)
  then show ?thesis unfolding fits_def rs(2) using fit by (metis of_nat_le_iff order_trans)
qed

lemma resizeSource_fits:
  "resizeSource source records mtu store = (source', records', store', Inr ()) \<Longrightarrow> r \<in> set records' \<Longrightarrow> int (length (fr_wire r)) \<le> mtu"
proof (induction source arbitrary: records store source' records' store')
  case (PlainSource messages epoch nextSequence)
  then show ?case using buildPlainFlight_fits by (fastforce simp: fits_def split: prod.splits sum.splits)
next
  case (ProtectedSource messages addr fragments mtu0)
  then show ?case using buildProtectedFlight_fits by (fastforce simp: fits_def split: prod.splits sum.splits)
next
  case (CombinedSource records1 source1 records2 source2)
  then show ?case by (auto simp: Let_def split: prod.splits sum.splits)
qed simp

lemma resizeFlight_fits:
  "resizeFlight (Some f) mtu store = (g, store', Inr ()) \<Longrightarrow> \<exists>f'. g = Some f' \<and> fits mtu f'"
  by (auto simp: resizeFlight_def fits_def split: prod.splits dest: resizeSource_fits)

lemma takeUnsent_wires:
  "set (snd (takeUnsent capacity rs)) \<subseteq> fr_wire ` set rs \<and> fr_wire ` set (fst (takeUnsent capacity rs)) = fr_wire ` set rs"
  by (induction capacity rs rule: takeUnsent.induct) (auto simp: Let_def split_beta)

lemma nextUnsentWire_fits:
  assumes "fits mtu f" and "nextUnsentWire f = (f', records)"
  shows "fits mtu f' \<and> (\<forall>w \<in> set records. int (length w) \<le> mtu)"
proof -
  obtain capacity where e: "fl_records f' = fst (takeUnsent capacity (fl_records f))" "records = snd (takeUnsent capacity (fl_records f))"
    using assms(2) by (auto simp: nextUnsentWire_def Let_def split_beta simp del: if_split)
  note w = takeUnsent_wires [of capacity "fl_records f"]
  have "\<forall>w \<in> fr_wire ` set (fl_records f). int (length w) \<le> mtu" using assms(1) by (auto simp: fits_def)
  moreover have "set records \<subseteq> fr_wire ` set (fl_records f)" "fr_wire ` set (fl_records f') = fr_wire ` set (fl_records f)"
    using w e by simp_all
  ultimately show ?thesis unfolding fits_def by (metis image_eqI subsetD)
qed

section \<open>A path with a limit\<close>

text \<open>The transport over a path that carries datagrams of up to \<open>limit\<close> bytes and reports longer ones.\<close>

definition limitedPath :: "int \<Rightarrow> go_error \<Rightarrow> transport" where
  "limitedPath limit err n datagram = (if limit < int (length datagram) then Some err else None)"

lemma writeRecords_limited:
  assumes "writeRecords (limitedPath limit err) t records = (t', res)"
  shows "\<exists>new. tx_sent t' = tx_sent t @ new \<and> (\<forall>w \<in> set new. int (length w) \<le> limit) \<and>
    (case res of None \<Rightarrow> new = records | Some e \<Rightarrow> e = err \<and> (\<exists>w \<in> set records. limit < int (length w)))"
  using assms
proof (induction "limitedPath limit err" t records rule: writeRecords.induct)
  case (2 t w records)
  show ?case
  proof (cases "limit < int (length w)")
    case True
    with 2(2) show ?thesis by (auto simp: limitedPath_def)
  next
    case False
    then have n: "limitedPath limit err (tx_attempts t) w = None" by (simp add: limitedPath_def)
    with 2(2) have run: "writeRecords (limitedPath limit err) (t\<lparr>tx_attempts := tx_attempts t + 1, tx_sent := tx_sent t @ [w]\<rparr>) records = (t', res)"
      by simp
    from 2(1) [OF n run] obtain new where "tx_sent t' = tx_sent t @ w # new" "\<forall>v \<in> set new. int (length v) \<le> limit"
      "case res of None \<Rightarrow> new = records | Some e \<Rightarrow> e = err \<and> (\<exists>v \<in> set records. limit < int (length v))" by auto
    with False show ?thesis by (intro exI [of _ "w # new"]) (auto split: option.splits)
  qed
qed simp

lemma writeRecords_store [simp]: "tx_store (fst (writeRecords send t records)) = tx_store t"
  by (induction send t records rule: writeRecords.induct) (simp_all split: option.splits)

lemma noteSend_fits [simp]: "fits mtu (noteSend f now retransmission) = fits mtu f"
  by (simp add: noteSend_def fits_def Let_def)

lemma writeRound_limited:
  assumes "fits mtu f" and "writeRound (limitedPath limit err) clock t f = (t', f', res)"
  shows "fits mtu f' \<and> tx_mtu t' = tx_mtu t \<and>
    (\<exists>new. tx_sent t' = tx_sent t @ new \<and> (\<forall>w \<in> set new. int (length w) \<le> limit)) \<and>
    (case res of None \<Rightarrow> True | Some e \<Rightarrow> e = err \<and> limit < mtu)"
proof -
  obtain g records where g: "nextUnsentWire f = (g, records)" by fastforce
  have w: "writeRecords (limitedPath limit err) t records = (t', res)" "f' = (if 0 < length records then noteSend g (clock (tx_attempts t)) False else g)"
    using assms(2) g by (auto simp: writeRound_def Let_def split: prod.splits)
  have "tx_mtu t' = tx_mtu t" using w(1) writeRecords_mtu [of "limitedPath limit err" t records] by simp
  moreover have "fits mtu f'" using w(2) nextUnsentWire_fits [OF assms(1) g] by simp
  ultimately show ?thesis
    using writeRecords_limited [OF w(1)] nextUnsentWire_fits [OF assms(1) g] by (fastforce split: option.splits)
qed

text \<open>How far a transmission may lower the path MTU.\<close>

definition mtuBound :: "int \<Rightarrow> pathMtu \<Rightarrow> int" where
  "mtuBound limit p = min (mtuOf p) (max (pathMTUFloor p) (limit * 3 div 4))"

lemma reduced_bound:
  assumes "reducePathMTU p = (p', mtu, True)" and "limit < mtuOf p"
  shows "mtuBound limit p \<le> mtuBound limit p' \<and> mtuOf p' \<le> mtuOf p \<and> pathMTUFloor p' = pathMTUFloor p"
  using reducePathMTU_run [OF assms(1)] assms(2) by (auto simp: mtuBound_def)

text \<open>
  Refragmenting a flight never reports the size error of a transport, provided that the sequence number
  masks of the ciphers, which are a parameter, do not.
\<close>

definition quiet :: "'a result \<Rightarrow> bool" where
  "quiet res \<longleftrightarrow> (case res of Inl e \<Rightarrow> \<not> isMessageTooLong e | Inr _ \<Rightarrow> True)"

definition quietMask :: "recordCipher \<Rightarrow> bool" where
  "quietMask c \<longleftrightarrow> (\<forall>sample. quiet (rc_sequenceMask c sample))"

definition quietStore :: "cipherStore \<Rightarrow> bool" where
  "quietStore store \<longleftrightarrow> (\<forall>addr. quietMask (store addr))"

lemma quiet_simps [simp]: "quiet (Inr x)" "quiet (Inl e) \<longleftrightarrow> \<not> isMessageTooLong e"
  by (simp_all add: quiet_def)

lemma protocol_quiet [simp]:
  "\<not> isMessageTooLong (ProtocolError text)" "\<not> isMessageTooLong (ConfigError text)"
  "\<not> isMessageTooLong (alertError description (ProtocolError text))"
  "\<not> isMessageTooLong (ErrorString ''dtls13: ciphertext too short for sequence protection'')"
  by (simp_all add: isMessageTooLong_def isMessageTooLongErrno_def alertError_def)

lemma quiet_rbind: "quiet m \<Longrightarrow> (\<And>x. m = Inr x \<Longrightarrow> quiet (f x)) \<Longrightarrow> quiet (rbind m f)"
  by (cases m) simp_all

lemma countHandshakeFragments_quiet: "quiet (countHandshakeFragments messages n)"
proof -
  have "quiet (countFragmentsFrom tot messages n)" for tot
    by (induction tot messages n rule: countFragmentsFrom.induct) (simp_all add: Let_def)
  then show ?thesis by (simp add: countHandshakeFragments_def)
qed

lemma plainFlightRecords_quiet: "quiet (plainFlightRecords epoch sequence fragments)"
proof (induction epoch sequence fragments rule: plainFlightRecords.induct)
  case 2: (2 epoch sequence fragment fragments)
  show ?case unfolding plainFlightRecords.simps Let_def
    by (intro quiet_rbind)
      (use 2 in \<open>auto simp: allocatePlainRecordWire_def marshalHandshakeFragmentInto_def validateHandshakeFragment_def rbind_def\<close>)
qed simp

lemma buildPlainFlight_quiet: "quiet (buildPlainFlight messages mtu epoch sequence)"
  by (auto simp: buildPlainFlight_def Let_def intro!: quiet_rbind countHandshakeFragments_quiet plainFlightRecords_quiet)

lemma sealHandshakeFragmentInto_quiet:
  assumes "quietMask c" and "sealHandshakeFragmentInto c fragment = (c', res)"
  shows "quietMask c' \<and> quiet res"
proof -
  have mask: "rc_sequenceMask c sample = Inl e \<Longrightarrow> \<not> isMessageTooLong e" for sample e
    using assms(1) unfolding quietMask_def by (metis quiet_simps(2))
  have "rc_sequenceMask c' = rc_sequenceMask c \<and> quiet res"
    using assms(2) mask
    by (auto simp: sealHandshakeFragmentInto_def sealWithHeader_def validateHandshakeFragment_def Let_def
        split: if_splits sum.splits)
  then show ?thesis using assms(1) by (simp add: quietMask_def)
qed

lemma protectedFlightRecords_quiet:
  "quietMask c \<Longrightarrow> protectedFlightRecords mtu c fragments = (c', res) \<Longrightarrow> quietMask c' \<and> quiet res"
proof (induction mtu c fragments arbitrary: c' res rule: protectedFlightRecords.induct)
  case 2: (2 mtu c fragment fragments)
  obtain c1 out where s: "sealHandshakeFragmentInto c fragment = (c1, out)" by (rule prod.exhaust)
  have q: "quietMask c1" "quiet out" using sealHandshakeFragmentInto_quiet [OF 2(2) s] by simp_all
  show ?case
  proof (cases out)
    case (Inr wire)
    obtain c2 rest where r: "protectedFlightRecords mtu c1 fragments = (c2, rest)" by (rule prod.exhaust)
    show ?thesis
    proof (cases "mtu < int (length wire)")
      case False
      then have "quietMask c2 \<and> quiet rest" using 2(1) [OF refl s [symmetric] Inr False q(1) r] by simp
      then show ?thesis using 2(3) s Inr False r by (cases rest) auto
    qed (use 2(3) s Inr q in auto)
  qed (use 2(3) s q in auto)
qed simp

lemma buildProtectedFlight_quiet:
  assumes "quietStore store" and "buildProtectedFlight messages mtu addr store = (store', res)"
  shows "quietStore store' \<and> quiet res"
proof (cases addr)
  case (Some a)
  have c: "quietMask (store a)" using assms(1) by (simp add: quietStore_def)
  have n: "countHandshakeFragments messages k = Inl e \<Longrightarrow> \<not> isMessageTooLong e" for k e
    using countHandshakeFragments_quiet [of messages k] by simp
  show ?thesis
    using assms Some n protectedFlightRecords_quiet [OF c]
    by (fastforce simp: buildProtectedFlight_def quietStore_def Let_def split: if_splits sum.splits prod.splits)
qed (use assms in \<open>auto simp: buildProtectedFlight_def\<close>)

lemma resizeSource_quiet:
  "quietStore store \<Longrightarrow> resizeSource source records mtu store = (source', records', store', res) \<Longrightarrow> quietStore store' \<and> quiet res"
proof (induction source arbitrary: records store source' records' store' res)
  case (PlainSource messages epoch sequence)
  then show ?case using buildPlainFlight_quiet [of messages mtu epoch "nextRecordSequence records"] by (auto split: sum.splits)
next
  case (ProtectedSource messages addr fragments mtu0)
  obtain store1 out where b: "buildProtectedFlight messages mtu (Some addr) store = (store1, out)" by (rule prod.exhaust)
  then show ?case using ProtectedSource(2) buildProtectedFlight_quiet [OF ProtectedSource(1) b] by (auto split: sum.splits)
next
  case (CombinedSource records1 source1 records2 source2)
  obtain s1 first store1 res1 where r1: "resizeSource source1 records1 mtu store = (s1, first, store1, res1)" by (rule prod_cases4)
  obtain s2 second store2 res2 where r2: "resizeSource source2 records2 mtu store1 = (s2, second, store2, res2)" by (rule prod_cases4)
  have q1: "quietStore store1 \<and> quiet res1" using CombinedSource(1) [OF CombinedSource(3) r1] .
  then have "quietStore store2 \<and> quiet res2" using CombinedSource(2) [OF _ r2] by simp
  then show ?case using CombinedSource(4) q1 r1 r2 by (auto split: sum.splits)
qed auto

lemma resizeFlight_quiet:
  "quietStore store \<Longrightarrow> resizeFlight (Some f) mtu store = (g, store', res) \<Longrightarrow> quietStore store' \<and> quiet res"
  using resizeSource_quiet by (fastforce simp: resizeFlight_def split: prod.splits)

lemma writeRound_store: "writeRound send clock t f = (t', f', e) \<Longrightarrow> tx_store t' = tx_store t"
  using writeRecords_store by (auto simp: writeRound_def Let_def split: prod.splits) (metis fst_conv writeRecords_store)+

lemma writeFlight_limited:
  assumes "isMessageTooLong err"
  shows "pathMTUFloor (tx_mtu t) \<le> limit \<Longrightarrow> fits (mtuOf (tx_mtu t)) f \<Longrightarrow> quietStore (tx_store t) \<Longrightarrow>
    writeFlight (limitedPath limit err) clock t f = (t', f', res) \<Longrightarrow>
    quiet res \<and>
    (\<exists>new. tx_sent t' = tx_sent t @ new \<and> (\<forall>w \<in> set new. int (length w) \<le> limit)) \<and>
    mtuBound limit (tx_mtu t) \<le> mtuOf (tx_mtu t') \<and> mtuOf (tx_mtu t') \<le> mtuOf (tx_mtu t)"
proof (induction "nat (mtuOf (tx_mtu t) - pathMTUFloor (tx_mtu t))" arbitrary: t f rule: less_induct)
  case 1: less
  obtain t1 f1 e1 where r: "writeRound (limitedPath limit err) clock t f = (t1, f1, e1)" by (rule prod_cases3)
  note round = writeRound_limited [OF 1(3) r]
  show ?case
  proof (cases e1)
    case None
    then have "t' = t1" "f' = f1" "res = Inr ()" using 1(5) r by (simp_all add: writeFlight.simps [of _ clock t f])
    then show ?thesis using round by (auto simp: mtuBound_def)
  next
    case (Some e)
    then have e: "isMessageTooLong e" "limit < mtuOf (tx_mtu t)" "tx_mtu t1 = tx_mtu t" using round assms by auto
    obtain p mtu reduced where p: "reducePathMTU (tx_mtu t) = (p, mtu, reduced)" by (rule prod_cases3)
    then have red: "reduced" using reducePathMTU_run [OF p] 1(2) e(2) by (cases reduced) auto
    note bound = reduced_bound [OF p [unfolded eqTrueI [OF red]] e(2)]
    obtain g store out where z: "resizeFlight (Some f1) mtu (tx_store t1) = (g, store, out)" by (rule prod_cases3)
    show ?thesis
    proof (cases out)
      case (Inl x)
      then have "res = Inl x" "tx_sent t' = tx_sent t1" "tx_mtu t' = p"
        using 1(5) r Some e p red z by (auto simp: writeFlight.simps [of _ clock t f])
      moreover have "quiet (Inl x :: unit result)" using resizeFlight_quiet [OF _ z] 1(4) writeRound_store [OF r] Inl by simp
      ultimately show ?thesis using round bound by (auto simp: mtuBound_def)
    next
      case (Inr u)
      then obtain h where h: "g = Some h" "fits mtu h" using resizeFlight_fits [of f1 mtu "tx_store t1" g store] z by auto
      let ?t = "t1\<lparr>tx_mtu := p, tx_store := store\<rparr>"
      have run: "writeFlight (limitedPath limit err) clock ?t h = (t', f', res)"
        using 1(5) r Some e p red z Inr h by (simp add: writeFlight.simps [of _ clock t f])
      have m: "mtuOf p = mtu" using reducePathMTU_run [OF p] by simp
      have "quietStore store" using resizeFlight_quiet [OF _ z] 1(4) writeRound_store [OF r] by simp
      then have "pathMTUFloor (tx_mtu ?t) \<le> limit" "fits (mtuOf (tx_mtu ?t)) h" "quietStore (tx_store ?t)"
        using 1(2) bound h m by simp_all
      moreover have "nat (mtuOf (tx_mtu ?t) - pathMTUFloor (tx_mtu ?t)) < nat (mtuOf (tx_mtu t) - pathMTUFloor (tx_mtu t))"
        using reduced_decreases [of "tx_mtu t"] p red by simp
      ultimately show ?thesis using 1(1) [of ?t h, OF _ _ _ _ run] round bound by fastforce
    qed
  qed
qed

section \<open>Properties\<close>


definition sampleTransmitter :: transmitter where
  "sampleTransmitter =
     \<lparr>tx_mtu = \<lparr>pm_configured = 1200, pm_path = 0, pm_local = None\<rparr>, tx_store = (\<lambda>_. sampleCipher), tx_attempts = 0, tx_sent = []\<rparr>"

definition longFlight :: flight where
  "longFlight =
     (case buildPlainFlight [\<lparr>hm_typ = 1, hm_sequence = 0, hm_body = replicate 1000 7\<rparr>] 1200 0 0 of Inr (f, _) \<Rightarrow> f | Inl _ \<Rightarrow> undefined)"

lemma longFlight_built: "\<exists>n. buildPlainFlight [\<lparr>hm_typ = 1, hm_sequence = 0, hm_body = replicate 1000 7\<rparr>] 1200 0 0 = Inr (longFlight, n)"
proof -
  have "\<exists>p. buildPlainFlight [\<lparr>hm_typ = 1, hm_sequence = 0, hm_body = replicate 1000 7\<rparr>] 1200 0 0 = Inr p"
    by (simp add: buildPlainFlight_def plainMaxFragment_def countHandshakeFragments_def
        fragmentHandshakeMessageInto_def fragmentFrom.simps slice_def rbind_def Let_def allocatePlainRecordWire_def
        validPlainContentType_def marshalHandshakeFragmentInto_def validateHandshakeFragment_def putUint16_def putUint48_def word_le_nat_alt)
  then show ?thesis unfolding longFlight_def by auto
qed


end
