(* ===== verification/Connection_ID.thy ===== *)
theory Connection_ID
  imports Path_Mtu Key_Update Hello_Extensions
begin

text \<open>
  \<^verbatim>\<open>src/connection_id.go\<close>: the NewConnectionId and RequestConnectionId messages, advertising new
  connection IDs to the peer, accepting the peer's and switching between them. The transport, the
  registration of connection IDs with a listener and the \<^verbatim>\<open>GetConnectionID\<close> callback are parameters. The
  background retransmission of the two flights and the processing of their acknowledgements are not
  part of this theory.
\<close>

section \<open>Messages\<close>

abbreviation handshakeTypeRequestConnectionID :: u8 where "handshakeTypeRequestConnectionID \<equiv> 9"
abbreviation handshakeTypeNewConnectionID :: u8 where "handshakeTypeNewConnectionID \<equiv> 10"
abbreviation connectionIDImmediate :: u8 where "connectionIDImmediate \<equiv> 0"
abbreviation connectionIDSpare :: u8 where "connectionIDSpare \<equiv> 1"

record newConnectionIDMessage =
  nc_connectionIDs :: "bytes list"
  nc_usage :: u8

fun cidsLength :: "nat \<Rightarrow> bytes list \<Rightarrow> nat result" where
  "cidsLength encodedLength [] = Inr encodedLength"
| "cidsLength encodedLength (cid # cids) =
     (if 255 < length cid then Inl (ProtocolError ''8-bit vector overflow'')
      else if 65535 - 1 - int (length cid) < int encodedLength then Inl (ProtocolError ''16-bit vector overflow'')
      else cidsLength (encodedLength + (1 + length cid)) cids)"

definition marshalNewConnectionID :: "newConnectionIDMessage \<Rightarrow> bytes result" where
  "marshalNewConnectionID m =
     (if connectionIDSpare < nc_usage m then Inl (ProtocolError ''invalid NewConnectionId usage'')
      else if nc_usage m = connectionIDImmediate \<and> length (nc_connectionIDs m) = 0
        then Inl (ProtocolError ''immediate NewConnectionId has no connection IDs'')
      else
        rbind (cidsLength 0 (nc_connectionIDs m)) (\<lambda>encodedLength.
          let (start, w) = startVector16 newWireBuilder;
              w = fold (\<lambda>cid w. wbBytes8 w cid) (nc_connectionIDs m) w;
              w = endVector16 w start
          in wbResult (wbU8 w (uint (nc_usage m)))))"

definition cidStep :: "wireParser \<Rightarrow> bytes list \<Rightarrow> (bytes list \<times> wireParser) result" where
  "cidStep q connectionIDs =
     (let (cid, q) = wpBytes8 q in
      case wp_err q of
        Some err \<Rightarrow> Inl err
      | None \<Rightarrow> Inr (connectionIDs @ [cid], q))"

definition parseNewConnectionID :: "bytes \<Rightarrow> newConnectionIDMessage result" where
  "parseNewConnectionID b =
     (let (encoded, p) = wpBytes16 (newWireParser b);
          (n, p) = wpU8 p;
          usage = of_nat n
      in
      rbind (wpDone p) (\<lambda>_.
        if connectionIDSpare < usage then Inl (ProtocolError ''invalid NewConnectionId usage'')
        else
          rbind (wpLoop cidStep (newWireParser encoded) []) (\<lambda>(connectionIDs, q).
            if usage = connectionIDImmediate \<and> length connectionIDs = 0
              then Inl (ProtocolError ''immediate NewConnectionId has no connection IDs'')
            else Inr \<lparr>nc_connectionIDs = connectionIDs, nc_usage = usage\<rparr>)))"

record requestConnectionIDMessage =
  rq_count :: u8

definition marshalRequestConnectionID :: "requestConnectionIDMessage \<Rightarrow> bytes" where
  "marshalRequestConnectionID m = [rq_count m]"

definition parseRequestConnectionID :: "bytes \<Rightarrow> requestConnectionIDMessage result" where
  "parseRequestConnectionID b =
     (if length b \<noteq> 1 then Inl (alertError alertDecodeError (ProtocolError ''invalid RequestConnectionId length''))
      else Inr \<lparr>rq_count = b ! 0\<rparr>)"

section \<open>The connection\<close>

text \<open>The fields of \<^verbatim>\<open>Conn\<close> that connection IDs add to the traffic states, with the transmission state.\<close>

record cidConn = conn +
  cc_maxConnectionIDs :: int
  cc_localCIDUpdatesAllowed :: bool
  cc_peerCIDUpdatesAllowed :: bool
  cc_localConnectionID :: bytes
  cc_peerConnectionID :: bytes
  cc_peerSpareConnectionIDs :: "bytes list"
  cc_lastNewCIDSequence :: u16
  cc_hasNewCIDSequence :: bool
  cc_lastRequestCIDSequence :: u16
  cc_hasRequestCIDSequence :: bool
  cc_connectionIDRequestOpen :: bool
  cc_newConnectionIDFlight :: "flight option"
  cc_requestCIDFlight :: "flight option"
  cc_tx :: transmitter

abbreviation awaiting :: "flight option \<Rightarrow> bool" where
  "awaiting f \<equiv> (case f of None \<Rightarrow> False | Some f \<Rightarrow> \<not> flightComplete f)"

text \<open>
  A flight refers to the sending cipher by address, so the cipher is placed at address zero for the time
  of a transmission and taken back afterwards.
\<close>

definition sendBuild ::
  "'a cidConn_scheme \<Rightarrow> sendingTraffic \<Rightarrow> handshakeMessage \<Rightarrow> 'a cidConn_scheme \<times> sendingTraffic \<times> flight result" where
  "sendBuild c s message =
     (let (p, mtu) = currentMTU (tx_mtu (cc_tx c));
          c = c\<lparr>cc_tx := (cc_tx c)\<lparr>tx_mtu := p\<rparr>\<rparr>
      in case st_cipher s of
           None \<Rightarrow> (c, s, snd (buildProtectedFlight [message] mtu None (tx_store (cc_tx c))))
         | Some cipher \<Rightarrow>
             (let (store, res) = buildProtectedFlight [message] mtu (Some 0) (\<lambda>_. cipher);
                  s = s\<lparr>st_cipher := Some (store 0)\<rparr>
              in (c\<lparr>co_sendingTraffic := Some s\<rparr>, s, res)))"

definition sendFlight ::
  "transport \<Rightarrow> clock \<Rightarrow> 'a cidConn_scheme \<Rightarrow> sendingTraffic \<Rightarrow> flight \<Rightarrow> 'a cidConn_scheme \<times> sendingTraffic \<times> flight \<times> unit result" where
  "sendFlight send clock c s f =
     (case st_cipher s of
        None \<Rightarrow> (c, s, f, Inl nilPointer)
      | Some cipher \<Rightarrow>
          (let (t, f, res) = writeFlight send clock ((cc_tx c)\<lparr>tx_store := (\<lambda>_. cipher)\<rparr>) f;
               s = s\<lparr>st_cipher := Some (tx_store t 0)\<rparr>
           in (c\<lparr>cc_tx := t, co_sendingTraffic := Some s\<rparr>, s, f, res)))"

section \<open>Advertising connection IDs\<close>

definition connectionIDDifference :: "bytes list \<Rightarrow> bytes list \<Rightarrow> bytes list" where
  "connectionIDDifference connectionIDs existing = filter (\<lambda>cid. \<not> List.member existing cid) connectionIDs"

definition advertiseChecks :: "'a cidConn_scheme \<Rightarrow> bytes list \<Rightarrow> (sendingTraffic \<times> receivingTraffic \<times> bytes list) result" where
  "advertiseChecks c connectionIDs =
     (if \<not> co_connectionIDNegotiated c \<or> \<not> cc_localCIDUpdatesAllowed c
        then Inl (ProtocolError ''NewConnectionId is not permitted for this connection'')
      else if awaiting (cc_newConnectionIDFlight c)
        then Inl (ErrorString ''dtls13: NewConnectionId is already awaiting acknowledgement'')
      else case (co_receivingTraffic c, co_sendingTraffic c) of
        (Some r, Some s) \<Rightarrow>
          rbind (canAllocateMessageSequences s 1) (\<lambda>_.
          rbind (mergeConnectionIDs (rt_acceptedCIDs r) connectionIDs) (\<lambda>merged.
            if cc_maxConnectionIDs c < int (length merged) then Inl (ConfigError ''NewConnectionId exceeds MaxConnectionIDs'')
            else Inr (s, r, merged)))
      | _ \<Rightarrow> Inl (ProtocolError ''application traffic state is not installed''))"

text \<open>
  \<open>registrar\<close> is the registration of connection IDs the transport offers, if it does; a refusal is
  \<open>Some err\<close>. On every failure after the identifiers were added they are taken back.
\<close>

definition advertise ::
  "(bytes list \<Rightarrow> go_error option) option \<Rightarrow> transport \<Rightarrow> clock \<Rightarrow> 'a cidConn_scheme \<Rightarrow> sendingTraffic \<Rightarrow> receivingTraffic \<Rightarrow>
   bytes list \<Rightarrow> bytes list \<Rightarrow> flight \<Rightarrow> 'a cidConn_scheme \<times> unit result" where
  "advertise registrar send clock c s r merged connectionIDs f =
     (let previousCIDs = rt_acceptedCIDs r;
          newCIDs = connectionIDDifference merged previousCIDs;
          (r, added) = addConnectionIDs r connectionIDs;
          c = c\<lparr>co_receivingTraffic := Some r\<rparr>
      in case added of
           Inl err \<Rightarrow> (c, Inl err)
         | Inr _ \<Rightarrow>
             (case Option.bind registrar (\<lambda>register. register newCIDs) of
                Some err \<Rightarrow> (c\<lparr>co_receivingTraffic := Some (restoreConnectionIDs r previousCIDs)\<rparr>, Inl err)
              | None \<Rightarrow>
                  (let (c, s, f, res) = sendFlight send clock c s f in
                   case res of
                     Inl err \<Rightarrow> (c\<lparr>co_receivingTraffic := Some (restoreConnectionIDs r previousCIDs)\<rparr>, Inl err)
                   | Inr _ \<Rightarrow>
                       (c\<lparr>co_sendingTraffic := Some (commitMessageSequences s 1), cc_newConnectionIDFlight := Some f\<rparr>, Inr ()))))"

definition sendNewConnectionIDs ::
  "(bytes list \<Rightarrow> go_error option) option \<Rightarrow> transport \<Rightarrow> clock \<Rightarrow> unit result \<Rightarrow> 'a cidConn_scheme \<Rightarrow> bytes list \<Rightarrow> bool \<Rightarrow>
   'a cidConn_scheme \<times> unit result" where
  "sendNewConnectionIDs registrar send clock handshake c connectionIDs immediate =
     (case rbind handshake (\<lambda>_.
          rbind (marshalNewConnectionID \<lparr>nc_connectionIDs = connectionIDs,
                   nc_usage = (if immediate then connectionIDImmediate else connectionIDSpare)\<rparr>) (\<lambda>body.
          rbind (advertiseChecks c connectionIDs) (\<lambda>checked. Inr (body, checked)))) of
        Inl err \<Rightarrow> (c, Inl err)
      | Inr (body, s, r, merged) \<Rightarrow>
          (case sendBuild c s \<lparr>hm_typ = handshakeTypeNewConnectionID, hm_sequence = st_messageSequence s, hm_body = body\<rparr> of
             (c, s, Inl err) \<Rightarrow> (c, Inl err)
           | (c, s, Inr f) \<Rightarrow> advertise registrar send clock c s r merged connectionIDs f))"

definition requestConnectionIDs :: "transport \<Rightarrow> clock \<Rightarrow> unit result \<Rightarrow> 'a cidConn_scheme \<Rightarrow> u8 \<Rightarrow> 'a cidConn_scheme \<times> unit result" where
  "requestConnectionIDs send clock handshake c requestedCount =
     (case rbind handshake (\<lambda>_.
          if \<not> co_connectionIDNegotiated c \<or> length (co_sendConnectionID c) = 0
            then Inl (ProtocolError ''RequestConnectionId cannot be sent with an empty connection ID'')
          else if cc_connectionIDRequestOpen c then Inl (ErrorString ''dtls13: RequestConnectionId is still unfulfilled'')
          else if awaiting (cc_requestCIDFlight c)
            then Inl (ErrorString ''dtls13: RequestConnectionId is already awaiting acknowledgement'')
          else case co_sendingTraffic c of
            None \<Rightarrow> Inl (ProtocolError ''application traffic state is not installed'')
          | Some s \<Rightarrow> rbind (canAllocateMessageSequences s 1) (\<lambda>_. Inr s)) of
        Inl err \<Rightarrow> (c, Inl err)
      | Inr s \<Rightarrow>
          (case sendBuild c s \<lparr>hm_typ = handshakeTypeRequestConnectionID, hm_sequence = st_messageSequence s,
                                hm_body = marshalRequestConnectionID \<lparr>rq_count = requestedCount\<rparr>\<rparr> of
             (c, s, Inl err) \<Rightarrow> (c, Inl err)
           | (c, s, Inr f) \<Rightarrow>
               (case sendFlight send clock c s f of
                  (c, s, f, Inl err) \<Rightarrow> (c, Inl err)
                | (c, s, f, Inr _) \<Rightarrow>
                    (c\<lparr>co_sendingTraffic := Some (commitMessageSequences s 1), cc_requestCIDFlight := Some f,
                       cc_connectionIDRequestOpen := True\<rparr>, Inr ()))))"

section \<open>The peer's connection IDs\<close>

definition activatePeerConnectionIDLocked :: "'a cidConn_scheme \<Rightarrow> bytes \<Rightarrow> 'a cidConn_scheme \<times> unit result" where
  "activatePeerConnectionIDLocked c cid =
     (case co_sendingTraffic c of
        None \<Rightarrow> (c, Inl (ProtocolError ''application traffic state is not installed''))
      | Some s \<Rightarrow>
          (case sendingSetConnectionID s cid of
             (s, Inl err) \<Rightarrow> (c\<lparr>co_sendingTraffic := Some s\<rparr>, Inl err)
           | (s, Inr _) \<Rightarrow>
               (c\<lparr>co_sendingTraffic := Some s, co_sendConnectionID := cid, cc_peerConnectionID := cid\<rparr>, Inr ())))"

definition useNextConnectionID :: "unit result \<Rightarrow> 'a cidConn_scheme \<Rightarrow> 'a cidConn_scheme \<times> unit result" where
  "useNextConnectionID handshake c =
     (case handshake of
        Inl err \<Rightarrow> (c, Inl err)
      | Inr _ \<Rightarrow>
          (case cc_peerSpareConnectionIDs c of
             [] \<Rightarrow> (c, Inl (ErrorString ''dtls13: peer has not provided a spare connection ID''))
           | cid # spares \<Rightarrow> activatePeerConnectionIDLocked (c\<lparr>cc_peerSpareConnectionIDs := spares\<rparr>) cid))"

definition addPeerSpare :: "int \<Rightarrow> bytes \<Rightarrow> bytes \<Rightarrow> bytes list \<Rightarrow> bytes list" where
  "addPeerSpare maxConnectionIDs active cid spares =
     (if cid \<noteq> active \<and> \<not> List.member spares cid \<and> 1 + int (length spares) < maxConnectionIDs then spares @ [cid] else spares)"

definition processNewConnectionID :: "'a cidConn_scheme \<Rightarrow> u16 \<Rightarrow> bytes \<Rightarrow> 'a cidConn_scheme \<times> unit result" where
  "processNewConnectionID c sequence body =
     (case parseNewConnectionID body of
        Inl err \<Rightarrow> (c, Inl err)
      | Inr message \<Rightarrow>
          if \<not> co_connectionIDNegotiated c \<or> \<not> cc_peerCIDUpdatesAllowed c
            then (c, Inl (alertError alertUnexpectedMessage (ProtocolError ''unexpected NewConnectionId'')))
          else if cc_hasNewCIDSequence c \<and> sequence \<le> cc_lastNewCIDSequence c then (c, Inr ())
          else case mergeConnectionIDs (co_sendConnectionID c # cc_peerSpareConnectionIDs c) (nc_connectionIDs message) of
            Inl mergeErr \<Rightarrow> (c, Inl (alertError alertIllegalParameter mergeErr))
          | Inr _ \<Rightarrow>
              (let c = c\<lparr>cc_lastNewCIDSequence := sequence, cc_hasNewCIDSequence := True, cc_connectionIDRequestOpen := False,
                         cc_peerSpareConnectionIDs := fold (addPeerSpare (cc_maxConnectionIDs c) (co_sendConnectionID c))
                           (nc_connectionIDs message) (cc_peerSpareConnectionIDs c)\<rparr>
               in if nc_usage message \<noteq> connectionIDImmediate then (c, Inr ())
                  else case nc_connectionIDs message of
                    [] \<Rightarrow> (c, Inl (Panic ''index out of range''))
                  | cid # _ \<Rightarrow>
                      activatePeerConnectionIDLocked
                        (c\<lparr>cc_peerSpareConnectionIDs := remove1 cid (cc_peerSpareConnectionIDs c)\<rparr>) cid))"

definition processRequestConnectionID :: "'a cidConn_scheme \<Rightarrow> u16 \<Rightarrow> bytes \<Rightarrow> 'a cidConn_scheme \<times> (u8 \<times> bool) result" where
  "processRequestConnectionID c sequence body =
     (case parseRequestConnectionID body of
        Inl err \<Rightarrow> (c, Inl err)
      | Inr message \<Rightarrow>
          if \<not> co_connectionIDNegotiated c \<or> length (cc_localConnectionID c) = 0
            then (c, Inl (alertError alertUnexpectedMessage (ProtocolError ''unexpected RequestConnectionId'')))
          else if cc_hasRequestCIDSequence c \<and> sequence \<le> cc_lastRequestCIDSequence c then (c, Inr (rq_count message, False))
          else (c\<lparr>cc_lastRequestCIDSequence := sequence, cc_hasRequestCIDSequence := True\<rparr>, Inr (rq_count message, True)))"

fun generateCIDs :: "(nat \<Rightarrow> bytes result) \<Rightarrow> nat \<Rightarrow> nat \<Rightarrow> bytes list" where
  "generateCIDs getConnectionID i 0 = []"
| "generateCIDs getConnectionID i (Suc requested) =
     (case getConnectionID i of
        Inl err \<Rightarrow> []
      | Inr cid \<Rightarrow> cid # generateCIDs getConnectionID (i + 1) requested)"

definition respondToConnectionIDRequest ::
  "(nat \<Rightarrow> bytes result) option \<Rightarrow> (bytes list \<Rightarrow> go_error option) option \<Rightarrow> transport \<Rightarrow> clock \<Rightarrow> unit result \<Rightarrow>
   'a cidConn_scheme \<Rightarrow> u8 \<Rightarrow> 'a cidConn_scheme" where
  "respondToConnectionIDRequest getConnectionID registrar send clock handshake c requestedCount =
     (let available = cc_maxConnectionIDs c -
            (case co_receivingTraffic c of None \<Rightarrow> 0 | Some r \<Rightarrow> int (length (rt_acceptedCIDs r)));
          available = (if available < 0 then 0 else available);
          requested = min (unat requestedCount) (nat available);
          connectionIDs = (case getConnectionID of None \<Rightarrow> [] | Some get \<Rightarrow> generateCIDs get 0 requested)
      in fst (sendNewConnectionIDs registrar send clock handshake c connectionIDs False))"

section \<open>The codecs\<close>

definition cidList :: "bytes list \<Rightarrow> bytes" where
  "cidList cids = concat (map alpnBytes cids)"

definition newCID_ok :: "newConnectionIDMessage \<Rightarrow> bool" where
  "newCID_ok m \<longleftrightarrow>
     nc_usage m \<le> 1 \<and> \<not> (nc_usage m = 0 \<and> nc_connectionIDs m = []) \<and>
     (\<forall>cid \<in> set (nc_connectionIDs m). length cid \<le> 255) \<and> length (cidList (nc_connectionIDs m)) \<le> 65535"

lemma cidsLength_iff:
  "n \<le> 65535 \<Longrightarrow> cidsLength n cids = Inr m \<longleftrightarrow>
     (\<forall>cid \<in> set cids. length cid \<le> 255) \<and> m = n + length (cidList cids) \<and> m \<le> 65535"
  by (induction n cids rule: cidsLength.induct) (auto simp: cidList_def)

lemma marshalNewConnectionID_iff:
  "marshalNewConnectionID m = Inr b \<longleftrightarrow>
     newCID_ok m \<and> b = putUint16 (of_nat (length (cidList (nc_connectionIDs m)))) @ cidList (nc_connectionIDs m) @ [nc_usage m]"
proof (cases "newCID_ok m")
  case True
  let ?cids = "nc_connectionIDs m"
  have len: "cidsLength 0 ?cids = Inr (length (cidList ?cids))" using True by (subst cidsLength_iff) (auto simp: newCID_ok_def)
  have "(let (start, w) = startVector16 newWireBuilder; w = fold (\<lambda>cid w. wbBytes8 w cid) ?cids w in endVector16 w start) =
      wbAppend newWireBuilder (putUint16 (of_nat (length (cidList ?cids))) @ cidList ?cids)"
    unfolding cidList_def using True by (intro build_vector16) (auto simp: newCID_ok_def wb_vectors alpnBytes_def cidList_def)
  moreover have "0 \<le> uint (nc_usage m)" "uint (nc_usage m) \<le> 255" using uint_lt2p [of "nc_usage m"] by auto
  ultimately show ?thesis
    using True len by (auto simp: marshalNewConnectionID_def newCID_ok_def Let_def case_prod_unfold wb_numbers wbAppend_append wbResult_append)
next
  case False
  then show ?thesis using cidsLength_iff [of 0 "nc_connectionIDs m"]
    by (auto simp: marshalNewConnectionID_def newCID_ok_def not_less split: if_splits)
qed

lemma cid_loop:
  "rbind (wpLoop cidStep (newWireParser raw) []) (\<lambda>(out, q). f out) = Inr y \<longleftrightarrow>
   (\<exists>cids. raw = cidList cids \<and> (\<forall>cid \<in> set cids. length cid \<le> 255) \<and> f cids = Inr y)"
proof -
  have "rbind (wpLoop cidStep (newWireParser raw) []) (\<lambda>(out, q). f out) = Inr y \<longleftrightarrow>
    (\<exists>cids. raw = concat (map alpnBytes cids) \<and> (\<forall>i < length cids. (\<lambda>_ cid. length cid \<le> 255) (take i cids) (cids ! i)) \<and> f cids = Inr y)"
  proof (rule wpLoop_items_iff [where P = "\<lambda>_ cid. length cid \<le> 255"])
    fix pre q q' s'
    assume q: "good q" "cidStep q pre = Inr (s', q')"
    obtain v p where v: "wpBytes8 q = (v, p)" by fastforce
    from q(2) v have "wp_err p = None" "s' = pre @ [v]" "q' = p" by (auto simp: cidStep_def split: option.splits)
    then show "\<exists>x. s' = pre @ [x] \<and> length x \<le> 255 \<and> rest q = alpnBytes x @ rest q' \<and> good q'"
      using wp_read(4) [OF q(1) v] by (auto simp: alpnBytes_def)
  next
    fix pre q r and x :: bytes
    assume x: "length x \<le> 255" "good q" "rest q = alpnBytes x @ r"
    then have "wpBytes8 q = (x, adv (length (alpnBytes x)) q)"
      using wpVectors_good(1) [OF x(2)] by (simp add: alpnBytes_def)
    moreover have "good (adv (length (alpnBytes x)) q)" using good_adv [OF x(2)] x(3) by simp
    ultimately show "cidStep q pre = Inr (pre @ [x], adv (length (alpnBytes x)) q)"
      by (simp add: cidStep_def del: length_alpnBytes)
  qed simp_all
  then show ?thesis by (simp only: cidList_def all_take_nth [of _ "\<lambda>cid. length cid \<le> 255"])
qed

lemma parseNewConnectionID_run:
  assumes "newCID_ok m"
  shows "parseNewConnectionID (putUint16 (of_nat (length (cidList (nc_connectionIDs m)))) @ cidList (nc_connectionIDs m) @ [nc_usage m]) = Inr m"
proof -
  let ?cids = "nc_connectionIDs m"
  let ?p = "newWireParser (putUint16 (of_nat (length (cidList ?cids))) @ cidList ?cids @ [nc_usage m])"
  let ?n = "2 + length (cidList ?cids)"
  have v: "wpBytes16 ?p = (cidList ?cids, adv ?n ?p)" using assms by (intro wpBytes16_vector) (auto simp: newCID_ok_def)
  have g: "good (adv ?n ?p)" "rest (adv ?n ?p) = [nc_usage m]" by (simp_all add: good_adv rest_adv)
  have u: "wpU8 (adv ?n ?p) = (unat (nc_usage m), adv (?n + 1) ?p)" using wpNumbers_good(1) [OF g(1)] g(2) by simp
  have d: "wpDone (adv (?n + 1) ?p) = Inr ()" using good_done [of "adv (?n + 1) ?p"] by (simp add: good_adv rest_adv)
  have "rbind (wpLoop cidStep (newWireParser (cidList ?cids)) []) (\<lambda>(connectionIDs, q).
      if nc_usage m = 0 \<and> length connectionIDs = 0 then Inl (ProtocolError ''immediate NewConnectionId has no connection IDs'')
      else Inr \<lparr>nc_connectionIDs = connectionIDs, nc_usage = nc_usage m\<rparr>) = Inr m"
    using assms by (subst cid_loop) (auto simp: newCID_ok_def)
  moreover have "\<not> connectionIDSpare < nc_usage m" using assms by (simp add: newCID_ok_def not_less)
  ultimately show ?thesis using v u d by (simp add: parseNewConnectionID_def Let_def del: rbind_eq_Inr split del: if_split cong: if_cong)
qed

lemma parseNewConnectionID_sound:
  assumes "parseNewConnectionID b = Inr m"
  shows "newCID_ok m \<and> b = putUint16 (of_nat (length (cidList (nc_connectionIDs m)))) @ cidList (nc_connectionIDs m) @ [nc_usage m]"
proof -
  obtain raw p where raw: "wpBytes16 (newWireParser b) = (raw, p)" by fastforce
  obtain n p' where n: "wpU8 p = (n, p')" by fastforce
  from assms raw n have d: "wpDone p' = Inr ()" and usage: "(of_nat n :: u8) \<le> 1"
    and loop: "rbind (wpLoop cidStep (newWireParser raw) []) (\<lambda>(connectionIDs, q).
      if (of_nat n :: u8) = 0 \<and> length connectionIDs = 0 then Inl (ProtocolError ''immediate NewConnectionId has no connection IDs'')
      else Inr \<lparr>nc_connectionIDs = connectionIDs, nc_usage = of_nat n\<rparr>) = Inr m"
    by (auto simp: parseNewConnectionID_def Let_def not_less split: if_splits)
  have e: "wp_err p' = None" "wp_err p = None" using done_err [OF d] wp_err_earlier(2) [OF n] by auto
  note r = wp_read(5) [OF good_new raw e(2)]
  have "rest p = [of_nat n]" using wp_read(1) [OF conjunct1 [OF r] n e(1)] good_done [of p'] d by simp
  with r usage loop show ?thesis unfolding cid_loop by (auto simp: newCID_ok_def split: if_splits)
qed

interpretation new_cid_codec: canonical_codec marshalNewConnectionID parseNewConnectionID newCID_ok
  by unfold_locales (auto simp: marshalNewConnectionID_iff parseNewConnectionID_run dest: parseNewConnectionID_sound)

section \<open>Two ends\<close>

text \<open>
  The end whose connection IDs are advertised, the end that puts them into its records, and the
  NewConnectionId messages that were sent. A message whose transmission failed is not among them.
\<close>

record cidPair =
  ci_peer :: cidConn
  ci_user :: cidConn
  ci_messages :: "(u16 \<times> bytes) list"

definition noteAdvertised :: "cidPair \<Rightarrow> cidConn \<Rightarrow> unit result \<Rightarrow> bytes list \<Rightarrow> bool \<Rightarrow> cidPair" where
  "noteAdvertised p peer res ids immediate =
     (case (res, co_sendingTraffic (ci_peer p),
            marshalNewConnectionID \<lparr>nc_connectionIDs = ids, nc_usage = (if immediate then connectionIDImmediate else connectionIDSpare)\<rparr>) of
        (Inr _, Some s, Inr body) \<Rightarrow> p\<lparr>ci_peer := peer, ci_messages := (st_messageSequence s, body) # ci_messages p\<rparr>
      | _ \<Rightarrow> p\<lparr>ci_peer := peer\<rparr>)"

text \<open>What key updates, sealing and opening keep of the two traffic states.\<close>

definition keepsSender :: "sendingTraffic \<Rightarrow> sendingTraffic \<Rightarrow> bool" where
  "keepsSender s s' \<longleftrightarrow> st_connectionID s' = st_connectionID s \<and> (st_cipher s \<noteq> None \<longrightarrow> st_cipher s' \<noteq> None)"

definition keepsReceiver :: "receivingTraffic \<Rightarrow> receivingTraffic \<Rightarrow> bool" where
  "keepsReceiver r r' \<longleftrightarrow> rt_acceptedCIDs r' = rt_acceptedCIDs r \<and> rt_hasConnectionID r' = rt_hasConnectionID r"

inductive cid_step :: "cidPair \<Rightarrow> cidPair \<Rightarrow> bool" where
  advertised: "sendNewConnectionIDs registrar send clock handshake (ci_peer p) ids immediate = (peer, res) \<Longrightarrow>
    cid_step p (noteAdvertised p peer res ids immediate)"
| delivered: "(q, body) \<in> set (ci_messages p) \<Longrightarrow> processNewConnectionID (ci_user p) q body = (user, res) \<Longrightarrow>
    cid_step p (p\<lparr>ci_user := user\<rparr>)"
| used: "useNextConnectionID handshake (ci_user p) = (user, res) \<Longrightarrow> cid_step p (p\<lparr>ci_user := user\<rparr>)"
| requested: "requestConnectionIDs send clock handshake (ci_user p) n = (user, res) \<Longrightarrow> cid_step p (p\<lparr>ci_user := user\<rparr>)"
| sending: "co_sendingTraffic (ci_user p) = Some s \<Longrightarrow> keepsSender s s' \<Longrightarrow>
    cid_step p (p\<lparr>ci_user := (ci_user p)\<lparr>co_sendingTraffic := Some s'\<rparr>\<rparr>)"
| receiving: "co_receivingTraffic (ci_peer p) = Some r \<Longrightarrow> keepsReceiver r r' \<Longrightarrow>
    cid_step p (p\<lparr>ci_peer := (ci_peer p)\<lparr>co_receivingTraffic := Some r'\<rparr>\<rparr>)"

lemma keepsReceiver_update: "processKeyUpdate cp r q body = (r', res) \<Longrightarrow> keepsReceiver r r'"
  by (auto simp: processKeyUpdate_def keepsReceiver_def retireEpochs_def Let_def split: sum.splits if_splits)

lemma keepsReceiver_open: "keepsReceiver r (r\<lparr>rt_epochs := epochs\<rparr>)"
  by (simp add: keepsReceiver_def)

lemma keepsSender_commit: "keepsSender s (commitMessageSequences s n)"
  by (simp add: keepsSender_def commitMessageSequences_def Let_def)

lemma keepsSender_await: "awaitUpdate cp s c wire number = (s', res) \<Longrightarrow> keepsSender s s'"
  by (auto simp: awaitUpdate_def keepsSender_def Let_def split: sum.splits if_splits)

lemma keepsSender_trans: "keepsSender a b \<Longrightarrow> keepsSender b c \<Longrightarrow> keepsSender a c"
  by (auto simp: keepsSender_def)

lemma keepsSender_fields [simp]:
  "keepsSender s s" "keepsSender s (s\<lparr>st_pendingFragment := f\<rparr>)" "keepsSender s (s\<lparr>st_cipher := Some c\<rparr>)"
  "keepsSender s (s\<lparr>st_pendingFragment := f, st_cipher := Some c\<rparr>)"
  by (simp_all add: keepsSender_def)

lemma keepsSender_begin: "beginKeyUpdate cp s request = (s', res) \<Longrightarrow> keepsSender s s'"
  by (auto simp: beginKeyUpdate_def Let_def split: sum.splits if_splits option.splits prod.splits
      intro: keepsSender_trans [OF keepsSender_fields(4) keepsSender_await])

section \<open>The invariant\<close>

definition accepted_ok :: "receivingTraffic \<Rightarrow> bool" where
  "accepted_ok r \<longleftrightarrow>
     rt_hasConnectionID r \<and> prefix_free (rt_acceptedCIDs r) \<and> distinct (rt_acceptedCIDs r) \<and>
     (\<forall>cid \<in> set (rt_acceptedCIDs r). length cid \<le> 255)"

definition user_ok :: "cidConn \<Rightarrow> receivingTraffic \<Rightarrow> bool" where
  "user_ok c r \<longleftrightarrow>
     co_connectionIDNegotiated c \<and> cc_peerCIDUpdatesAllowed c \<and>
     (\<exists>s. co_sendingTraffic c = Some s \<and> st_cipher s \<noteq> None \<and> st_connectionID s = co_sendConnectionID c) \<and>
     set (co_sendConnectionID c # cc_peerSpareConnectionIDs c) \<subseteq> set (rt_acceptedCIDs r) \<and>
     distinct (co_sendConnectionID c # cc_peerSpareConnectionIDs c) \<and>
     1 + int (length (cc_peerSpareConnectionIDs c)) \<le> max 1 (cc_maxConnectionIDs c)"

definition messages_ok :: "(u16 \<times> bytes) list \<Rightarrow> receivingTraffic \<Rightarrow> bool" where
  "messages_ok messages r \<longleftrightarrow>
     (\<forall>(q, body) \<in> set messages. \<exists>m. parseNewConnectionID body = Inr m \<and> set (nc_connectionIDs m) \<subseteq> set (rt_acceptedCIDs r))"

definition cid_inv :: "cidPair \<Rightarrow> bool" where
  "cid_inv p \<longleftrightarrow>
     (\<exists>r. co_receivingTraffic (ci_peer p) = Some r \<and> accepted_ok r \<and> user_ok (ci_user p) r \<and> messages_ok (ci_messages p) r)"

lemma user_ok_mono: "user_ok c r \<Longrightarrow> set (rt_acceptedCIDs r) \<subseteq> set (rt_acceptedCIDs r') \<Longrightarrow> user_ok c r'"
  unfolding user_ok_def by blast

lemma messages_ok_mono: "messages_ok ms r \<Longrightarrow> set (rt_acceptedCIDs r) \<subseteq> set (rt_acceptedCIDs r') \<Longrightarrow> messages_ok ms r'"
  unfolding messages_ok_def by fast

lemma accepted_addition:
  assumes "accepted_ok r" and "mergeConnectionIDs (rt_acceptedCIDs r) ids = Inr merged" and "addConnectionIDs r ids = (r', Inr x)"
  shows "accepted_ok r' \<and> set (rt_acceptedCIDs r') = set (rt_acceptedCIDs r) \<union> set ids"
proof -
  have has: "rt_hasConnectionID r" using assms(1) by (simp add: accepted_ok_def)
  obtain al where r': "r' = r\<lparr>rt_epochs := (rt_epochs r)\<lparr>es_ciphers := al\<rparr>, rt_acceptedCIDs := fold addUnseen ids (rt_acceptedCIDs r)\<rparr>"
    using addConnectionIDs_cases [OF assms(3) has] by auto
  have "\<forall>cid \<in> set ids. length cid \<le> 255" "prefix_free (rt_acceptedCIDs r @ ids)"
    using assms(1,2) mergeAdditions_iff [of "rt_acceptedCIDs r" ids] by (auto simp: accepted_ok_def mergeConnectionIDs_def list_all_iff)
  then show ?thesis
    using assms(1) distinct_fold_addUnseen [of "rt_acceptedCIDs r" ids]
    by (auto simp: r' accepted_ok_def prefix_free_def set_fold_addUnseen)
qed

lemma addConnectionIDs_refused: "addConnectionIDs r ids = (r', Inl err) \<Longrightarrow> keepsReceiver r r'"
  by (auto simp: addConnectionIDs_def keepsReceiver_def Let_def split: if_splits prod.splits sum.splits)

lemma restore_keeps: "addConnectionIDs r ids = (r', x) \<Longrightarrow> keepsReceiver r (restoreConnectionIDs r' (rt_acceptedCIDs r))"
  by (auto simp: addConnectionIDs_def restoreConnectionIDs_def keepsReceiver_def Let_def split: if_splits prod.splits sum.splits)

lemma sendBuild_receiving:
  assumes "sendBuild c s message = (c', s', res)"
  shows "co_receivingTraffic c' = co_receivingTraffic c"
  using assms by (auto simp: sendBuild_def Let_def split: prod.splits option.splits)

lemma sendFlight_receiving:
  assumes "sendFlight send clock c s f = (c', s', f', res)"
  shows "co_receivingTraffic c' = co_receivingTraffic c"
  using assms by (auto simp: sendFlight_def Let_def split: prod.splits option.splits)

text \<open>An advertisement adds the identifiers when it succeeds and changes none when it fails.\<close>

lemma advertise_cases:
  assumes "advertise registrar send clock c s r merged ids f = (c', res)"
  shows "\<exists>r'. co_receivingTraffic c' = Some r' \<and> (if isl res then keepsReceiver r r' else addConnectionIDs r ids = (r', Inr ()))"
proof -
  obtain r1 added where a: "addConnectionIDs r ids = (r1, added)" by fastforce
  show ?thesis
  proof (cases added)
    case (Inl err)
    then show ?thesis using assms a addConnectionIDs_refused by (auto simp: advertise_def)
  next
    case (Inr u)
    note keep = restore_keeps [OF a]
    show ?thesis
    proof (cases "Option.bind registrar (\<lambda>register. register (connectionIDDifference merged (rt_acceptedCIDs r)))")
      case (Some err)
      then show ?thesis using assms a Inr keep by (auto simp: advertise_def)
    next
      case None
      obtain c2 s2 f2 res2 where w: "sendFlight send clock (c\<lparr>co_receivingTraffic := Some r1\<rparr>) s f = (c2, s2, f2, res2)" by (rule prod_cases4)
      have "co_receivingTraffic c2 = Some r1" using sendFlight_receiving [OF w] by simp
      then show ?thesis using assms a Inr None w keep by (cases res2) (auto simp: advertise_def)
    qed
  qed
qed

lemma send_cases:
  assumes "sendNewConnectionIDs registrar send clock handshake c ids immediate = (c', res)" and "co_receivingTraffic c = Some r"
  shows "\<exists>r'. co_receivingTraffic c' = Some r' \<and>
    (if isl res then keepsReceiver r r'
     else \<exists>merged. mergeConnectionIDs (rt_acceptedCIDs r) ids = Inr merged \<and> addConnectionIDs r ids = (r', Inr ()))"
proof -
  let ?checks = "rbind handshake (\<lambda>_. rbind (marshalNewConnectionID \<lparr>nc_connectionIDs = ids,
      nc_usage = (if immediate then connectionIDImmediate else connectionIDSpare)\<rparr>) (\<lambda>body.
      rbind (advertiseChecks c ids) (\<lambda>checked. Inr (body, checked))))"
  show ?thesis
  proof (cases ?checks)
    case (Inl err)
    then show ?thesis using assms by (auto simp: sendNewConnectionIDs_def keepsReceiver_def)
  next
    case (Inr z)
    then obtain body s r0 merged where z: "z = (body, s, r0, merged)" by (cases z)
    with Inr have "advertiseChecks c ids = Inr (s, r0, merged)" by auto
    then have r0: "r0 = r" "mergeConnectionIDs (rt_acceptedCIDs r) ids = Inr merged"
      using assms(2) by (auto simp: advertiseChecks_def split: if_splits option.splits)
    obtain c1 s1 out where b: "sendBuild c s \<lparr>hm_typ = handshakeTypeNewConnectionID, hm_sequence = st_messageSequence s, hm_body = body\<rparr> = (c1, s1, out)"
      by (rule prod_cases3)
    show ?thesis
    proof (cases out)
      case err: (Inl err)
      then show ?thesis using assms Inr z b sendBuild_receiving [OF b] by (auto simp: sendNewConnectionIDs_def keepsReceiver_def)
    next
      case f: (Inr f)
      then have "advertise registrar send clock c1 s1 r merged ids f = (c', res)"
        using assms Inr z b r0 by (simp add: sendNewConnectionIDs_def)
      from advertise_cases [OF this] r0 show ?thesis by auto
    qed
  qed
qed

section \<open>Steps of the user\<close>

lemma activate_run:
  assumes "co_sendingTraffic c = Some s" and "st_cipher s \<noteq> None" and "length cid \<le> 255"
  shows "\<exists>s'. activatePeerConnectionIDLocked c cid =
      (c\<lparr>co_sendingTraffic := Some s', co_sendConnectionID := cid, cc_peerConnectionID := cid\<rparr>, Inr ()) \<and>
    st_cipher s' \<noteq> None \<and> st_connectionID s' = cid"
  using assms by (auto simp: activatePeerConnectionIDLocked_def sendingSetConnectionID_def setConnectionID_def Let_def split: option.splits)

lemma spares_fold:
  "distinct (active # spares) \<Longrightarrow> 1 + int (length spares) \<le> max 1 limit \<Longrightarrow>
   distinct (active # fold (addPeerSpare limit active) ids spares) \<and>
   1 + int (length (fold (addPeerSpare limit active) ids spares)) \<le> max 1 limit \<and>
   set (fold (addPeerSpare limit active) ids spares) \<subseteq> set spares \<union> set ids"
proof (induction ids arbitrary: spares)
  case (Cons cid ids)
  let ?spares = "addPeerSpare limit active cid spares"
  have "distinct (active # ?spares)" "1 + int (length ?spares) \<le> max 1 limit" "set ?spares \<subseteq> insert cid (set spares)"
    using Cons.prems by (auto simp: addPeerSpare_def)
  with Cons.IH [of ?spares] show ?case by auto
qed simp

lemma user_switch:
  assumes u: "user_ok c r" and r: "accepted_ok r" and cid: "cid \<in> set (rt_acceptedCIDs r)"
    and spares: "distinct (cid # spares)" "set spares \<subseteq> set (rt_acceptedCIDs r)" "1 + int (length spares) \<le> max 1 (cc_maxConnectionIDs c)"
    and c': "co_sendingTraffic c' = co_sendingTraffic c" "co_connectionIDNegotiated c'" "cc_peerCIDUpdatesAllowed c'"
      "cc_maxConnectionIDs c' = cc_maxConnectionIDs c" "cc_peerSpareConnectionIDs c' = spares"
  shows "snd (activatePeerConnectionIDLocked c' cid) = Inr () \<and> user_ok (fst (activatePeerConnectionIDLocked c' cid)) r"
proof -
  from u c'(1) obtain s where s: "co_sendingTraffic c' = Some s" "st_cipher s \<noteq> None" by (auto simp: user_ok_def)
  have "length cid \<le> 255" using r cid by (simp add: accepted_ok_def)
  from activate_run [OF s this] c' cid spares show ?thesis by (auto simp: user_ok_def)
qed

lemma prefix_free_subset: "prefix_free xs \<Longrightarrow> set ys \<subseteq> set xs \<Longrightarrow> prefix_free ys"
  unfolding prefix_free_def by blast

lemma deliver_ok:
  assumes u: "user_ok c r" and r: "accepted_ok r" and m: "parseNewConnectionID body = Inr m" "set (nc_connectionIDs m) \<subseteq> set (rt_acceptedCIDs r)"
  shows "snd (processNewConnectionID c q body) = Inr () \<and> user_ok (fst (processNewConnectionID c q body)) r"
proof -
  let ?ids = "nc_connectionIDs m" and ?active = "co_sendConnectionID c" and ?spares = "cc_peerSpareConnectionIDs c"
  have sub: "set (?active # ?spares) \<subseteq> set (rt_acceptedCIDs r)" "distinct (?active # ?spares)" using u by (simp_all add: user_ok_def)
  have pf: "prefix_free (rt_acceptedCIDs r)" using r by (simp add: accepted_ok_def)
  have "prefix_free ((?active # ?spares) @ ?ids)" by (rule prefix_free_subset [OF pf]) (use sub(1) m(2) in auto)
  moreover have "prefix_free (?active # ?spares)" by (rule prefix_free_subset [OF pf sub(1)])
  moreover have "list_all (\<lambda>cid. length cid \<le> 255) ?ids" using r m(2) by (auto simp: accepted_ok_def list_all_iff)
  ultimately obtain merged where merged: "mergeConnectionIDs (?active # ?spares) ?ids = Inr merged"
    using mergeAdditions_iff [of "?active # ?spares" ?ids] by (auto simp: mergeConnectionIDs_def)
  let ?new = "fold (addPeerSpare (cc_maxConnectionIDs c) ?active) ?ids ?spares"
  have f: "distinct (?active # ?new)" "1 + int (length ?new) \<le> max 1 (cc_maxConnectionIDs c)" "set ?new \<subseteq> set (rt_acceptedCIDs r)"
    using spares_fold [of ?active ?spares "cc_maxConnectionIDs c" ?ids] u sub m(2) by (auto simp: user_ok_def)
  let ?c = "c\<lparr>cc_lastNewCIDSequence := q, cc_hasNewCIDSequence := True, cc_connectionIDRequestOpen := False, cc_peerSpareConnectionIDs := ?new\<rparr>"
  have neg: "co_connectionIDNegotiated c" "cc_peerCIDUpdatesAllowed c" using u by (simp_all add: user_ok_def)
  consider "cc_hasNewCIDSequence c \<and> q \<le> cc_lastNewCIDSequence c"
    | "\<not> (cc_hasNewCIDSequence c \<and> q \<le> cc_lastNewCIDSequence c)" "nc_usage m \<noteq> 0"
    | "\<not> (cc_hasNewCIDSequence c \<and> q \<le> cc_lastNewCIDSequence c)" "nc_usage m = 0" by blast
  then show ?thesis
  proof cases
    case 1
    then show ?thesis using neg m(1) u by (simp add: processNewConnectionID_def)
  next
    case 2
    then have "processNewConnectionID c q body = (?c, Inr ())" using neg m(1) merged by (auto simp: processNewConnectionID_def Let_def)
    moreover have "user_ok ?c r" using u f by (simp add: user_ok_def)
    ultimately show ?thesis by simp
  next
    case 3
    then obtain cid rest where ids: "?ids = cid # rest"
      using parseNewConnectionID_sound [OF m(1)] by (cases ?ids) (auto simp: newCID_ok_def)
    have run: "processNewConnectionID c q body = activatePeerConnectionIDLocked (?c\<lparr>cc_peerSpareConnectionIDs := remove1 cid ?new\<rparr>) cid"
      using 3 neg m(1) merged by (auto simp: processNewConnectionID_def Let_def ids)
    have "cid \<in> set (rt_acceptedCIDs r)" using m(2) ids by simp
    moreover have "distinct (cid # remove1 cid ?new)" "set (remove1 cid ?new) \<subseteq> set (rt_acceptedCIDs r)"
      "1 + int (length (remove1 cid ?new)) \<le> max 1 (cc_maxConnectionIDs c)"
      using f set_remove1_subset [of cid ?new] by (auto simp: length_remove1)
    ultimately show ?thesis unfolding run using neg by (intro user_switch [OF u r]) simp_all
  qed
qed

lemma use_ok:
  assumes u: "user_ok c r" and r: "accepted_ok r"
  shows "user_ok (fst (useNextConnectionID handshake c)) r"
proof (cases "isl handshake \<or> cc_peerSpareConnectionIDs c = []")
  case True
  then show ?thesis using u by (auto simp: useNextConnectionID_def split: sum.splits)
next
  case False
  then obtain cid spares where s: "cc_peerSpareConnectionIDs c = cid # spares" by (cases "cc_peerSpareConnectionIDs c") auto
  have "snd (activatePeerConnectionIDLocked (c\<lparr>cc_peerSpareConnectionIDs := spares\<rparr>) cid) = Inr () \<and>
    user_ok (fst (activatePeerConnectionIDLocked (c\<lparr>cc_peerSpareConnectionIDs := spares\<rparr>) cid)) r"
    by (rule user_switch [OF u r]) (use u s in \<open>auto simp: user_ok_def\<close>)
  then show ?thesis using False s by (auto simp: useNextConnectionID_def split: sum.splits)
qed

lemma user_ok_sending:
  assumes "user_ok c r" and "co_sendingTraffic c = Some s" and "keepsSender s s'"
  shows "user_ok (c\<lparr>co_sendingTraffic := Some s'\<rparr>) r"
  using assms by (auto simp: user_ok_def keepsSender_def)

lemma user_ok_frame:
  assumes "user_ok c r" and "co_sendingTraffic c' = Some s'" and "co_sendingTraffic c = Some s" and "keepsSender s s'"
    and "co_connectionIDNegotiated c' = co_connectionIDNegotiated c" and "cc_peerCIDUpdatesAllowed c' = cc_peerCIDUpdatesAllowed c"
    and "co_sendConnectionID c' = co_sendConnectionID c" and "cc_peerSpareConnectionIDs c' = cc_peerSpareConnectionIDs c"
    and "cc_maxConnectionIDs c' = cc_maxConnectionIDs c"
  shows "user_ok c' r"
  using assms by (auto simp: user_ok_def keepsSender_def)

definition sameIDs :: "'a cidConn_scheme \<Rightarrow> 'a cidConn_scheme \<Rightarrow> bool" where
  "sameIDs c c' \<longleftrightarrow>
     co_connectionIDNegotiated c' = co_connectionIDNegotiated c \<and> cc_peerCIDUpdatesAllowed c' = cc_peerCIDUpdatesAllowed c \<and>
     co_sendConnectionID c' = co_sendConnectionID c \<and> cc_peerSpareConnectionIDs c' = cc_peerSpareConnectionIDs c \<and>
     cc_maxConnectionIDs c' = cc_maxConnectionIDs c"

lemma sendBuild_sending:
  assumes "sendBuild c s message = (c', s', res)" and "co_sendingTraffic c = Some s"
  shows "co_sendingTraffic c' = Some s' \<and> keepsSender s s' \<and> sameIDs c c'"
  using assms by (auto simp: sendBuild_def Let_def sameIDs_def split: prod.splits option.splits)

lemma sendFlight_sending:
  assumes "sendFlight send clock c s f = (c', s', f', res)" and "co_sendingTraffic c = Some s"
  shows "co_sendingTraffic c' = Some s' \<and> keepsSender s s' \<and> sameIDs c c'"
  using assms by (auto simp: sendFlight_def Let_def sameIDs_def split: prod.splits option.splits)

lemma request_keeps:
  assumes s: "co_sendingTraffic c = Some s" and run: "requestConnectionIDs send clock handshake c n = (c', res)"
  shows "\<exists>s'. co_sendingTraffic c' = Some s' \<and> keepsSender s s' \<and> sameIDs c c'"
proof -
  obtain c1 s1 out where b: "sendBuild c s \<lparr>hm_typ = handshakeTypeRequestConnectionID, hm_sequence = st_messageSequence s,
      hm_body = marshalRequestConnectionID \<lparr>rq_count = n\<rparr>\<rparr> = (c1, s1, out)" by (rule prod_cases3)
  note k1 = sendBuild_sending [OF b s]
  consider "c' = c" | "c' = c1" | f c2 s2 f2 out2 where "sendFlight send clock c1 s1 f = (c2, s2, f2, out2)"
    "c' = c2 \<or> c' = c2\<lparr>co_sendingTraffic := Some (commitMessageSequences s2 1), cc_requestCIDFlight := Some f2, cc_connectionIDRequestOpen := True\<rparr>"
    using run s b by (auto simp: requestConnectionIDs_def split: sum.splits prod.splits if_splits)
  then show ?thesis
  proof cases
    case 3
    note k2 = sendFlight_sending [OF 3(1) conjunct1 [OF k1]]
    have "keepsSender s s2" "keepsSender s (commitMessageSequences s2 1)"
      using k1 k2 keepsSender_commit by (blast intro: keepsSender_trans)+
    then show ?thesis using 3(2) k1 k2 by (auto simp: sameIDs_def)
  qed (use s k1 in \<open>auto simp: sameIDs_def\<close>)
qed

lemma cid_step_inv:
  assumes "cid_step p p'" and "cid_inv p"
  shows "cid_inv p'"
  using assms
proof (cases rule: cid_step.cases)
  case (advertised registrar send clock handshake ids immediate peer res)
  from assms(2) obtain r where r: "co_receivingTraffic (ci_peer p) = Some r" "accepted_ok r" "user_ok (ci_user p) r" "messages_ok (ci_messages p) r"
    by (auto simp: cid_inv_def)
  from send_cases [OF advertised(2) r(1)] obtain r' where r': "co_receivingTraffic peer = Some r'"
    "if isl res then keepsReceiver r r' else \<exists>merged. mergeConnectionIDs (rt_acceptedCIDs r) ids = Inr merged \<and> addConnectionIDs r ids = (r', Inr ())" by blast
  show ?thesis
  proof (cases res)
    case (Inl err)
    then have keep: "keepsReceiver r r'" using r'(2) by simp
    then have "accepted_ok r'" "user_ok (ci_user p) r'" "messages_ok (ci_messages p) r'"
      using r by (auto simp: keepsReceiver_def accepted_ok_def intro: user_ok_mono messages_ok_mono)
    then show ?thesis using r'(1) Inl advertised(1) by (auto simp: cid_inv_def noteAdvertised_def)
  next
    case (Inr u)
    then obtain merged where "mergeConnectionIDs (rt_acceptedCIDs r) ids = Inr merged" "addConnectionIDs r ids = (r', Inr ())" using r'(2) by auto
    from accepted_addition [OF r(2) this] have a: "accepted_ok r'" "set (rt_acceptedCIDs r') = set (rt_acceptedCIDs r) \<union> set ids" by auto
    then have k: "user_ok (ci_user p) r'" "messages_ok (ci_messages p) r'" using r by (auto intro: user_ok_mono messages_ok_mono)
    have "messages_ok ((q, body) # ci_messages p) r'"
      if "marshalNewConnectionID \<lparr>nc_connectionIDs = ids, nc_usage = usage\<rparr> = Inr body" for q body usage
      using that k(2) a(2) new_cid_codec.dec_enc [OF _ that] by (auto simp: messages_ok_def marshalNewConnectionID_iff)
    then show ?thesis using a k r'(1) advertised(1) by (auto simp: cid_inv_def noteAdvertised_def split: sum.splits option.splits)
  qed
next
  case (delivered q body user res)
  from assms(2) obtain r where r: "co_receivingTraffic (ci_peer p) = Some r" "accepted_ok r" "user_ok (ci_user p) r" "messages_ok (ci_messages p) r"
    by (auto simp: cid_inv_def)
  from r(4) delivered(2) obtain m where m: "parseNewConnectionID body = Inr m" "set (nc_connectionIDs m) \<subseteq> set (rt_acceptedCIDs r)"
    by (auto simp: messages_ok_def)
  from deliver_ok [OF r(3,2) m, of q] r show ?thesis using delivered by (simp add: cid_inv_def)
next
  case (used handshake user res)
  from assms(2) obtain r where r: "co_receivingTraffic (ci_peer p) = Some r" "accepted_ok r" "user_ok (ci_user p) r" "messages_ok (ci_messages p) r"
    by (auto simp: cid_inv_def)
  from use_ok [OF r(3,2), of handshake] r show ?thesis using used by (simp add: cid_inv_def)
next
  case (requested send clock handshake n user res)
  from assms(2) obtain r s where r: "co_receivingTraffic (ci_peer p) = Some r" "accepted_ok r" "user_ok (ci_user p) r" "messages_ok (ci_messages p) r"
    "co_sendingTraffic (ci_user p) = Some s" by (auto simp: cid_inv_def user_ok_def)
  from request_keeps [OF r(5) requested(2)] user_ok_frame [OF r(3) _ r(5)] have "user_ok user r" by (auto simp: sameIDs_def)
  then show ?thesis using r requested(1) by (auto simp: cid_inv_def)
next
  case (sending s s')
  then show ?thesis using assms(2) user_ok_sending by (auto simp: cid_inv_def)
next
  case (receiving r r')
  then show ?thesis using assms(2) by (auto simp: cid_inv_def keepsReceiver_def accepted_ok_def intro: user_ok_mono messages_ok_mono)
qed

section \<open>Properties\<close>

text \<open>
  The start: application keys are installed, connection IDs were negotiated, the only accepted
  identifier is the one the handshake gave to the user.
\<close>

definition cidStart :: "cidPair \<Rightarrow> bool" where
  "cidStart p \<longleftrightarrow>
     (case (co_receivingTraffic (ci_peer p), co_sendingTraffic (ci_user p)) of
        (Some r, Some s) \<Rightarrow>
          rt_hasConnectionID r \<and> rt_acceptedCIDs r = [co_sendConnectionID (ci_user p)] \<and> length (co_sendConnectionID (ci_user p)) \<le> 255 \<and>
          st_cipher s \<noteq> None \<and> st_connectionID s = co_sendConnectionID (ci_user p)
      | _ \<Rightarrow> False) \<and>
     co_connectionIDNegotiated (ci_user p) \<and> cc_peerCIDUpdatesAllowed (ci_user p) \<and>
     cc_peerSpareConnectionIDs (ci_user p) = [] \<and> ci_messages p = []"

lemma cidStart_inv: "cidStart p \<Longrightarrow> cid_inv p"
  by (auto simp: cidStart_def cid_inv_def accepted_ok_def user_ok_def messages_ok_def prefix_free_def split: option.splits)

lemma cid_reachable_inv: "cid_step\<^sup>*\<^sup>* p q \<Longrightarrow> cid_inv p \<Longrightarrow> cid_inv q"
  by (induction rule: rtranclp_induct) (blast intro: cid_step_inv)+


definition sampleCIDConn :: cidConn where
  "sampleCIDConn =
     \<lparr>co_isClient = True, co_replayWindow = 64, co_peerRecordSizeLimit = 0, co_localRecordSizeLimit = 0,
      co_connectionIDNegotiated = True, co_sendConnectionID = [1], co_receiveConnectionID = [1],
      co_sendingTraffic = Some ((newSendingTrafficWithCipher (hd supportedCipherSuites) [] sampleCipher 4 64)\<lparr>st_connectionID := [1], st_hasConnectionID := True\<rparr>),
      co_receivingTraffic = Some \<lparr>rt_suite = (hd supportedCipherSuites), rt_secret = [], rt_epochs = newEpochSet, rt_current = 3, rt_replaySize = 64,
        rt_lastUpdateSequence = 0, rt_hasUpdateSequence = False, rt_connectionID = [1], rt_hasConnectionID = True,
        rt_plaintextLimit = 0, rt_acceptedCIDs = [[1]], rt_secrets = []\<rparr>,
      co_keyUpdateResponsePending = False, cc_maxConnectionIDs = 4, cc_localCIDUpdatesAllowed = True, cc_peerCIDUpdatesAllowed = True,
      cc_localConnectionID = [1], cc_peerConnectionID = [1], cc_peerSpareConnectionIDs = [], cc_lastNewCIDSequence = 0,
      cc_hasNewCIDSequence = False, cc_lastRequestCIDSequence = 0, cc_hasRequestCIDSequence = False, cc_connectionIDRequestOpen = False,
      cc_newConnectionIDFlight = None, cc_requestCIDFlight = None,
      cc_tx = \<lparr>tx_mtu = \<lparr>pm_configured = 1200, pm_path = 0, pm_local = None\<rparr>, tx_store = (\<lambda>_. sampleCipher), tx_attempts = 0, tx_sent = []\<rparr>\<rparr>"


end
