(* ===== verification/Return_Routability.thy ===== *)
theory Return_Routability
  imports Connection_ID Amplification
begin

text \<open>
  \<^verbatim>\<open>src/return_routability.go\<close>: the return routability check that validates a new network path before
  the connection is rebound to it, and the automatic key update of \<^verbatim>\<open>src/conn.go\<close> that its records may
  trigger. The transport is a parameter that answers the n-th write with a count and an error; the
  datagrams it accepted are an output of each operation, with the address they went to. The random
  source is a parameter of the operations that read it: an error, or the cookie. A timer is the flag
  that it is armed; its callback carries the generation it was armed with.
\<close>

section \<open>Messages\<close>

abbreviation returnRoutabilityPathChallenge :: u8 where "returnRoutabilityPathChallenge \<equiv> 0"
abbreviation returnRoutabilityPathResponse :: u8 where "returnRoutabilityPathResponse \<equiv> 1"
abbreviation returnRoutabilityPathDrop :: u8 where "returnRoutabilityPathDrop \<equiv> 2"
abbreviation returnRoutabilityMessageLen :: nat where "returnRoutabilityMessageLen \<equiv> 9"

record returnRoutabilityMessage =
  rm_typ :: u8
  rm_cookie :: bytes

definition marshalReturnRoutability :: "returnRoutabilityMessage \<Rightarrow> bytes result" where
  "marshalReturnRoutability m =
     (if returnRoutabilityPathDrop < rm_typ m then Inl (ProtocolError ''invalid return routability message type'')
      else Inr (copy_at 1 (rm_cookie m) ((replicate returnRoutabilityMessageLen 0)[0 := rm_typ m])))"

definition parseReturnRoutabilityMessage :: "bytes \<Rightarrow> (returnRoutabilityMessage \<times> bool) result" where
  "parseReturnRoutabilityMessage wire =
     (if length wire = 0 then Inl (alertError alertDecodeError (ProtocolError ''truncated return routability message''))
      else if returnRoutabilityPathDrop < wire ! 0 then Inr (\<lparr>rm_typ = wire ! 0, rm_cookie = replicate 8 0\<rparr>, False)
      else if length wire \<noteq> returnRoutabilityMessageLen
        then Inl (alertError alertDecodeError (ProtocolError ''invalid return routability message length''))
      else Inr (\<lparr>rm_typ = wire ! 0, rm_cookie = drop 1 wire\<rparr>, True))"

section \<open>State\<close>

datatype returnRoutabilityPhase = ReturnRoutabilityIdle | ReturnRoutabilityCheckingOldPath | ReturnRoutabilityCheckingNewPath

record returnRoutabilityState =
  rs_phase :: returnRoutabilityPhase
  rs_generation :: u64
  rs_timer :: bool
  rs_oldAddress :: "netAddr option"
  rs_newAddress :: "netAddr option"
  rs_cookie :: bytes
  rs_probeConnectionID :: bytes
  rs_received :: u64
  rs_sent :: u64

text \<open>The zero value of the structure, and the fields of \<^verbatim>\<open>Conn\<close> and of its transport that the check uses.\<close>

definition zeroState :: returnRoutabilityState where
  "zeroState = \<lparr>rs_phase = ReturnRoutabilityIdle, rs_generation = 0, rs_timer = False, rs_oldAddress = None, rs_newAddress = None,
     rs_cookie = replicate 8 0, rs_probeConnectionID = [], rs_received = 0, rs_sent = 0\<rparr>"

record rrcConn = cidConn +
  rr_negotiated :: bool
  rr_remote :: "netAddr option"
  rr_canWriteTo :: bool
  rr_canRebind :: bool
  rr_state :: "returnRoutabilityState option"
  rr_writes :: nat

type_synonym netWriter = "nat \<Rightarrow> netAddr option \<Rightarrow> bytes \<Rightarrow> nat \<times> go_error option"
type_synonym datagrams = "(netAddr option \<times> bytes) list"

abbreviation maxUint64 :: u64 where
  "maxUint64 \<equiv> - 1"

definition addSaturated :: "u64 \<Rightarrow> u64 \<Rightarrow> u64" where
  "addSaturated left right = (if maxUint64 - left < right then maxUint64 else left + right)"

definition clearReturnRoutabilityLocked :: "rrcConn \<Rightarrow> rrcConn" where
  "clearReturnRoutabilityLocked c =
     (case rr_state c of
        None \<Rightarrow> c
      | Some state \<Rightarrow>
          c\<lparr>rr_state := Some (state\<lparr>rs_timer := False, rs_generation := rs_generation state + 1, rs_phase := ReturnRoutabilityIdle,
              rs_oldAddress := None, rs_newAddress := None, rs_cookie := replicate 8 0, rs_probeConnectionID := [],
              rs_received := 0, rs_sent := 0\<rparr>)\<rparr>)"

definition armReturnRoutabilityTimerLocked :: "rrcConn \<Rightarrow> rrcConn" where
  "armReturnRoutabilityTimerLocked c =
     (case rr_state c of
        None \<Rightarrow> c
      | Some state \<Rightarrow> c\<lparr>rr_state := Some (state\<lparr>rs_generation := rs_generation state + 1, rs_timer := True\<rparr>)\<rparr>)"

text \<open>The time to wait for an answer, from the retransmission interval.\<close>

definition returnRoutabilityTimeout :: "flightTimer \<Rightarrow> int \<Rightarrow> flightTimer \<times> int" where
  "returnRoutabilityTimeout t now =
     (if ft_retransmitNanos t \<le> 0 then (t, 1000000000)
      else
        let (t, interval) = flightInterval t now in
        if ft_retransmitNanos t \<le> 0 then (t, 1000000000)
        else if (2 ^ 63 - 1) div 2 < interval then (t, 2 ^ 63 - 1)
        else (t, 2 * interval))"

section \<open>Writing\<close>

definition netWrite :: "netWriter \<Rightarrow> rrcConn \<Rightarrow> netAddr option \<Rightarrow> bytes \<Rightarrow> rrcConn \<times> datagrams \<times> nat \<times> go_error option" where
  "netWrite net c address wire =
     (let (n, err) = net (rr_writes c) address wire in
      (c\<lparr>rr_writes := rr_writes c + 1\<rparr>, if err = None then [(address, wire)] else [], n, map_option normalizeDatagramWriteError err))"

definition writeRecordTo :: "netWriter \<Rightarrow> rrcConn \<Rightarrow> bytes \<Rightarrow> netAddr option \<Rightarrow> rrcConn \<times> datagrams \<times> nat \<times> go_error option" where
  "writeRecordTo net c wire address =
     (if sameNetworkAddress address (rr_remote c) then netWrite net c (rr_remote c) wire
      else if rr_canWriteTo c then netWrite net c address wire
      else (c, [], 0, Some (NetOpError (ProtocolError ''transport cannot write to the return routability address''))))"

definition allowReturnRoutabilitySendLocked :: "rrcConn \<Rightarrow> netAddr option \<Rightarrow> nat \<Rightarrow> bool" where
  "allowReturnRoutabilitySendLocked c address n =
     (case rr_state c of
        None \<Rightarrow> True
      | Some state \<Rightarrow>
          if rs_phase state = ReturnRoutabilityIdle \<or> \<not> sameNetworkAddress address (rs_newAddress state) then True
          else
            let budget = (if maxUint64 div 3 < rs_received state then maxUint64 else rs_received state * 3) in
            rs_sent state \<le> budget \<and> of_nat n \<le> budget - rs_sent state)"

definition recordReturnRoutabilitySendLocked :: "rrcConn \<Rightarrow> netAddr option \<Rightarrow> nat \<Rightarrow> rrcConn" where
  "recordReturnRoutabilitySendLocked c address n =
     (case rr_state c of
        None \<Rightarrow> c
      | Some state \<Rightarrow>
          if 0 < n \<and> rs_phase state \<noteq> ReturnRoutabilityIdle \<and> sameNetworkAddress address (rs_newAddress state)
            then c\<lparr>rr_state := Some (state\<lparr>rs_sent := addSaturated (rs_sent state) (of_nat n)\<rparr>)\<rparr>
          else c)"

text \<open>\<^verbatim>\<open>maybeStartAutomaticKeyUpdateLocked\<close> with the write of the KeyUpdate record.\<close>

definition maybeStartAutomaticKeyUpdateLocked :: "cryptoProvider \<Rightarrow> netWriter \<Rightarrow> rrcConn \<Rightarrow> rrcConn \<times> datagrams \<times> bool result" where
  "maybeStartAutomaticKeyUpdateLocked cp net c =
     (case co_sendingTraffic c of
        None \<Rightarrow> (c, [], Inr False)
      | Some s \<Rightarrow>
          if \<not> canUseNewKeys (st_update s) then (c, [], Inr False)
          else case st_cipher s of
            None \<Rightarrow> (c, [], Inl nilPointer)
          | Some cipher \<Rightarrow>
              let margin = max (min (rc_recordLimit cipher div 4) 1024) 1 in
              if maxSendingEpoch \<le> rc_epoch cipher \<or> rc_nextSequence cipher < rc_recordLimit cipher - margin then (c, [], Inr False)
              else
                let (s, res) = beginKeyUpdate cp s False; c = c\<lparr>co_sendingTraffic := Some s\<rparr> in
                case res of
                  Inl err \<Rightarrow> (c, [], Inl err)
                | Inr (wire, _) \<Rightarrow>
                    (let (c, out, n, err) = netWrite net c (rr_remote c) wire in
                     (c, out, case err of None \<Rightarrow> Inr True | Some e \<Rightarrow> Inl e)))"

text \<open>
  \<^verbatim>\<open>sendReturnRoutabilityLocked\<close>: the choice of the connection ID of a probe, the sealed record and its
  transmission within the budget, and the key update after it.
\<close>

definition probeConnectionID :: "rrcConn \<Rightarrow> netAddr option \<Rightarrow> u8 \<Rightarrow> bytes option" where
  "probeConnectionID c address typ =
     (case (rr_state c, cc_peerSpareConnectionIDs c) of
        (Some state, cid # _) \<Rightarrow>
          if typ = returnRoutabilityPathChallenge \<and> rs_phase state = ReturnRoutabilityCheckingNewPath \<and>
             sameNetworkAddress address (rs_newAddress state) then Some cid else None
      | _ \<Rightarrow> None)"

definition noteProbe :: "rrcConn \<Rightarrow> bytes option \<Rightarrow> rrcConn" where
  "noteProbe c probe =
     (case probe of
        None \<Rightarrow> c
      | Some cid \<Rightarrow> c\<lparr>rr_state := map_option (\<lambda>state. state\<lparr>rs_probeConnectionID := cid\<rparr>) (rr_state c)\<rparr>)"

definition transmitProbe :: "netWriter \<Rightarrow> rrcConn \<Rightarrow> netAddr option \<Rightarrow> bytes result \<Rightarrow> rrcConn \<times> datagrams \<times> unit result" where
  "transmitProbe net c address sealed =
     (case sealed of
        Inl err \<Rightarrow> (c, [], Inl err)
      | Inr wire \<Rightarrow>
          (let (c, out, n, err) = writeRecordTo net c wire address in
           case err of
             Some e \<Rightarrow> (c, out, Inl e)
           | None \<Rightarrow>
               if n \<noteq> length wire then (c, out, Inl ErrShortWrite)
               else (recordReturnRoutabilitySendLocked c address n, out, Inr ())))"

definition sendReturnRoutabilityLocked ::
  "cryptoProvider \<Rightarrow> netWriter \<Rightarrow> rrcConn \<Rightarrow> netAddr option \<Rightarrow> u8 \<Rightarrow> bytes \<Rightarrow> rrcConn \<times> datagrams \<times> unit result" where
  "sendReturnRoutabilityLocked cp net c address typ cookie =
     (case marshalReturnRoutability \<lparr>rm_typ = typ, rm_cookie = cookie\<rparr> of
        Inl err \<Rightarrow> (c, [], Inl err)
      | Inr payload \<Rightarrow>
          (case Option.bind (co_sendingTraffic c) (\<lambda>s. map_option (Pair s) (st_cipher s)) of
             None \<Rightarrow> (c, [], Inl (ProtocolError ''return routability traffic keys are not installed''))
           | Some (s, cipher) \<Rightarrow>
               (let activeConnectionID = rc_connectionID cipher;
                    probe = probeConnectionID c address typ;
                    c = noteProbe c probe;
                    cipher = (case probe of None \<Rightarrow> cipher | Some cid \<Rightarrow> cipher\<lparr>rc_connectionID := cid\<rparr>);
                    wireLength = headerLen16 cipher + ae_overhead (rc_aead cipher) + 1 + length payload
                in if \<not> allowReturnRoutabilitySendLocked c address wireLength then (c, [], Inr ())
                   else
                     let (cipher, sealed) = seal cipher recordTypeReturnRoutability payload;
                         c = c\<lparr>co_sendingTraffic := Some (s\<lparr>st_cipher := Some (cipher\<lparr>rc_connectionID := activeConnectionID\<rparr>)\<rparr>)\<rparr>;
                         (c, out, res) = transmitProbe net c address sealed
                     in case res of
                          Inl err \<Rightarrow> (c, out, Inl err)
                        | Inr _ \<Rightarrow>
                            (let (c, more, res) = maybeStartAutomaticKeyUpdateLocked cp net c in
                             (c, out @ more, map_sum id (\<lambda>_. ()) res)))))"

section \<open>The check\<close>

definition startBasicReturnRoutabilityLocked ::
  "cryptoProvider \<Rightarrow> netWriter \<Rightarrow> bytes result \<Rightarrow> rrcConn \<Rightarrow> rrcConn \<times> datagrams \<times> unit result" where
  "startBasicReturnRoutabilityLocked cp net rand c =
     (case rr_state c of
        None \<Rightarrow> (c, [], Inr ())
      | Some state \<Rightarrow>
          if rs_phase state = ReturnRoutabilityIdle \<or> rs_newAddress state = None then (c, [], Inr ())
          else case rand of
            Inl err \<Rightarrow> (clearReturnRoutabilityLocked c, [], Inl err)
          | Inr cookie \<Rightarrow>
              (let c = c\<lparr>rr_state := Some (state\<lparr>rs_cookie := cookie, rs_phase := ReturnRoutabilityCheckingNewPath\<rparr>)\<rparr>;
                   (c, out, res) = sendReturnRoutabilityLocked cp net c (rs_newAddress state) returnRoutabilityPathChallenge cookie
               in case res of
                    Inl err \<Rightarrow> (clearReturnRoutabilityLocked c, out, Inl err)
                  | Inr _ \<Rightarrow> (armReturnRoutabilityTimerLocked c, out, Inr ())))"

definition observeReturnRoutabilityRecord ::
  "cryptoProvider \<Rightarrow> netWriter \<Rightarrow> bytes result \<Rightarrow> rrcConn \<Rightarrow> netAddr option \<Rightarrow> int \<Rightarrow> rrcConn \<times> datagrams \<times> unit result" where
  "observeReturnRoutabilityRecord cp net rand c from received =
     (if \<not> rr_negotiated c \<or> from = None \<or> received \<le> 0 then (c, [], Inr ())
      else if rr_remote c = None \<or> sameNetworkAddress from (rr_remote c) then (c, [], Inr ())
      else if \<not> rr_canWriteTo c \<or> \<not> rr_canRebind c then (c, [], Inr ())
      else
        let state = (case rr_state c of None \<Rightarrow> zeroState | Some state \<Rightarrow> state); c = c\<lparr>rr_state := Some state\<rparr> in
        if rs_phase state \<noteq> ReturnRoutabilityIdle
          then (if sameNetworkAddress from (rs_newAddress state)
                  then c\<lparr>rr_state := Some (state\<lparr>rs_received := addSaturated (rs_received state) (word_of_int received)\<rparr>)\<rparr>
                else c, [], Inr ())
        else case rand of
          Inl err \<Rightarrow> (c, [], Inl err)
        | Inr cookie \<Rightarrow>
            (let c = c\<lparr>rr_state := Some (state\<lparr>rs_cookie := cookie, rs_phase := ReturnRoutabilityCheckingOldPath,
                       rs_oldAddress := rr_remote c, rs_newAddress := from, rs_received := word_of_int received, rs_sent := 0\<rparr>)\<rparr>;
                 (c, out, res) = sendReturnRoutabilityLocked cp net c (rr_remote c) returnRoutabilityPathChallenge cookie
             in case res of
                  Inl err \<Rightarrow> (clearReturnRoutabilityLocked c, out, Inl err)
                | Inr _ \<Rightarrow> (armReturnRoutabilityTimerLocked c, out, Inr ())))"

definition probeIndex :: "rrcConn \<Rightarrow> bytes \<Rightarrow> nat option" where
  "probeIndex c probe =
     (if 0 < length probe \<and> probe \<noteq> co_sendConnectionID c
        then find (\<lambda>i. cc_peerSpareConnectionIDs c ! i = probe) [0..<length (cc_peerSpareConnectionIDs c)]
      else if length probe = 0 \<and> 0 < length (cc_peerSpareConnectionIDs c) then Some 0
      else None)"

definition rebindValidatedPathLocked :: "rrcConn \<Rightarrow> netAddr option \<Rightarrow> bytes \<Rightarrow> rrcConn \<times> unit result" where
  "rebindValidatedPathLocked c address probe =
     (case probeIndex c probe of
        None \<Rightarrow> (c\<lparr>rr_remote := address\<rparr>, Inr ())
      | Some i \<Rightarrow>
          (case activatePeerConnectionIDLocked c (cc_peerSpareConnectionIDs c ! i) of
             (c, Inl err) \<Rightarrow> (c, Inl err)
           | (c, Inr _) \<Rightarrow>
               (c\<lparr>cc_peerSpareConnectionIDs := take i (cc_peerSpareConnectionIDs c) @ drop (i + 1) (cc_peerSpareConnectionIDs c),
                  rr_remote := address\<rparr>, Inr ())))"

text \<open>The answer to a response or drop message, by phase.\<close>

definition answerReturnRoutability ::
  "cryptoProvider \<Rightarrow> netWriter \<Rightarrow> bytes result \<Rightarrow> rrcConn \<Rightarrow> returnRoutabilityState \<Rightarrow> returnRoutabilityMessage \<Rightarrow> netAddr option \<Rightarrow>
   rrcConn \<times> datagrams \<times> unit result" where
  "answerReturnRoutability cp net rand c state message from =
     (case rs_phase state of
        ReturnRoutabilityCheckingOldPath \<Rightarrow>
          if sameNetworkAddress from (rs_oldAddress state) \<and> rm_cookie message = rs_cookie state
            then if rm_typ message = returnRoutabilityPathResponse then (clearReturnRoutabilityLocked c, [], Inr ())
                 else if rm_typ message = returnRoutabilityPathDrop then startBasicReturnRoutabilityLocked cp net rand c
                 else (c, [], Inr ())
          else (c, [], Inr ())
      | ReturnRoutabilityCheckingNewPath \<Rightarrow>
          if rm_typ message = returnRoutabilityPathResponse \<and> sameNetworkAddress from (rs_newAddress state) \<and>
             rm_cookie message = rs_cookie state
            then (let (c, res) = rebindValidatedPathLocked (clearReturnRoutabilityLocked c) (rs_newAddress state) (rs_probeConnectionID state)
                  in (c, [], res))
          else (c, [], Inr ())
      | ReturnRoutabilityIdle \<Rightarrow> (c, [], Inr ()))"

definition handleReturnRoutability ::
  "cryptoProvider \<Rightarrow> netWriter \<Rightarrow> bytes result \<Rightarrow> rrcConn \<Rightarrow> bytes \<Rightarrow> netAddr option \<Rightarrow> rrcConn \<times> datagrams \<times> unit result" where
  "handleReturnRoutability cp net rand c content from =
     (if \<not> rr_negotiated c \<or> from = None then (c, [], Inr ())
      else case parseReturnRoutabilityMessage content of
        Inl err \<Rightarrow> (c, [], Inr ())
      | Inr (message, known) \<Rightarrow>
          if \<not> known then (c, [], Inr ())
          else if rm_typ message = returnRoutabilityPathChallenge
            then sendReturnRoutabilityLocked cp net c from
                   (if sameNetworkAddress from (rr_remote c) then returnRoutabilityPathResponse else returnRoutabilityPathDrop) (rm_cookie message)
          else case rr_state c of
            None \<Rightarrow> (c, [], Inr ())
          | Some state \<Rightarrow> answerReturnRoutability cp net rand c state message from)"

definition returnRoutabilityTimerExpired ::
  "cryptoProvider \<Rightarrow> netWriter \<Rightarrow> bytes result \<Rightarrow> rrcConn \<Rightarrow> u64 \<Rightarrow> rrcConn \<times> datagrams \<times> unit result" where
  "returnRoutabilityTimerExpired cp net rand c generation =
     (case rr_state c of
        None \<Rightarrow> (c, [], Inr ())
      | Some state \<Rightarrow>
          if rs_generation state \<noteq> generation \<or> rs_phase state = ReturnRoutabilityIdle then (c, [], Inr ())
          else if rs_phase state = ReturnRoutabilityCheckingOldPath then startBasicReturnRoutabilityLocked cp net rand c
          else (clearReturnRoutabilityLocked c, [], Inr ()))"

section \<open>What an operation keeps\<close>

text \<open>Sending changes only the probe identifier, the sent counter and the timer of the check.\<close>

definition sameCheck :: "returnRoutabilityState \<Rightarrow> returnRoutabilityState \<Rightarrow> bool" where
  "sameCheck st st' \<longleftrightarrow>
     rs_phase st' = rs_phase st \<and> rs_oldAddress st' = rs_oldAddress st \<and> rs_newAddress st' = rs_newAddress st \<and> rs_cookie st' = rs_cookie st \<and>
     rs_received st' = rs_received st"

definition keepsCheck :: "rrcConn \<Rightarrow> rrcConn \<Rightarrow> bool" where
  "keepsCheck c c' \<longleftrightarrow> rr_remote c' = rr_remote c \<and> rr_negotiated c' = rr_negotiated c \<and> rel_option sameCheck (rr_state c) (rr_state c')"

lemma sameCheck_refl [simp]: "sameCheck st st"
  by (simp add: sameCheck_def)

lemma keepsCheck_trans: "keepsCheck a b \<Longrightarrow> keepsCheck b c \<Longrightarrow> keepsCheck a c"
  by (cases "rr_state a"; cases "rr_state b"; cases "rr_state c") (auto simp: keepsCheck_def sameCheck_def)

lemma keepsCheck_fields [simp]:
  "keepsCheck c c" "keepsCheck c (c\<lparr>co_sendingTraffic := s\<rparr>)" "keepsCheck c (c\<lparr>rr_writes := n\<rparr>)"
  by (cases "rr_state c"; simp add: keepsCheck_def)+

lemma keepsCheck_noteProbe: "keepsCheck c (noteProbe c probe)"
  by (cases "rr_state c") (auto simp: keepsCheck_def noteProbe_def sameCheck_def split: option.splits)

lemma keepsCheck_record: "keepsCheck c (recordReturnRoutabilitySendLocked c address n)"
  by (cases "rr_state c") (auto simp: keepsCheck_def recordReturnRoutabilitySendLocked_def sameCheck_def)

lemma netWrite_keeps: "netWrite net c address wire = (c', out, n, err) \<Longrightarrow> keepsCheck c c'"
  by (auto simp: netWrite_def split: prod.splits)

lemma writeRecordTo_keeps: "writeRecordTo net c wire address = (c', out, n, err) \<Longrightarrow> keepsCheck c c'"
  by (auto simp: writeRecordTo_def netWrite_keeps split: if_splits)

lemma automatic_keeps: "maybeStartAutomaticKeyUpdateLocked cp net c = (c', out, res) \<Longrightarrow> keepsCheck c c'"
  by (auto simp: maybeStartAutomaticKeyUpdateLocked_def Let_def split: option.splits if_splits prod.splits sum.splits
      intro: keepsCheck_trans [OF keepsCheck_fields(2) netWrite_keeps])

lemma transmit_keeps: "transmitProbe net c address sealed = (c', out, res) \<Longrightarrow> keepsCheck c c'"
  by (auto simp: transmitProbe_def split: sum.splits prod.splits option.splits if_splits
      intro: writeRecordTo_keeps keepsCheck_trans [OF writeRecordTo_keeps keepsCheck_record])

text \<open>The ways a send can end: nothing written, or a record and perhaps a KeyUpdate after it.\<close>

definition probeCipher :: "recordCipher \<Rightarrow> bytes option \<Rightarrow> recordCipher" where
  "probeCipher cipher probe = (case probe of None \<Rightarrow> cipher | Some cid \<Rightarrow> cipher\<lparr>rc_connectionID := cid\<rparr>)"

definition sealedConn :: "rrcConn \<Rightarrow> sendingTraffic \<Rightarrow> recordCipher \<Rightarrow> recordCipher \<Rightarrow> bytes option \<Rightarrow> rrcConn" where
  "sealedConn c s cipher cipher' probe =
     (noteProbe c probe)\<lparr>co_sendingTraffic := Some (s\<lparr>st_cipher := Some (cipher'\<lparr>rc_connectionID := rc_connectionID cipher\<rparr>)\<rparr>)\<rparr>"

lemma sendReturnRoutability_cases:
  assumes "sendReturnRoutabilityLocked cp net c address typ cookie = (c', out, res)"
  obtains (unsent) "c' = c \<or> c' = noteProbe c (probeConnectionID c address typ)" "out = []"
  | (sent) s cipher payload cipher' wire c2 out1 r1 where
      "co_sendingTraffic c = Some s" "st_cipher s = Some cipher" "length payload = 9"
      "allowReturnRoutabilitySendLocked (noteProbe c (probeConnectionID c address typ)) address
         (headerLen16 (probeCipher cipher (probeConnectionID c address typ)) + ae_overhead (rc_aead cipher) + 1 + length payload)"
      "seal (probeCipher cipher (probeConnectionID c address typ)) recordTypeReturnRoutability payload = (cipher', wire)"
      "transmitProbe net (sealedConn c s cipher cipher' (probeConnectionID c address typ)) address wire = (c2, out1, r1)"
      "c' = c2 \<and> out = out1 \<or> (\<exists>more r2. maybeStartAutomaticKeyUpdateLocked cp net c2 = (c', more, r2) \<and> out = out1 @ more)"
proof (cases "marshalReturnRoutability \<lparr>rm_typ = typ, rm_cookie = cookie\<rparr>")
  case (Inl err)
  then show ?thesis using assms by (intro unsent) (auto simp: sendReturnRoutabilityLocked_def)
next
  case (Inr payload)
  let ?probe = "probeConnectionID c address typ"
  show ?thesis
  proof (cases "Option.bind (co_sendingTraffic c) (\<lambda>s. map_option (Pair s) (st_cipher s))")
    case None
    then show ?thesis using assms Inr by (intro unsent) (auto simp: sendReturnRoutabilityLocked_def)
  next
    case (Some p)
    then obtain s cipher where s: "p = (s, cipher)" "co_sendingTraffic c = Some s" "st_cipher s = Some cipher"
      by (auto simp: bind_eq_Some_conv)
    have len: "length payload = 9" using Inr by (auto simp: marshalReturnRoutability_def split: if_splits)
    let ?allow = "allowReturnRoutabilitySendLocked (noteProbe c ?probe) address
      (headerLen16 (probeCipher cipher ?probe) + ae_overhead (rc_aead cipher) + 1 + length payload)"
    have aead: "rc_aead (probeCipher cipher ?probe) = rc_aead cipher" by (simp add: probeCipher_def split: option.splits)
    obtain cipher' wire where w: "seal (probeCipher cipher ?probe) recordTypeReturnRoutability payload = (cipher', wire)" by fastforce
    obtain c2 out1 r1 where t: "transmitProbe net (sealedConn c s cipher cipher' ?probe) address wire = (c2, out1, r1)" by (rule prod_cases3)
    obtain c3 more r2 where k: "maybeStartAutomaticKeyUpdateLocked cp net c2 = (c3, more, r2)" by (rule prod_cases3)
    note run = assms [unfolded sendReturnRoutabilityLocked_def Inr sum.case Some s(1) option.case prod.case Let_def
        probeCipher_def [symmetric] aead]
    show ?thesis
    proof (cases ?allow)
      case True
      then have "(c', out, res) = (case r1 of Inl err \<Rightarrow> (c2, out1, Inl err) | Inr _ \<Rightarrow> (c3, out1 @ more, map_sum id (\<lambda>_. ()) r2))"
        using run w t k by (simp add: sealedConn_def split: sum.splits)
      then show ?thesis using sent [OF s(2,3) len True w t] k by (cases r1) auto
    next
      case False
      then show ?thesis using run by (intro unsent) simp_all
    qed
  qed
qed

lemma keepsCheck_sealed: "keepsCheck c (sealedConn c s cipher cipher' probe)"
  unfolding sealedConn_def by (rule keepsCheck_trans [OF keepsCheck_noteProbe keepsCheck_fields(2)])

lemma send_keeps:
  assumes "sendReturnRoutabilityLocked cp net c address typ cookie = (c', out, res)"
  shows "keepsCheck c c'"
  using assms
proof (cases rule: sendReturnRoutability_cases)
  case unsent
  then show ?thesis using keepsCheck_noteProbe by auto
next
  case (sent s cipher payload cipher' wire c2 out1 r1)
  have "keepsCheck c c2" by (rule keepsCheck_trans [OF keepsCheck_sealed transmit_keeps [OF sent(6)]])
  then show ?thesis using sent(7) by (auto intro: keepsCheck_trans automatic_keeps)
qed

text \<open>The length of a sealed record is the one the budget is asked for.\<close>

declare length_protectSequence [simp]

lemma length_unifiedHeader [simp]: "length (unifiedHeader c True True sequence n) = headerLen16 c"
  by (simp add: unifiedHeader_def headerLen16_def)

lemma seal_length:
  assumes "seal c contentType content = (c', Inr wire)" and "aead_ok (rc_aead c)"
  shows "length wire = headerLen16 c + ae_overhead (rc_aead c) + 1 + length content"
  using assms
  by (auto simp: seal_def sealWithHeader_def aead_ok_def Let_def split: if_splits sum.splits)


lemma seal_small: "seal c contentType content = (c', Inr wire) \<Longrightarrow> ae_overhead (rc_aead c) + 1 + length content \<le> maxCiphertextLen"
  by (auto simp: seal_def sealWithHeader_def Let_def split: if_splits sum.splits)

lemma seal_same: "seal c contentType content = (c', res) \<Longrightarrow> rc_aead c' = rc_aead c \<and> rc_connectionID c' = rc_connectionID c"
  by (auto simp: seal_def sealWithHeader_def Let_def split: if_splits sum.splits)

section \<open>Lawful connections\<close>

text \<open>
  The AEAD of the sending cipher expands every record by its overhead, and no connection ID in use or
  spare has more than 255 bytes.
\<close>

definition lawful :: "rrcConn \<Rightarrow> bool" where
  "lawful c \<longleftrightarrow>
     (\<forall>s cipher. co_sendingTraffic c = Some s \<longrightarrow> st_cipher s = Some cipher \<longrightarrow> aead_ok (rc_aead cipher) \<and> length (rc_connectionID cipher) \<le> 255) \<and>
     (\<forall>cid \<in> set (cc_peerSpareConnectionIDs c). length cid \<le> 255)"

lemma begin_same:
  assumes "beginKeyUpdate cp s request = (s', res)" and "st_cipher s = Some c"
  shows "\<exists>c'. st_cipher s' = Some c' \<and> rc_aead c' = rc_aead c \<and> rc_connectionID c' = rc_connectionID c"
proof -
  have await: "st_cipher d' = st_cipher d" if "awaitUpdate cp d e wire number = (d', r)" for d e wire number d' r
    using that by (auto simp: awaitUpdate_def commitMessageSequences_def Let_def split: sum.splits if_splits)
  show ?thesis
    using assms by (auto simp: beginKeyUpdate_def Let_def split: sum.splits if_splits prod.splits dest!: await dest: seal_same)
qed

lemma lawful_automatic:
  assumes "lawful c" and "maybeStartAutomaticKeyUpdateLocked cp net c = (c', out, res)"
  shows "lawful c'"
proof -
  have net: "lawful d'" if "netWrite net d a wire = (d', o1, n, e)" "lawful d" for d a wire d' o1 n e
    using that by (auto simp: netWrite_def lawful_def split: prod.splits)
  have began: "lawful (c\<lparr>co_sendingTraffic := Some s'\<rparr>)" if "co_sendingTraffic c = Some s" "st_cipher s = Some x" "beginKeyUpdate cp s False = (s', r)" for s x s' r
    using assms(1) that begin_same [OF that(3,2)] by (auto simp: lawful_def)
  show ?thesis
    using assms began
    by (auto simp: maybeStartAutomaticKeyUpdateLocked_def Let_def split: option.splits if_splits prod.splits sum.splits dest: net)
qed

section \<open>Accounting\<close>

text \<open>A datagram transport writes a datagram whole or fails.\<close>

definition wholeWrites :: "netWriter \<Rightarrow> bool" where
  "wholeWrites net \<longleftrightarrow> (\<forall>k address wire n. net k address wire = (n, None) \<longrightarrow> n = length wire)"

definition toAddress :: "netAddr option \<Rightarrow> datagrams \<Rightarrow> nat" where
  "toAddress address out = sum_list (map (\<lambda>(a, wire). if sameNetworkAddress a address then length wire else 0) out)"

lemma toAddress_simps [simp]:
  "toAddress address [] = 0" "toAddress address (xs @ ys) = toAddress address xs + toAddress address ys"
  "toAddress address [(a, wire)] = (if sameNetworkAddress a address then length wire else 0)"
  by (simp_all add: toAddress_def)

definition active :: "rrcConn \<Rightarrow> returnRoutabilityState \<Rightarrow> bool" where
  "active c st \<longleftrightarrow> rr_state c = Some st \<and> rs_phase st \<noteq> ReturnRoutabilityIdle"

definition apart :: "rrcConn \<Rightarrow> returnRoutabilityState \<Rightarrow> bool" where
  "apart c st \<longleftrightarrow> \<not> sameNetworkAddress (rr_remote c) (rs_newAddress st)"

definition within :: "returnRoutabilityState \<Rightarrow> bool" where
  "within st \<longleftrightarrow> unat (rs_sent st) \<le> 3 * unat (rs_received st)"

lemma unat_addSaturated:
  "unat (addSaturated a b) = min (unat a + unat b) (2 ^ 64 - 1)"
proof -
  have d: "unat (maxUint64 - a) = 2 ^ 64 - 1 - unat a" by (subst unat_sub) (simp_all add: max_word)
  show ?thesis
  proof (cases "maxUint64 - a < b")
    case True
    then have "2 ^ 64 - 1 < unat a + unat b" using d by (simp add: word_less_nat_alt)
    then show ?thesis using True by (simp add: addSaturated_def max_word)
  next
    case False
    then have "unat a + unat b \<le> 2 ^ 64 - 1"
      using d unsigned_less [of a, where 'a = nat] by (simp add: word_less_nat_alt not_less)
    then show ?thesis using False by (simp add: addSaturated_def unat_word_ariths)
  qed
qed

lemma allowed_charge:
  assumes "active c st" and "sameNetworkAddress address (rs_newAddress st)" and "allowReturnRoutabilitySendLocked c address n" and "n < 2 ^ 63"
  shows "unat (addSaturated (rs_sent st) (of_nat n)) = unat (rs_sent st) + n \<and> unat (rs_sent st) + n \<le> 3 * unat (rs_received st)"
proof -
  let ?b = "if (- 1) div 3 < rs_received st then - 1 else rs_received st * 3"
  have n: "unat (of_nat n :: u64) = n" using assms(4) by (simp add: unat_of_nat)
  have b: "rs_sent st \<le> ?b" "of_nat n \<le> ?b - rs_sent st"
    using assms(1-3) by (auto simp: active_def allowReturnRoutabilitySendLocked_def Let_def)
  have "n \<le> unat ?b - unat (rs_sent st)" using b(2) unat_sub [OF b(1)] by (simp add: word_le_nat_alt n)
  moreover have "unat (rs_sent st) \<le> unat ?b" using b(1) by (simp add: word_le_nat_alt)
  ultimately have "unat (rs_sent st) + n \<le> min (3 * unat (rs_received st)) (2 ^ 64 - 1)"
    using budget_triple [of "rs_received st"] by linarith
  then show ?thesis by (simp add: unat_addSaturated n)
qed

definition charged :: "rrcConn \<Rightarrow> returnRoutabilityState \<Rightarrow> datagrams \<Rightarrow> bool" where
  "charged c st out \<longleftrightarrow>
     (\<exists>st'. rr_state c = Some st' \<and> sameCheck st st' \<and> unat (rs_sent st) + toAddress (rs_newAddress st) out \<le> unat (rs_sent st') \<and>
        within st')"

lemma record_charged:
  assumes a: "active c st" "within st" and allow: "allowReturnRoutabilitySendLocked c address n" "n < 2 ^ 63"
    and out: "toAddress (rs_newAddress st) out \<le> (if sameNetworkAddress address (rs_newAddress st) then n else 0)"
  shows "charged (recordReturnRoutabilitySendLocked c address n) st out"
proof (cases "0 < n \<and> sameNetworkAddress address (rs_newAddress st)")
  case True
  let ?st = "st\<lparr>rs_sent := addSaturated (rs_sent st) (of_nat n)\<rparr>"
  have "recordReturnRoutabilitySendLocked c address n = c\<lparr>rr_state := Some ?st\<rparr>"
    using True a(1) by (simp add: recordReturnRoutabilitySendLocked_def active_def)
  then show ?thesis
    using allowed_charge [OF a(1) _ allow] True out by (auto simp: charged_def sameCheck_def within_def)
next
  case False
  then have "recordReturnRoutabilitySendLocked c address n = c"
    using a(1) by (auto simp: recordReturnRoutabilitySendLocked_def active_def)
  then show ?thesis using a False out by (auto simp: charged_def active_def within_def split: if_splits)
qed

lemma transmit_charged:
  assumes run: "transmitProbe net c address wire = (c', out, r)" and net: "wholeWrites net" and a: "active c st" "within st" "apart c st"
    and len: "\<And>w. wire = Inr w \<Longrightarrow> length w = n \<and> n < 2 ^ 63" and allow: "allowReturnRoutabilitySendLocked c address n"
  shows "charged c' st out"
proof (cases wire)
  case (Inl err)
  then show ?thesis using run a by (auto simp: transmitProbe_def charged_def active_def)
next
  case (Inr w)
  obtain c1 out1 n1 e1 where w: "writeRecordTo net c w address = (c1, out1, n1, e1)" by (rule prod_cases4)
  have c1: "rr_state c1 = rr_state c"
    using w by (auto simp: writeRecordTo_def netWrite_def split: if_splits prod.splits)
  have e: "e1 = None \<Longrightarrow> n1 = length w" "e1 \<noteq> None \<Longrightarrow> out1 = []"
    using w net by (auto simp: writeRecordTo_def netWrite_def wholeWrites_def split: if_splits prod.splits)
  have out: "toAddress (rs_newAddress st) out1 \<le> (if sameNetworkAddress address (rs_newAddress st) then n else 0)"
    using w a(3) len [OF Inr] by (auto simp: writeRecordTo_def netWrite_def apart_def split: if_splits prod.splits)
  have a1: "active c1 st" and al: "allowReturnRoutabilitySendLocked c1 address n"
    using c1 a(1) allow by (auto simp: active_def allowReturnRoutabilitySendLocked_def)
  show ?thesis
  proof (cases e1)
    case None
    then have "c' = recordReturnRoutabilitySendLocked c1 address n" "out = out1"
      using run Inr w e len [OF Inr] by (auto simp: transmitProbe_def)
    then show ?thesis using record_charged [OF a1 a(2) al _ out] len [OF Inr] by simp
  next
    case (Some x)
    then have "c' = c1" "out = []" using run Inr w e by (auto simp: transmitProbe_def)
    then show ?thesis using a1 a(2) by (auto simp: charged_def active_def)
  qed
qed

lemma charged_start: "active c st \<Longrightarrow> within st \<Longrightarrow> charged c st []"
  by (auto simp: charged_def active_def)

lemma charged_more:
  assumes "charged c st out" and "rr_state c' = rr_state c" and "toAddress (rs_newAddress st) out2 = 0"
  shows "charged c' st (out @ out2)"
  using assms by (auto simp: charged_def)

lemma automatic_elsewhere:
  assumes "maybeStartAutomaticKeyUpdateLocked cp net c = (c', out, res)" and "apart c st"
  shows "rr_state c' = rr_state c \<and> toAddress (rs_newAddress st) out = 0"
  using assms by (auto simp: maybeStartAutomaticKeyUpdateLocked_def netWrite_def apart_def Let_def
      split: option.splits if_splits prod.splits sum.splits)

lemma charged_probe:
  assumes "charged c (st\<lparr>rs_probeConnectionID := cid\<rparr>) out" shows "charged c st out"
  using assms by (auto simp: charged_def sameCheck_def)

lemma noteProbe_state:
  assumes "active c st"
  obtains st' where "active (noteProbe c probe) st'" "st' = st \<or> (\<exists>cid. st' = st\<lparr>rs_probeConnectionID := cid\<rparr>)"
  using assms by (cases probe) (auto simp: active_def noteProbe_def)

lemma send_charged:
  assumes run: "sendReturnRoutabilityLocked cp net c address typ cookie = (c', out, res)"
    and net: "wholeWrites net" and law: "lawful c" and a: "active c st" "within st" "apart c st"
  shows "charged c' st out"
  using run
proof (cases rule: sendReturnRoutability_cases)
  case unsent
  obtain st' where "active (noteProbe c (probeConnectionID c address typ)) st'" "st' = st \<or> (\<exists>cid. st' = st\<lparr>rs_probeConnectionID := cid\<rparr>)"
    by (rule noteProbe_state [OF a(1)])
  then show ?thesis using unsent a(1,2) by (auto simp: charged_def active_def sameCheck_def within_def)
next
  case (sent s cipher payload cipher' wire c2 out1 r1)
  let ?probe = "probeConnectionID c address typ"
  let ?n = "headerLen16 (probeCipher cipher ?probe) + ae_overhead (rc_aead cipher) + 1 + length payload"
  obtain st' where st': "active (noteProbe c ?probe) st'" "st' = st \<or> (\<exists>cid. st' = st\<lparr>rs_probeConnectionID := cid\<rparr>)"
    by (rule noteProbe_state [OF a(1)])
  have aead: "rc_aead (probeCipher cipher ?probe) = rc_aead cipher" by (simp add: probeCipher_def split: option.splits)
  have cid: "length (rc_connectionID (probeCipher cipher ?probe)) \<le> 255"
    using law sent(1,2) by (auto simp: lawful_def probeCipher_def probeConnectionID_def split: option.splits list.splits)
  have len: "length w = ?n \<and> ?n < 2 ^ 63" if "wire = Inr w" for w
  proof -
    have w: "seal (probeCipher cipher ?probe) recordTypeReturnRoutability payload = (cipher', Inr w)" using sent(5) that by simp
    have "aead_ok (rc_aead cipher)" using law sent(1,2) by (simp add: lawful_def)
    then have "length w = ?n" using seal_length [OF w] by (simp add: aead)
    moreover have "ae_overhead (rc_aead cipher) + 1 + length payload \<le> maxCiphertextLen" using seal_small [OF w] by (simp only: aead)
    ultimately show ?thesis using cid by (simp add: headerLen16_def)
  qed
  have a': "active (sealedConn c s cipher cipher' ?probe) st'" "within st'" "apart (sealedConn c s cipher cipher' ?probe) st'"
    using st' a keepsCheck_sealed [of c s cipher cipher' ?probe] by (auto simp: active_def within_def apart_def sealedConn_def keepsCheck_def)
  have allow: "allowReturnRoutabilitySendLocked (sealedConn c s cipher cipher' ?probe) address ?n"
    using sent(4) by (simp add: allowReturnRoutabilitySendLocked_def sealedConn_def)
  have one: "charged c2 st' out1" by (rule transmit_charged [OF sent(6) net a' len allow])
  have "apart c2 st'" using a'(3) transmit_keeps [OF sent(6)] by (simp add: apart_def keepsCheck_def)
  then have "charged c' st' out" using sent(7) one charged_more [OF one] by (auto dest!: automatic_elsewhere)
  then show ?thesis using st'(2) charged_probe by auto
qed

lemma send_lawful:
  assumes run: "sendReturnRoutabilityLocked cp net c address typ cookie = (c', out, res)" and law: "lawful c"
  shows "lawful c'"
  using run
proof (cases rule: sendReturnRoutability_cases)
  case unsent
  then show ?thesis using law by (auto simp: lawful_def noteProbe_def split: option.splits)
next
  case (sent s cipher payload cipher' wire c2 out1 r1)
  let ?probe = "probeConnectionID c address typ"
  have "rc_aead cipher' = rc_aead cipher" using seal_same [OF sent(5)] by (simp add: probeCipher_def split: option.splits)
  then have "lawful (sealedConn c s cipher cipher' ?probe)"
    using law sent(1,2) by (auto simp: lawful_def sealedConn_def noteProbe_def split: option.splits)
  then have "lawful c2"
    using sent(6) by (auto simp: transmitProbe_def writeRecordTo_def netWrite_def lawful_def recordReturnRoutabilitySendLocked_def
        split: sum.splits if_splits prod.splits option.splits)
  then show ?thesis using sent(7) lawful_automatic by auto
qed

section \<open>Events\<close>

datatype rrcEvent =
    Observed "netAddr option" int
  | Message bytes "netAddr option"
  | Expired u64
  | Cleared

primrec rrcApply :: "cryptoProvider \<Rightarrow> netWriter \<Rightarrow> bytes result \<Rightarrow> rrcConn \<Rightarrow> rrcEvent \<Rightarrow> rrcConn \<times> datagrams \<times> unit result" where
  "rrcApply cp net rand c (Observed from n) = observeReturnRoutabilityRecord cp net rand c from n"
| "rrcApply cp net rand c (Message content from) = handleReturnRoutability cp net rand c content from"
| "rrcApply cp net rand c (Expired generation) = returnRoutabilityTimerExpired cp net rand c generation"
| "rrcApply cp net rand c Cleared = (clearReturnRoutabilityLocked c, [], Inr ())"

definition idle :: "rrcConn \<Rightarrow> bool" where
  "idle c \<longleftrightarrow> (\<forall>st. \<not> active c st)"

text \<open>The invariant of an active check.\<close>

definition check_ok :: "rrcConn \<Rightarrow> bool" where
  "check_ok c \<longleftrightarrow>
     (\<forall>st. active c st \<longrightarrow> rs_newAddress st \<noteq> None \<and> rs_oldAddress st = rr_remote c \<and> apart c st \<and> within st)"

text \<open>What one event can do to the check: end it, keep it, credit it, begin it, move it to the new path, or rebind.\<close>

definition ended :: "rrcConn \<Rightarrow> datagrams \<Rightarrow> rrcConn \<Rightarrow> bool" where
  "ended c out c' \<longleftrightarrow> idle c' \<and> rr_remote c' = rr_remote c \<and>
     (\<forall>st. active c st \<longrightarrow> unat (rs_sent st) + toAddress (rs_newAddress st) out \<le> 3 * unat (rs_received st))"

definition kept :: "rrcConn \<Rightarrow> datagrams \<Rightarrow> rrcConn \<Rightarrow> bool" where
  "kept c out c' \<longleftrightarrow> keepsCheck c c' \<and> (\<forall>st. active c st \<longrightarrow> charged c' st out)"

definition credited :: "rrcConn \<Rightarrow> rrcEvent \<Rightarrow> datagrams \<Rightarrow> rrcConn \<Rightarrow> bool" where
  "credited c e out c' \<longleftrightarrow> (\<exists>st from n. e = Observed from n \<and> 0 < n \<and> active c st \<and> sameNetworkAddress from (rs_newAddress st) \<and> out = [] \<and>
     rr_remote c' = rr_remote c \<and> rr_state c' = Some (st\<lparr>rs_received := addSaturated (rs_received st) (word_of_int n)\<rparr>))"

definition begun :: "rrcConn \<Rightarrow> rrcEvent \<Rightarrow> datagrams \<Rightarrow> rrcConn \<Rightarrow> bool" where
  "begun c e out c' \<longleftrightarrow> (\<exists>st' from n. e = Observed from n \<and> 0 < n \<and> idle c \<and> active c' st' \<and> rs_phase st' = ReturnRoutabilityCheckingOldPath \<and>
     rs_newAddress st' = from \<and> from \<noteq> None \<and> rs_oldAddress st' = rr_remote c \<and> rr_remote c' = rr_remote c \<and>
     rs_received st' = word_of_int n \<and> apart c' st' \<and> toAddress from out \<le> unat (rs_sent st') \<and> within st')"

definition moved :: "rrcConn \<Rightarrow> bytes result \<Rightarrow> datagrams \<Rightarrow> rrcConn \<Rightarrow> bool" where
  "moved c rand out c' \<longleftrightarrow> (\<exists>st cookie st'. active c st \<and> rs_phase st = ReturnRoutabilityCheckingOldPath \<and> rand = Inr cookie \<and>
     active c' st' \<and> rs_phase st' = ReturnRoutabilityCheckingNewPath \<and> rs_cookie st' = cookie \<and> rr_remote c' = rr_remote c \<and>
     rs_newAddress st' = rs_newAddress st \<and> rs_oldAddress st' = rs_oldAddress st \<and> rs_received st' = rs_received st \<and>
     unat (rs_sent st) + toAddress (rs_newAddress st) out \<le> unat (rs_sent st') \<and> within st')"

definition rebound :: "rrcConn \<Rightarrow> rrcEvent \<Rightarrow> datagrams \<Rightarrow> rrcConn \<Rightarrow> bool" where
  "rebound c e out c' \<longleftrightarrow> (\<exists>st from. active c st \<and> rs_phase st = ReturnRoutabilityCheckingNewPath \<and>
     e = Message (returnRoutabilityPathResponse # rs_cookie st) from \<and> sameNetworkAddress from (rs_newAddress st) \<and>
     idle c' \<and> out = [] \<and> rr_remote c' = rs_newAddress st)"

definition outcome :: "rrcConn \<Rightarrow> bytes result \<Rightarrow> rrcEvent \<Rightarrow> datagrams \<Rightarrow> rrcConn \<Rightarrow> bool" where
  "outcome c rand e out c' \<longleftrightarrow> ended c out c' \<or> kept c out c' \<or> credited c e out c' \<or> begun c e out c' \<or> moved c rand out c' \<or> rebound c e out c'"

lemma idle_clear [simp]: "idle (clearReturnRoutabilityLocked c)"
  by (auto simp: idle_def active_def clearReturnRoutabilityLocked_def split: option.splits)

lemma clear_fields [simp]:
  "rr_remote (clearReturnRoutabilityLocked c) = rr_remote c" "lawful (clearReturnRoutabilityLocked c) = lawful c"
  by (simp_all add: clearReturnRoutabilityLocked_def lawful_def split: option.splits)

lemma arm_keeps: "keepsCheck c (armReturnRoutabilityTimerLocked c)"
  by (cases "rr_state c") (auto simp: armReturnRoutabilityTimerLocked_def keepsCheck_def sameCheck_def)

lemma arm_charged: "charged c st out \<Longrightarrow> charged (armReturnRoutabilityTimerLocked c) st out"
  by (auto simp: charged_def armReturnRoutabilityTimerLocked_def sameCheck_def within_def)

lemma kept_refl: "check_ok c \<Longrightarrow> kept c [] c"
  by (auto simp: kept_def check_ok_def intro: charged_start)

lemma charged_bound: "charged c st out \<Longrightarrow> unat (rs_sent st) + toAddress (rs_newAddress st) out \<le> 3 * unat (rs_received st)"
  by (auto simp: charged_def within_def sameCheck_def)

lemma active_unique: "active c st \<Longrightarrow> active c st' \<Longrightarrow> st' = st"
  by (simp add: active_def)

lemma send_kept:
  assumes "sendReturnRoutabilityLocked cp net c address typ cookie = (c', out, res)" and "wholeWrites net" and "lawful c" and "check_ok c"
  shows "kept c out c'"
  using send_keeps [OF assms(1)] send_charged [OF assms(1-3)] assms(4) by (auto simp: kept_def check_ok_def)

lemma startBasic_outcome:
  assumes run: "startBasicReturnRoutabilityLocked cp net rand c = (c', out, res)" and net: "wholeWrites net" and law: "lawful c" and ok: "check_ok c"
    and st: "active c st" "rs_phase st = ReturnRoutabilityCheckingOldPath"
  shows "ended c out c' \<or> moved c rand out c'"
proof -
  have ok_st: "rs_newAddress st \<noteq> None" "apart c st" "within st" using ok st(1) by (auto simp: check_ok_def)
  show ?thesis
  proof (cases rand)
    case (Inl err)
    then have "c' = clearReturnRoutabilityLocked c" "out = []"
      using run st ok_st by (auto simp: startBasicReturnRoutabilityLocked_def active_def)
    then show ?thesis using ok_st st(1) by (simp add: ended_def within_def active_def)
  next
    case (Inr cookie)
    let ?st = "st\<lparr>rs_cookie := cookie, rs_phase := ReturnRoutabilityCheckingNewPath\<rparr>"
    let ?c = "c\<lparr>rr_state := Some ?st\<rparr>"
    obtain c1 out1 r1 where s: "sendReturnRoutabilityLocked cp net ?c (rs_newAddress st) returnRoutabilityPathChallenge cookie = (c1, out1, r1)"
      by (rule prod_cases3)
    have "startBasicReturnRoutabilityLocked cp net rand c =
      (case r1 of Inl err \<Rightarrow> (clearReturnRoutabilityLocked c1, out1, Inl err) | Inr _ \<Rightarrow> (armReturnRoutabilityTimerLocked c1, out1, Inr ()))"
      unfolding startBasicReturnRoutabilityLocked_def using st [unfolded active_def] ok_st(1) by (simp only: Inr s Let_def option.case sum.case prod.case) simp
    then have c': "c' = (if isl r1 then clearReturnRoutabilityLocked c1 else armReturnRoutabilityTimerLocked c1)" "out = out1"
      using run by (cases r1; simp)+
    have a: "active ?c ?st" "within ?st" "apart ?c ?st" using ok_st by (auto simp: active_def within_def apart_def)
    have law': "lawful ?c" using law by (simp add: lawful_def)
    note ch = send_charged [OF s net law' a]
    have remote: "rr_remote c1 = rr_remote c" using send_keeps [OF s] by (simp add: keepsCheck_def)
    show ?thesis
    proof (cases "isl r1")
      case True
      then show ?thesis using c' charged_bound [OF ch] remote st(1) by (simp add: ended_def active_def)
    next
      case False
      have "charged c' ?st out" using arm_charged [OF ch] False c' by simp
      then obtain st' where "rr_state c' = Some st'" "sameCheck ?st st'" "within st'" "unat (rs_sent st) + toAddress (rs_newAddress st) out \<le> unat (rs_sent st')"
        by (auto simp: charged_def)
      moreover have "rr_remote c' = rr_remote c" using remote arm_keeps [of c1] False c' by (simp add: keepsCheck_def)
      ultimately have "moved c rand out c'" unfolding moved_def
        using st Inr by (intro exI [of _ st] exI [of _ cookie] exI [of _ st']) (auto simp: active_def sameCheck_def)
      then show ?thesis ..
    qed
  qed
qed

lemma begin_outcome:
  assumes run: "sendReturnRoutabilityLocked cp net c1 (rr_remote c) returnRoutabilityPathChallenge cookie = (c2, out, r)"
    and net: "wholeWrites net" and law: "lawful c" and i: "idle c" and source: "source \<noteq> None" "\<not> sameNetworkAddress source (rr_remote c)" "0 < n"
    and c1: "c1 = c\<lparr>rr_state := Some (state\<lparr>rs_cookie := cookie, rs_phase := ReturnRoutabilityCheckingOldPath,
      rs_oldAddress := rr_remote c, rs_newAddress := source, rs_received := word_of_int n, rs_sent := 0\<rparr>)\<rparr>"
    and c': "c' = (if isl r then clearReturnRoutabilityLocked c2 else armReturnRoutabilityTimerLocked c2)"
  shows "ended c out c' \<or> begun c (Observed source n) out c'"
proof -
  let ?st = "state\<lparr>rs_cookie := cookie, rs_phase := ReturnRoutabilityCheckingOldPath,
      rs_oldAddress := rr_remote c, rs_newAddress := source, rs_received := word_of_int n, rs_sent := 0\<rparr>"
  have a: "active c1 ?st" "within ?st" "apart c1 ?st"
    using source sameNetworkAddress_sym [of source] by (auto simp: c1 active_def within_def apart_def)
  have "lawful c1" using law by (simp add: c1 lawful_def)
  note ch = send_charged [OF run net this a]
  have remote: "rr_remote c2 = rr_remote c" using send_keeps [OF run] by (simp add: keepsCheck_def c1)
  show ?thesis
  proof (cases "isl r")
    case True
    then have "ended c out c'" using c' remote i idle_clear [of c2] by (auto simp: ended_def idle_def)
    then show ?thesis ..
  next
    case False
    have "charged c' ?st out" using arm_charged [OF ch] False c' by simp
    then obtain st' where st': "rr_state c' = Some st'" "sameCheck ?st st'" "within st'" "toAddress source out \<le> unat (rs_sent st')"
      by (auto simp: charged_def)
    moreover have r': "rr_remote c' = rr_remote c" using remote arm_keeps [of c2] False c' by (simp add: keepsCheck_def)
    ultimately have "begun c (Observed source n) out c'" unfolding begun_def
      using i source a(3) by (intro exI [of _ st'] exI [of _ source] exI [of _ n]) (simp add: active_def sameCheck_def apart_def c1)
    then show ?thesis ..
  qed
qed

lemma observe_outcome:
  assumes run: "observeReturnRoutabilityRecord cp net rand c source n = (c', out, res)" and net: "wholeWrites net" and law: "lawful c" and ok: "check_ok c"
  shows "outcome c rand (Observed source n) out c'"
proof -
  let ?ignored = "\<not> rr_negotiated c \<or> source = None \<or> n \<le> 0 \<or> rr_remote c = None \<or> sameNetworkAddress source (rr_remote c) \<or> \<not> rr_canWriteTo c \<or> \<not> rr_canRebind c"
  let ?state = "case rr_state c of None \<Rightarrow> zeroState | Some state \<Rightarrow> state"
  let ?c = "c\<lparr>rr_state := Some ?state\<rparr>"
  consider "?ignored" | "\<not> ?ignored" "rs_phase ?state \<noteq> ReturnRoutabilityIdle"
    | err where "\<not> ?ignored" "rs_phase ?state = ReturnRoutabilityIdle" "rand = Inl err"
    | cookie where "\<not> ?ignored" "rs_phase ?state = ReturnRoutabilityIdle" "rand = Inr cookie" by (cases rand) blast+
  then show ?thesis
  proof cases
    case 1
    then have "c' = c" "out = []" using run by (auto simp: observeReturnRoutabilityRecord_def split: if_splits)
    then show ?thesis using kept_refl [OF ok] by (simp add: outcome_def)
  next
    case 2
    then obtain st where st: "active c st" by (cases "rr_state c") (auto simp: active_def zeroState_def)
    then have state: "?state = st" by (simp add: active_def)
    have within: "within st" using ok st by (simp add: check_ok_def)
    let ?d = "c\<lparr>rr_state := Some st\<rparr>"
    let ?c' = "if sameNetworkAddress source (rs_newAddress st)
        then ?d\<lparr>rr_state := Some (st\<lparr>rs_received := addSaturated (rs_received st) (word_of_int n)\<rparr>)\<rparr> else ?d"
    have guards: "(\<not> rr_negotiated c \<or> source = None \<or> n \<le> 0) = False" "(rr_remote c = None \<or> sameNetworkAddress source (rr_remote c)) = False"
      "(\<not> rr_canWriteTo c \<or> \<not> rr_canRebind c) = False" "(rs_phase st \<noteq> ReturnRoutabilityIdle) = True" using 2 [unfolded state] by blast+
    have "observeReturnRoutabilityRecord cp net rand c source n = (?c', [], Inr ())"
      unfolding observeReturnRoutabilityRecord_def state Let_def guards by (simp only: if_True if_False)
    with run have c'eq: "c' = ?c'" and out: "out = []" by (simp_all only: prod.inject)
    have c': "rr_remote c' = rr_remote c" "rr_negotiated c' = rr_negotiated c"
      "rr_state c' = Some (if sameNetworkAddress source (rs_newAddress st) then st\<lparr>rs_received := addSaturated (rs_received st) (word_of_int n)\<rparr> else st)"
      unfolding c'eq by (cases "sameNetworkAddress source (rs_newAddress st)"; simp)+
    show ?thesis
    proof (cases "sameNetworkAddress source (rs_newAddress st)")
      case True
      then have "credited c (Observed source n) out c'"
        unfolding credited_def using c' out guards st by (intro exI [of _ st] exI [of _ source] exI [of _ n]) simp
      then show ?thesis by (simp add: outcome_def)
    next
      case False
      then have "kept c out c'" using c' st within out by (simp add: kept_def keepsCheck_def charged_def active_def)
      then show ?thesis by (simp add: outcome_def)
    qed
  next
    case 3
    have guards: "(\<not> rr_negotiated c \<or> source = None \<or> n \<le> 0) = False" "(rr_remote c = None \<or> sameNetworkAddress source (rr_remote c)) = False"
      "(\<not> rr_canWriteTo c \<or> \<not> rr_canRebind c) = False" "(rs_phase ?state \<noteq> ReturnRoutabilityIdle) = False" using 3(1,2) by blast+
    have "observeReturnRoutabilityRecord cp net rand c source n = (?c, [], Inl err)"
      unfolding observeReturnRoutabilityRecord_def Let_def guards 3(3) by (simp only: if_False sum.case)
    with run have "c' = ?c" and out: "out = []" by (simp_all only: prod.inject)
    then have "rr_state c' = Some ?state" "rr_remote c' = rr_remote c" by simp_all
    moreover from this(1) have "idle c'" using 3(2) by (simp add: idle_def active_def)
    moreover have "idle c" using 3(2) by (auto simp: idle_def active_def split: option.splits)
    ultimately have "ended c out c'" using out by (simp add: ended_def idle_def [of c])
    then show ?thesis by (simp add: outcome_def)
  next
    case 4
    have guards: "(\<not> rr_negotiated c \<or> source = None \<or> n \<le> 0) = False" "(rr_remote c = None \<or> sameNetworkAddress source (rr_remote c)) = False"
      "(\<not> rr_canWriteTo c \<or> \<not> rr_canRebind c) = False" "(rs_phase ?state \<noteq> ReturnRoutabilityIdle) = False" using 4(1,2) by blast+
    have i: "idle c" using 4(2) by (auto simp: idle_def active_def split: option.splits)
    let ?new = "?c\<lparr>rr_state := Some (?state\<lparr>rs_cookie := cookie, rs_phase := ReturnRoutabilityCheckingOldPath,
      rs_oldAddress := rr_remote ?c, rs_newAddress := source, rs_received := word_of_int n, rs_sent := 0\<rparr>)\<rparr>"
    obtain c2 out2 r where s: "sendReturnRoutabilityLocked cp net ?new (rr_remote ?new) returnRoutabilityPathChallenge cookie = (c2, out2, r)"
      by (rule prod_cases3)
    have "observeReturnRoutabilityRecord cp net rand c source n =
      (case r of Inl err \<Rightarrow> (clearReturnRoutabilityLocked c2, out2, Inl err) | Inr _ \<Rightarrow> (armReturnRoutabilityTimerLocked c2, out2, Inr ()))"
      unfolding observeReturnRoutabilityRecord_def Let_def guards 4(3) by (simp only: if_False sum.case s prod.case)
    from trans [OF run [symmetric] this] have c': "c' = (if isl r then clearReturnRoutabilityLocked c2 else armReturnRoutabilityTimerLocked c2)"
      "out = out2" by (cases r; simp)+
    have new: "?new = c\<lparr>rr_state := Some (?state\<lparr>rs_cookie := cookie, rs_phase := ReturnRoutabilityCheckingOldPath,
      rs_oldAddress := rr_remote c, rs_newAddress := source, rs_received := word_of_int n, rs_sent := 0\<rparr>)\<rparr>" by simp
    have s': "sendReturnRoutabilityLocked cp net ?new (rr_remote c) returnRoutabilityPathChallenge cookie = (c2, out2, r)" using s by simp
    have "ended c out2 c' \<or> begun c (Observed source n) out2 c'"
      by (rule begin_outcome [OF s' net law i _ _ _ new c'(1)]) (use guards in auto)
    then show ?thesis using c'(2) by (auto simp: outcome_def)
  qed
qed

lemma rebind_outcome:
  assumes st: "active c st" "rs_phase st = ReturnRoutabilityCheckingNewPath" "sameNetworkAddress source (rs_newAddress st)" "within st"
    and run: "rebindValidatedPathLocked (clearReturnRoutabilityLocked c) (rs_newAddress st) probe = (c', res)"
  shows "ended c [] c' \<or> rebound c (Message (returnRoutabilityPathResponse # rs_cookie st) source) [] c'"
proof -
  let ?c = "clearReturnRoutabilityLocked c"
  have act: "rr_state d = rr_state ?c \<and> rr_remote d = rr_remote c" if "activatePeerConnectionIDLocked ?c cid = (d, r)" for cid d r
    using that by (auto simp: activatePeerConnectionIDLocked_def split: option.splits prod.splits sum.splits)
  have "rr_state c' = rr_state ?c" "rr_remote c' = rr_remote c \<or> rr_remote c' = rs_newAddress st"
    using run by (auto simp: rebindValidatedPathLocked_def split: option.splits prod.splits sum.splits dest!: act)
  moreover from this(1) have "idle c'" using idle_clear [of c] by (simp add: idle_def active_def)
  ultimately show ?thesis using st by (auto simp: ended_def rebound_def active_def within_def)
qed

lemma parse_known:
  assumes "parseReturnRoutabilityMessage content = Inr (m, True)"
  shows "content = rm_typ m # rm_cookie m"
proof (cases content)
  case (Cons b bs)
  then show ?thesis using assms by (auto simp: parseReturnRoutabilityMessage_def split: if_splits)
qed (use assms in \<open>simp add: parseReturnRoutabilityMessage_def\<close>)

lemma answer_outcome:
  assumes run: "answerReturnRoutability cp net rand c st m source = (c', out, res)" and net: "wholeWrites net" and law: "lawful c" and ok: "check_ok c"
    and st: "rr_state c = Some st"
  shows "outcome c rand (Message (rm_typ m # rm_cookie m) source) out c'"
proof (cases "rs_phase st")
  case ReturnRoutabilityIdle
  then have "c' = c" "out = []" using run by (auto simp: answerReturnRoutability_def)
  then show ?thesis using kept_refl [OF ok] by (simp add: outcome_def)
next
  case ReturnRoutabilityCheckingOldPath
  then have a: "active c st" using st by (simp add: active_def)
  have within: "within st" using ok a by (simp add: check_ok_def)
  consider "c' = c" "out = []" | "c' = clearReturnRoutabilityLocked c" "out = []"
    | "startBasicReturnRoutabilityLocked cp net rand c = (c', out, res)"
    using run ReturnRoutabilityCheckingOldPath by (auto simp: answerReturnRoutability_def split: if_splits)
  then show ?thesis
  proof cases
    case 1
    then show ?thesis using kept_refl [OF ok] by (simp add: outcome_def)
  next
    case 2
    then have "ended c out c'" using a within by (simp add: ended_def active_def within_def)
    then show ?thesis by (simp add: outcome_def)
  next
    case 3
    then show ?thesis using startBasic_outcome [OF 3 net law ok a ReturnRoutabilityCheckingOldPath] by (auto simp: outcome_def)
  qed
next
  case ReturnRoutabilityCheckingNewPath
  then have a: "active c st" using st by (simp add: active_def)
  have within: "within st" using ok a by (simp add: check_ok_def)
  let ?match = "rm_typ m = returnRoutabilityPathResponse \<and> sameNetworkAddress source (rs_newAddress st) \<and> rm_cookie m = rs_cookie st"
  show ?thesis
  proof (cases ?match)
    case True
    obtain d r where d: "rebindValidatedPathLocked (clearReturnRoutabilityLocked c) (rs_newAddress st) (rs_probeConnectionID st) = (d, r)" by fastforce
    then have "c' = d" "out = []" using run ReturnRoutabilityCheckingNewPath True by (auto simp: answerReturnRoutability_def)
    then show ?thesis using rebind_outcome [OF a ReturnRoutabilityCheckingNewPath _ within d, of source] True by (auto simp: outcome_def)
  next
    case False
    then have "c' = c" "out = []" using run ReturnRoutabilityCheckingNewPath by (auto simp: answerReturnRoutability_def)
    then show ?thesis using kept_refl [OF ok] by (simp add: outcome_def)
  qed
qed

lemma handle_outcome:
  assumes run: "handleReturnRoutability cp net rand c content source = (c', out, res)" and net: "wholeWrites net" and law: "lawful c" and ok: "check_ok c"
  shows "outcome c rand (Message content source) out c'"
proof -
  consider "c' = c" "out = []"
    | ty cookie where "sendReturnRoutabilityLocked cp net c source ty cookie = (c', out, res)"
    | m st where "parseReturnRoutabilityMessage content = Inr (m, True)" "rr_state c = Some st"
        "answerReturnRoutability cp net rand c st m source = (c', out, res)"
    using run unfolding handleReturnRoutability_def by (auto split: if_splits sum.splits option.splits prod.splits)
  then show ?thesis
  proof cases
    case 1
    then show ?thesis using kept_refl [OF ok] by (simp add: outcome_def)
  next
    case 2
    then show ?thesis using send_kept [OF 2 net law ok] by (simp add: outcome_def)
  next
    case 3
    then show ?thesis using answer_outcome [OF 3(3) net law ok 3(2)] parse_known [OF 3(1)] by simp
  qed
qed

lemma timer_outcome:
  assumes run: "returnRoutabilityTimerExpired cp net rand c generation = (c', out, res)" and net: "wholeWrites net" and law: "lawful c" and ok: "check_ok c"
  shows "outcome c rand (Expired generation) out c'"
proof -
  consider "c' = c" "out = []"
    | st where "active c st" "rs_phase st = ReturnRoutabilityCheckingOldPath" "startBasicReturnRoutabilityLocked cp net rand c = (c', out, res)"
    | st where "active c st" "c' = clearReturnRoutabilityLocked c" "out = []"
    using run by (auto simp: returnRoutabilityTimerExpired_def active_def split: option.splits if_splits)
  then show ?thesis
  proof cases
    case 1
    then show ?thesis using kept_refl [OF ok] by (simp add: outcome_def)
  next
    case 2
    then show ?thesis using startBasic_outcome [OF 2(3) net law ok 2(1,2)] by (auto simp: outcome_def)
  next
    case 3
    then have "ended c out c'" using ok by (auto simp: ended_def check_ok_def within_def)
    then show ?thesis by (simp add: outcome_def)
  qed
qed

lemma event_outcome:
  assumes "rrcApply cp net rand c e = (c', out, res)" and "wholeWrites net" and "lawful c" and "check_ok c"
  shows "outcome c rand e out c'"
proof (cases e)
  case Cleared
  then have "ended c out c'" using assms(1,4) by (auto simp: ended_def check_ok_def within_def)
  then show ?thesis by (simp add: outcome_def)
qed (use assms in \<open>auto intro: observe_outcome handle_outcome timer_outcome\<close>)

section \<open>Lawful connections stay lawful\<close>

lemma lawful_cong:
  "co_sendingTraffic c' = co_sendingTraffic c \<Longrightarrow> cc_peerSpareConnectionIDs c' = cc_peerSpareConnectionIDs c \<Longrightarrow> lawful c' = lawful c"
  by (simp add: lawful_def)

lemma lawful_state [simp]: "lawful (c\<lparr>rr_state := x\<rparr>) = lawful c" "lawful (c\<lparr>rr_remote := a\<rparr>) = lawful c"
  by (simp_all add: lawful_def)

lemma lawful_arm [simp]: "lawful (armReturnRoutabilityTimerLocked c) = lawful c"
  by (simp add: armReturnRoutabilityTimerLocked_def split: option.splits)

lemma lawful_after:
  assumes "lawful c" and "sendReturnRoutabilityLocked cp net (c\<lparr>rr_state := x\<rparr>) address ty cookie = (d, out, r)"
  shows "lawful d"
  using send_lawful [OF assms(2)] assms(1) by simp

lemma startBasic_lawful:
  assumes law: "lawful c" and run: "startBasicReturnRoutabilityLocked cp net rand c = (c', out, res)"
  shows "lawful c'"
proof -
  have "lawful (fst (startBasicReturnRoutabilityLocked cp net rand c))"
    unfolding startBasicReturnRoutabilityLocked_def Let_def
    using law by (auto split: option.splits sum.splits prod.splits dest: lawful_after)
  then show ?thesis using run by simp
qed

lemma observe_lawful:
  assumes law: "lawful c" and run: "observeReturnRoutabilityRecord cp net rand c source n = (c', out, res)"
  shows "lawful c'"
proof -
  have send: "lawful d" if "sendReturnRoutabilityLocked cp net e address ty cookie = (d, written, r)" "lawful e" for d e address ty cookie written r
    using send_lawful [OF that] .
  have "lawful (fst (observeReturnRoutabilityRecord cp net rand c source n))"
    unfolding observeReturnRoutabilityRecord_def Let_def
    using law by (auto split: sum.splits prod.splits dest!: send)
  then show ?thesis using run by simp
qed

lemma activate_lawful:
  assumes "lawful c" and "length cid \<le> 255" and "activatePeerConnectionIDLocked c cid = (c', res)"
  shows "lawful c' \<and> cc_peerSpareConnectionIDs c' = cc_peerSpareConnectionIDs c"
  using assms
  by (auto simp: activatePeerConnectionIDLocked_def sendingSetConnectionID_def setConnectionID_def lawful_def Let_def
      split: option.splits if_splits sum.splits prod.splits)

lemma rebind_lawful:
  assumes law: "lawful c" and run: "rebindValidatedPathLocked c address probe = (c', res)"
  shows "lawful c'"
proof (cases "probeIndex c probe")
  case None
  then show ?thesis using run law by (auto simp: rebindValidatedPathLocked_def)
next
  case (Some i)
  then have i: "i < length (cc_peerSpareConnectionIDs c)"
    by (auto simp: probeIndex_def find_Some_iff split: if_splits)
  then have "length (cc_peerSpareConnectionIDs c ! i) \<le> 255" using law by (simp add: lawful_def)
  moreover obtain d r where d: "activatePeerConnectionIDLocked c (cc_peerSpareConnectionIDs c ! i) = (d, r)" by fastforce
  ultimately have "lawful d" "cc_peerSpareConnectionIDs d = cc_peerSpareConnectionIDs c" using activate_lawful [OF law] by blast+
  then show ?thesis using run Some d
    by (cases r) (auto simp: rebindValidatedPathLocked_def lawful_def dest!: in_set_takeD in_set_dropD)
qed

lemma answer_lawful:
  assumes law: "lawful c" and run: "answerReturnRoutability cp net rand c st m source = (c', out, res)"
  shows "lawful c'"
proof -
  have rebind: "lawful d" if "rebindValidatedPathLocked (clearReturnRoutabilityLocked c) a p = (d, r)" for a p d r
    using rebind_lawful [OF _ that] law by simp
  show ?thesis using run law startBasic_lawful [OF law]
    by (auto simp: answerReturnRoutability_def split: returnRoutabilityPhase.splits if_splits prod.splits dest!: rebind)
qed

lemma handle_lawful:
  assumes law: "lawful c" and run: "handleReturnRoutability cp net rand c content source = (c', out, res)"
  shows "lawful c'"
  using run law send_lawful [OF _ law] answer_lawful [OF law]
  unfolding handleReturnRoutability_def by (auto split: if_splits sum.splits option.splits prod.splits)

lemma event_lawful:
  assumes law: "lawful c" and run: "rrcApply cp net rand c e = (c', out, res)"
  shows "lawful c'"
proof (cases e)
  case (Expired generation)
  then show ?thesis using run law startBasic_lawful [OF law]
    by (auto simp: returnRoutabilityTimerExpired_def split: option.splits if_splits)
qed (use run law observe_lawful [OF law] handle_lawful [OF law] in auto)

lemma within_credit: "within st \<Longrightarrow> within (st\<lparr>rs_received := addSaturated (rs_received st) w\<rparr>)"
  using unsigned_less [of "rs_sent st", where 'a = nat] by (simp add: within_def unat_addSaturated min_def)

lemma outcome_check_ok:
  assumes out: "outcome c rand e out c'" and ok: "check_ok c"
  shows "check_ok c'"
  using out unfolding outcome_def
proof (elim disjE)
  assume k: "kept c out c'"
  show ?thesis unfolding check_ok_def
  proof (intro allI impI)
    fix st' assume a: "active c' st'"
    then obtain st where st: "active c st" "sameCheck st st'" "rr_remote c' = rr_remote c"
      using k by (cases "rr_state c") (auto simp: kept_def keepsCheck_def active_def sameCheck_def)
    then have "within st'" using k a by (auto simp: kept_def charged_def active_def)
    then show "rs_newAddress st' \<noteq> None \<and> rs_oldAddress st' = rr_remote c' \<and> apart c' st' \<and> within st'"
      using st ok by (auto simp: check_ok_def sameCheck_def apart_def)
  qed
next
  assume "credited c e out c'"
  then show ?thesis using ok by (auto simp: credited_def check_ok_def active_def apart_def intro: within_credit)
qed (use ok in \<open>auto simp: ended_def rebound_def begun_def moved_def check_ok_def idle_def active_def apart_def\<close>)

section \<open>Runs\<close>

text \<open>
  A run with the events so far, each with what the random source gave it, and the bytes received from
  and written to the address of the check that is under way or has just ended. Steps of other parts of
  the connection keep the check and the remote address.
\<close>

definition activeCheck :: "rrcConn \<Rightarrow> returnRoutabilityState option" where
  "activeCheck c = Option.bind (rr_state c) (\<lambda>st. if rs_phase st \<noteq> ReturnRoutabilityIdle then Some st else None)"

lemma activeCheck_iff: "activeCheck c = Some st \<longleftrightarrow> active c st"
  by (auto simp: activeCheck_def active_def bind_eq_Some_conv)

lemma activeCheck_None: "activeCheck c = None \<longleftrightarrow> idle c"
  by (cases "activeCheck c") (auto simp: idle_def activeCheck_iff [symmetric])

fun eventBytes :: "rrcEvent \<Rightarrow> netAddr option \<Rightarrow> nat" where
  "eventBytes (Observed source n) address = (if sameNetworkAddress source address then nat n else 0)"
| "eventBytes e address = 0"

definition account :: "rrcConn \<Rightarrow> rrcEvent \<Rightarrow> datagrams \<Rightarrow> rrcConn \<Rightarrow> nat \<times> nat \<Rightarrow> nat \<times> nat" where
  "account c e out c' tally =
     (case activeCheck c of
        Some st \<Rightarrow> (fst tally + eventBytes e (rs_newAddress st), snd tally + toAddress (rs_newAddress st) out)
      | None \<Rightarrow>
          (case activeCheck c' of
             Some st \<Rightarrow> (eventBytes e (rs_newAddress st), toAddress (rs_newAddress st) out)
           | None \<Rightarrow> (0, 0)))"

inductive rrc_run :: "cryptoProvider \<Rightarrow> netWriter \<Rightarrow> rrcConn \<Rightarrow> (bytes result \<times> rrcEvent) list \<Rightarrow> rrcConn \<Rightarrow> nat \<times> nat \<Rightarrow> bool"
  for cp net c0 where
  run_start: "rrc_run cp net c0 [] c0 (0, 0)"
| run_event: "rrc_run cp net c0 tr c tally \<Longrightarrow> rrcApply cp net rand c e = (c', out, res) \<Longrightarrow>
    rrc_run cp net c0 (tr @ [(rand, e)]) c' (account c e out c' tally)"
| run_other: "rrc_run cp net c0 tr c tally \<Longrightarrow> rr_state c' = rr_state c \<Longrightarrow> rr_remote c' = rr_remote c \<Longrightarrow> lawful c' \<Longrightarrow>
    rrc_run cp net c0 tr c' tally"

definition balanced :: "rrcConn \<Rightarrow> nat \<times> nat \<Rightarrow> bool" where
  "balanced c tally \<longleftrightarrow> snd tally \<le> 3 * fst tally \<and>
     (\<forall>st. active c st \<longrightarrow> snd tally \<le> unat (rs_sent st) \<and> unat (rs_received st) \<le> fst tally)"

lemma account_active: "active c st \<Longrightarrow> account c e out c' tally = (fst tally + eventBytes e (rs_newAddress st), snd tally + toAddress (rs_newAddress st) out)"
  by (simp add: account_def activeCheck_iff [symmetric])

lemma account_idle: "idle c \<Longrightarrow> idle c' \<Longrightarrow> account c e out c' tally = (0, 0)"
  by (simp add: account_def activeCheck_None [symmetric])

lemma account_new: "idle c \<Longrightarrow> active c' st \<Longrightarrow> account c e out c' tally = (eventBytes e (rs_newAddress st), toAddress (rs_newAddress st) out)"
  by (simp add: account_def activeCheck_None [symmetric] activeCheck_iff [symmetric])

lemma unat_event:
  assumes "0 < n"
  shows "unat (word_of_int n :: u64) \<le> nat n"
proof -
  have "unat (word_of_int n :: u64) = unat (of_nat (nat n) :: u64)" using assms by simp
  also have "\<dots> \<le> nat n" by (simp add: unat_of_nat)
  finally show ?thesis .
qed

text \<open>An active check that goes on, with what was written charged to it.\<close>

lemma balanced_on:
  assumes b: "balanced c tally" and a: "active c st" "active c' st'" and within: "within st'" and
    sent: "unat (rs_sent st) + toAddress (rs_newAddress st) out \<le> unat (rs_sent st')"
    and received: "unat (rs_received st') \<le> unat (rs_received st) + eventBytes e (rs_newAddress st)"
  shows "balanced c' (account c e out c' tally)"
proof -
  let ?i = "fst tally + eventBytes e (rs_newAddress st)" and ?j = "snd tally + toAddress (rs_newAddress st) out"
  have "?j \<le> unat (rs_sent st')" "unat (rs_received st') \<le> ?i" using b a(1) sent received by (auto simp: balanced_def)
  moreover have "?j \<le> 3 * ?i" using calculation within by (simp add: within_def)
  ultimately show ?thesis using a by (auto simp: balanced_def account_active [OF a(1)] active_def)
qed

lemma balanced_step:
  assumes out: "outcome c rand e out c'" and b: "balanced c tally" and ok: "check_ok c"
  shows "balanced c' (account c e out c' tally)"
  using out unfolding outcome_def
proof (elim disjE)
  assume e: "ended c out c'"
  show ?thesis
  proof (cases "activeCheck c")
    case None
    then show ?thesis using e by (auto simp: ended_def activeCheck_None account_idle balanced_def idle_def)
  next
    case (Some st)
    then have a: "active c st" by (simp add: activeCheck_iff)
    have "snd tally + toAddress (rs_newAddress st) out \<le> 3 * unat (rs_received st)" "unat (rs_received st) \<le> fst tally"
      using e a b by (force simp: ended_def balanced_def)+
    then show ?thesis using e by (auto simp: ended_def balanced_def account_active [OF a] idle_def)
  qed
next
  assume k: "kept c out c'"
  show ?thesis
  proof (cases "activeCheck c")
    case None
    then have "idle c'" using k by (cases "rr_state c") (auto simp: kept_def keepsCheck_def idle_def active_def sameCheck_def activeCheck_None)
    with None show ?thesis by (auto simp: activeCheck_None account_idle balanced_def idle_def)
  next
    case (Some st)
    then have a: "active c st" by (simp add: activeCheck_iff)
    then obtain st' where st': "rr_state c' = Some st'" "sameCheck st st'" "within st'" "unat (rs_sent st) + toAddress (rs_newAddress st) out \<le> unat (rs_sent st')"
      using k by (auto simp: kept_def charged_def)
    then have "active c' st'" using a by (simp add: active_def sameCheck_def)
    from balanced_on [OF b a this st'(3,4)] show ?thesis using st'(2) by (simp add: sameCheck_def)
  qed
next
  assume "credited c e out c'"
  then obtain st source n where st: "e = Observed source n" "active c st" "sameNetworkAddress source (rs_newAddress st)" "out = []"
    "rr_state c' = Some (st\<lparr>rs_received := addSaturated (rs_received st) (word_of_int n)\<rparr>)" "0 < n" by (auto simp: credited_def)
  let ?st = "st\<lparr>rs_received := addSaturated (rs_received st) (word_of_int n)\<rparr>"
  have "active c' ?st" using st by (simp add: active_def)
  moreover have "within ?st" using ok st(2) by (intro within_credit) (simp add: check_ok_def)
  moreover have "unat (rs_received ?st) \<le> unat (rs_received st) + eventBytes e (rs_newAddress st)"
    using st(1,3) unat_event [OF st(6)] by (simp add: unat_addSaturated)
  ultimately show ?thesis using balanced_on [OF b st(2), of c' ?st out e] st(4) by simp
next
  assume "begun c e out c'"
  then obtain st' source n where st: "e = Observed source n" "idle c" "active c' st'" "rs_newAddress st' = source" "rs_received st' = word_of_int n"
    "toAddress source out \<le> unat (rs_sent st')" "within st'" "0 < n" by (auto simp: begun_def)
  then show ?thesis using unat_event [OF st(8)] by (auto simp: account_new [OF st(2,3)] balanced_def within_def active_def)
next
  assume "moved c rand out c'"
  then obtain st st' where st: "active c st" "active c' st'" "rs_received st' = rs_received st" "within st'"
    "unat (rs_sent st) + toAddress (rs_newAddress st) out \<le> unat (rs_sent st')" by (auto simp: moved_def)
  from balanced_on [OF b st(1,2,4,5)] show ?thesis using st(3) by simp
next
  assume r: "rebound c e out c'"
  then obtain st where a: "active c st" "out = []" "idle c'" by (auto simp: rebound_def)
  then show ?thesis using b by (auto simp: account_active [OF a(1)] balanced_def idle_def)
qed

lemma run_invariant:
  assumes "rrc_run cp net c0 tr c tally" and "wholeWrites net" and "lawful c0" and "rr_state c0 = None"
  shows "lawful c \<and> check_ok c \<and> balanced c tally"
  using assms(1)
proof induction
  case run_start
  then show ?case using assms(3,4) by (simp add: check_ok_def active_def balanced_def)
next
  case (run_event tr c tally rand e c' out res)
  then have step: "outcome c rand e out c'" using event_outcome assms(2) by blast
  show ?case using run_event event_lawful outcome_check_ok [OF step] balanced_step [OF step] by blast
next
  case (run_other tr c tally c')
  then show ?case by (simp add: check_ok_def active_def apart_def balanced_def)
qed

lemma cookie_origin:
  assumes "rrc_run cp net c0 tr c tally" and "wholeWrites net" and "lawful c0" and "rr_state c0 = None"
    and "active c st" and "rs_phase st = ReturnRoutabilityCheckingNewPath"
  shows "\<exists>tr1 e1 tr2 c1 tally1 st1. tr = tr1 @ (Inr (rs_cookie st), e1) # tr2 \<and> rrc_run cp net c0 tr1 c1 tally1 \<and>
    active c1 st1 \<and> rs_phase st1 = ReturnRoutabilityCheckingOldPath \<and> rs_newAddress st1 = rs_newAddress st"
  using assms(1,5,6)
proof (induction arbitrary: st)
  case run_start
  then show ?case using assms(4) by (simp add: active_def)
next
  case (run_event tr c tally rand e c' out res)
  have inv: "lawful c" "check_ok c" using run_invariant [OF run_event(1) assms(2-4)] by auto
  have old: ?case if s: "active c s" "rs_phase s = ReturnRoutabilityCheckingNewPath" "rs_cookie s = rs_cookie st" "rs_newAddress s = rs_newAddress st" for s
  proof -
    from run_event.IH [OF s(1,2)] obtain tr1 e1 tr2 c1 tally1 st1 where "tr = tr1 @ (Inr (rs_cookie st), e1) # tr2" "rrc_run cp net c0 tr1 c1 tally1"
      "active c1 st1" "rs_phase st1 = ReturnRoutabilityCheckingOldPath" "rs_newAddress st1 = rs_newAddress st" using s(3,4) by auto
    then show ?thesis by (intro exI [of _ tr1] exI [of _ e1] exI [of _ "tr2 @ [(rand, e)]"] exI [of _ c1] exI [of _ tally1] exI [of _ st1]) simp
  qed
  from event_outcome [OF run_event(2) assms(2) inv] consider "ended c out c'" | "kept c out c'" | "credited c e out c'" | "begun c e out c'"
    | "moved c rand out c'" | "rebound c e out c'" unfolding outcome_def by blast
  then show ?case
  proof cases
    case 2
    then obtain s where "active c s" "sameCheck s st"
      using run_event(4) by (cases "rr_state c") (auto simp: kept_def keepsCheck_def active_def sameCheck_def)
    then show ?thesis using run_event(5) by (intro old [of s]) (auto simp: sameCheck_def)
  next
    case 3
    then obtain s w where "active c s" "st = s\<lparr>rs_received := w\<rparr>" using run_event(4) by (auto simp: credited_def active_def)
    then show ?thesis using run_event(5) by (intro old [of s]) auto
  next
    case 5
    then obtain s cookie where "active c s" "rs_phase s = ReturnRoutabilityCheckingOldPath" "rand = Inr cookie" "rs_cookie st = cookie" "rs_newAddress st = rs_newAddress s"
      using run_event(4) by (auto simp: moved_def active_def)
    then show ?thesis using run_event(1)
      by (intro exI [of _ tr] exI [of _ e] exI [of _ "[]"] exI [of _ c] exI [of _ tally] exI [of _ s]) simp
  qed (use run_event(4,5) in \<open>auto simp: ended_def begun_def rebound_def idle_def active_def\<close>)
next
  case (run_other tr c tally c')
  then show ?case by (simp add: active_def)
qed

section \<open>Properties\<close>

text \<open>
  C5. A connection is rebound only to a validated path. In every run of observed records, return
  routability messages, timers and other activity, the remote address changes only when a
  path_response arrives from that very address which echoes the cookie that the random source gave when
  the check, after asking on the old path, moved to that address; and the address is not the old one.
\<close>

theorem path_rebinding_validated:
  assumes "wholeWrites net" and "lawful c0" and "rr_state c0 = None" and "rrc_run cp net c0 tr c tally"
    and "rrcApply cp net rand c e = (c', out, res)" and "rr_remote c' \<noteq> rr_remote c"
  shows "\<exists>address cookie source tr1 e1 tr2 c1 tally1 st1.
    e = Message (returnRoutabilityPathResponse # cookie) source \<and> rr_remote c' = Some address \<and>
    sameNetworkAddress source (Some address) \<and> \<not> sameNetworkAddress (rr_remote c) (Some address) \<and>
    tr = tr1 @ (Inr cookie, e1) # tr2 \<and> rrc_run cp net c0 tr1 c1 tally1 \<and>
    rr_state c1 = Some st1 \<and> rs_phase st1 = ReturnRoutabilityCheckingOldPath \<and> rs_newAddress st1 = Some address"
proof -
  have inv: "lawful c" "check_ok c" using run_invariant [OF assms(4,1-3)] by auto
  have "rebound c e out c'"
    using event_outcome [OF assms(5,1) inv] assms(6)
    by (auto simp: outcome_def ended_def kept_def keepsCheck_def credited_def begun_def moved_def)
  then obtain st source where st: "active c st" "rs_phase st = ReturnRoutabilityCheckingNewPath"
    "e = Message (returnRoutabilityPathResponse # rs_cookie st) source" "sameNetworkAddress source (rs_newAddress st)" "rr_remote c' = rs_newAddress st"
    by (auto simp: rebound_def)
  obtain address where a: "rs_newAddress st = Some address" "apart c st" using inv(2) st(1) by (auto simp: check_ok_def)
  from cookie_origin [OF assms(4,1-3) st(1,2)] obtain tr1 e1 tr2 c1 tally1 st1 where
    origin: "tr = tr1 @ (Inr (rs_cookie st), e1) # tr2" "rrc_run cp net c0 tr1 c1 tally1" "active c1 st1"
    "rs_phase st1 = ReturnRoutabilityCheckingOldPath" "rs_newAddress st1 = Some address" using a by auto
  show ?thesis
    using st a origin by (intro exI [of _ address] exI [of _ "rs_cookie st"] exI [of _ source] exI [of _ tr1] exI [of _ e1] exI [of _ tr2]
        exI [of _ c1] exI [of _ tally1] exI [of _ st1]) (simp add: apart_def active_def)
qed

text \<open>
  C40. An unvalidated path is not amplified to. In every run of observed records, return routability
  messages, timers and other activity, the bytes written to the new address during its check, up to and including the step that ends it, are at most three times the bytes
  of the authenticated records that came from it, whatever answers and probes the peer provokes.
\<close>

theorem unvalidated_path_amplification_bounded:
  assumes "wholeWrites net" and "lawful c0" and "rr_state c0 = None" and "rrc_run cp net c0 tr c (received, sent)"
  shows "sent \<le> 3 * received"
  using run_invariant [OF assms(4,1-3)] by (simp add: balanced_def)

definition sampleAddress :: "u8 \<Rightarrow> netAddr" where
  "sampleAddress host = \<lparr>na_udp = Some ([10, 0, 0, host], 4433, []), na_network = ''udp'', na_text = []\<rparr>"

definition samplePath :: rrcConn where
  "samplePath = cidConn.extend sampleCIDConn (rrcConn.fields True (Some (sampleAddress 1)) True True None 0)"

definition sampleNet :: netWriter where
  "sampleNet k address wire = (length wire, None)"

definition sampleChecked :: rrcConn where
  "sampleChecked = fst (rrcApply sampleProvider sampleNet (Inr (replicate 8 5)) samplePath (Observed (Some (sampleAddress 2)) 100))"

definition sampleMoved :: rrcConn where
  "sampleMoved = fst (rrcApply sampleProvider sampleNet (Inr (replicate 8 6)) sampleChecked (Message (2 # replicate 8 5) (Some (sampleAddress 1))))"


lemma samplePath_ok: "wholeWrites sampleNet" "lawful samplePath" "rr_state samplePath = None" "rr_remote samplePath = Some (sampleAddress 1)"
  using aead_ok_sample
  by (simp_all add: wholeWrites_def sampleNet_def lawful_def samplePath_def sampleCIDConn_def cidConn.defs rrcConn.defs
      newSendingTrafficWithCipher_def sampleCipher_def)

abbreviation sampleTrace :: "(bytes result \<times> rrcEvent) list" where
  "sampleTrace \<equiv> [(Inr (replicate 8 5), Observed (Some (sampleAddress 2)) 100), (Inr (replicate 8 6), Message (2 # replicate 8 5) (Some (sampleAddress 1)))]"

lemma sample_runs:
  "\<exists>tally. rrc_run sampleProvider sampleNet samplePath [hd sampleTrace] sampleChecked tally"
  "\<exists>tally. rrc_run sampleProvider sampleNet samplePath sampleTrace sampleMoved tally"
proof -
  obtain out res where "rrcApply sampleProvider sampleNet (Inr (replicate 8 5)) samplePath (Observed (Some (sampleAddress 2)) 100) = (sampleChecked, out, res)"
    unfolding sampleChecked_def by (metis prod.collapse)
  from rrc_run.run_event [OF rrc_run.run_start this]
  show one: "\<exists>tally. rrc_run sampleProvider sampleNet samplePath [hd sampleTrace] sampleChecked tally"
    by (intro exI) (simp only: list.sel append_Nil)
  obtain out2 res2 where "rrcApply sampleProvider sampleNet (Inr (replicate 8 6)) sampleChecked (Message (2 # replicate 8 5) (Some (sampleAddress 1))) = (sampleMoved, out2, res2)"
    unfolding sampleMoved_def by (metis prod.collapse)
  moreover obtain tally where "rrc_run sampleProvider sampleNet samplePath [hd sampleTrace] sampleChecked tally" using one by blast
  ultimately show "\<exists>tally. rrc_run sampleProvider sampleNet samplePath sampleTrace sampleMoved tally"
    using rrc_run.run_event [of sampleProvider sampleNet samplePath "[hd sampleTrace]" sampleChecked] by (intro exI) (simp only: list.sel append_Cons append_Nil)
qed

lemma remote_kept:
  assumes "outcome c rand e out c'" and "\<And>k s. e \<noteq> Message (returnRoutabilityPathResponse # k) s"
  shows "rr_remote c' = rr_remote c"
  using assms by (auto simp: outcome_def ended_def kept_def keepsCheck_def credited_def begun_def moved_def rebound_def)

lemma sampleMoved_remote: "rr_remote sampleMoved = Some (sampleAddress 1)"
proof -
  have step: "rr_remote (fst (rrcApply sampleProvider sampleNet rand c e)) = rr_remote c"
    if "rrc_run sampleProvider sampleNet samplePath tr c tally" "\<And>k s. e \<noteq> Message (returnRoutabilityPathResponse # k) s" for rand c e tr tally
  proof -
    obtain c' out res where r: "rrcApply sampleProvider sampleNet rand c e = (c', out, res)" by (rule prod_cases3)
    have "lawful c" "check_ok c" using run_invariant [OF that(1) samplePath_ok(1-3)] by auto
    from remote_kept [OF event_outcome [OF r samplePath_ok(1) this] that(2)] r show ?thesis by simp
  qed
  obtain tally where t: "rrc_run sampleProvider sampleNet samplePath [hd sampleTrace] sampleChecked tally" using sample_runs(1) by blast
  have "rr_remote sampleChecked = Some (sampleAddress 1)"
    unfolding sampleChecked_def by (subst step [OF rrc_run.run_start]) (simp_all add: samplePath_ok(4))
  then show ?thesis unfolding sampleMoved_def by (subst step [OF t]) simp_all
qed

lemma sampleMoved_rebinds:
  "rr_remote (fst (rrcApply sampleProvider sampleNet (Inr []) sampleMoved (Message (1 # replicate 8 6) (Some (sampleAddress 2))))) = Some (sampleAddress 2)"
  by code_simp

theorem path_rebinding_validated_witness:
  "\<exists>c' out res cookie tr1 e1 tr2.
    rrcApply sampleProvider sampleNet (Inr []) sampleMoved (Message (1 # replicate 8 6) (Some (sampleAddress 2))) = (c', out, res) \<and>
    rr_remote sampleMoved = Some (sampleAddress 1) \<and> rr_remote c' = Some (sampleAddress 2) \<and>
    cookie = replicate 8 6 \<and> sampleTrace = tr1 @ (Inr cookie, e1) # tr2"
proof -
  let ?e = "Message (1 # replicate 8 6) (Some (sampleAddress 2))"
  obtain c' out res where r: "rrcApply sampleProvider sampleNet (Inr []) sampleMoved ?e = (c', out, res)" by (rule prod_cases3)
  obtain tally where t: "rrc_run sampleProvider sampleNet samplePath sampleTrace sampleMoved tally" using sample_runs(2) by blast
  have c': "rr_remote c' = Some (sampleAddress 2)" using sampleMoved_rebinds r by simp
  then have "rr_remote c' \<noteq> rr_remote sampleMoved" by (simp add: sampleMoved_remote sampleAddress_def)
  from path_rebinding_validated [OF samplePath_ok(1-3) t r this] obtain cookie tr1 e1 tr2 where
    "?e = Message (1 # cookie) (Some (sampleAddress 2))" "sampleTrace = tr1 @ (Inr cookie, e1) # tr2" by auto
  then show ?thesis using r c' sampleMoved_remote by blast
qed

theorem unvalidated_path_amplification_bounded_witness:
  "\<exists>received sent. rrc_run sampleProvider sampleNet samplePath sampleTrace sampleMoved (received, sent) \<and> sent \<le> 3 * received"
proof -
  obtain received sent where "rrc_run sampleProvider sampleNet samplePath sampleTrace sampleMoved (received, sent)"
    using sample_runs(2) by (metis prod.collapse)
  then show ?thesis using unvalidated_path_amplification_bounded [OF samplePath_ok(1-3)] by blast
qed

end
