(* ===== verification/Spec2Isabelle.thy ===== *)
theory Spec2Isabelle
  imports Plain_Record Key_Schedule Transcript Epoch_Set Ack Handshake_Inbox Flight Hello_Roundtrip Amplification Cookie Hello_Retry Key_Update Key_Exchange Return_Routability
begin

text \<open>
  A verification library for the DTLS 1.3 implementation under \<^verbatim>\<open>src/\<close>.

  \<^bold>\<open>The program.\<close> A connection turns handshake messages into fragments and fragments into records. Records
  of epoch zero are plain, later ones are sealed under the traffic keys of their epoch. The receiving side
  opens records, refuses replayed ones, reassembles the fragments and hands messages on in order. Flights
  are kept and retransmitted until the peer acknowledges their records. The key schedule derives the
  secrets from the key exchange and the transcript; key updates replace them while both ends keep sending.
  Connection IDs identify a connection on a changed network path, and a return routability check validates
  such a path before the connection is rebound to it.

  \<^bold>\<open>Foundations.\<close>
  \<^item> \<open>DTLS_Prelude\<close>: machine types, error values, slices, big-endian integers and their lemmas.
  \<^item> \<open>Codec_Interfaces\<close>: the contracts of wire formats as locales; each format interprets one of them.

  \<^bold>\<open>Records.\<close>
  \<^item> \<open>Alert\<close> (\<^verbatim>\<open>alert.go\<close>, \<^verbatim>\<open>errors.go\<close>): alerts and the closure state. Exactly the records after a
    close_notify are ignored.
  \<^item> \<open>Plain_Record\<close> (\<^verbatim>\<open>record.go\<close>): plaintext records, their round trip and what the parser accepts.
  \<^item> \<open>Replay_Window\<close> (\<^verbatim>\<open>replay.go\<close>): the sliding window accepts no number twice.
  \<^item> \<open>Protected_Record\<close> (\<^verbatim>\<open>protected_record.go\<close>): sealing and opening, sequence number reconstruction, fresh
    nonces, and that a refused record leaves the replay state as it was.
  \<^item> \<open>Epoch_Set\<close> (\<^verbatim>\<open>epoch.go\<close>): the ciphers by epoch and the choice among them.
  \<^item> \<open>Ack\<close> (\<^verbatim>\<open>ack.go\<close>): acknowledgements and their packing into records.

  \<^bold>\<open>Handshake transport.\<close>
  \<^item> \<open>Handshake_Fragment\<close> and \<open>Reassembly\<close> (\<^verbatim>\<open>handshake.go\<close>): fragmentation and the reassembler with its bitmap.
    A message that comes back is the one that was fragmented.
  \<^item> \<open>Handshake_Inbox\<close> (\<^verbatim>\<open>handshake_inbox.go\<close>): every message is delivered, in order.
  \<^item> \<open>Flight\<close> (\<^verbatim>\<open>flight.go\<close>): building, resizing, combining and acknowledging flights.
  \<^item> \<open>Path_Mtu\<close> (\<^verbatim>\<open>conn.go\<close>, \<^verbatim>\<open>handshake_driver.go\<close>): the path MTU, the retransmission interval and the writing of
    flights, which adapts to what the path carries.

  \<^bold>\<open>Hello messages and negotiation.\<close>
  \<^item> \<open>Wire\<close>, \<open>Hello_Extensions\<close>, \<open>Extension_Lists\<close>, \<open>Hello\<close>, \<open>Hello_Correct\<close>, \<open>Hello_Roundtrip\<close> (\<^verbatim>\<open>hello.go\<close> and the
    extension codecs of other files) and \<open>Hello_Retry\<close> (\<^verbatim>\<open>hello_retry.go\<close>): encoders, parsers, their round trips
    and what the parsers accept.
  \<^item> \<open>Key_Exchange\<close> (\<^verbatim>\<open>key_exchange.go\<close>, \<^verbatim>\<open>negotiate.go\<close>): both ends of a classical or hybrid exchange get one secret.
  \<^item> \<open>Amplification\<close> (\<^verbatim>\<open>amplification.go\<close>) and \<open>Cookie\<close> (\<^verbatim>\<open>cookie.go\<close>): the send budget before an address is
    validated, and the cookies that validate it.

  \<^bold>\<open>Keys.\<close>
  \<^item> \<open>Cipher_Suite\<close> (\<^verbatim>\<open>cipher_suite.go\<close>), \<open>Key_Schedule\<close> (\<^verbatim>\<open>key_schedule.go\<close>) and \<open>Transcript\<close> (\<^verbatim>\<open>transcript.go\<close>): HKDF,
    the schedule over its shared array, which refines that of RFC 8446, and the transcript hash.
  \<^item> \<open>Traffic_Update\<close> and \<open>Key_Update\<close> (\<^verbatim>\<open>traffic_update.go\<close>, \<^verbatim>\<open>post_handshake.go\<close>): the traffic states, and the
    agreement of both ends on their keys in every reachable state of the update protocol.

  \<^bold>\<open>Migration.\<close>
  \<^item> \<open>Connection_ID\<close> (\<^verbatim>\<open>connection_id.go\<close>): the identifiers an end uses are always accepted by its peer.
  \<^item> \<open>Return_Routability\<close> (\<^verbatim>\<open>return_routability.go\<close>): the remote address changes only to a validated one, and an
    address under validation is sent at most three times the bytes that came from it.

  \<^bold>\<open>Conventions.\<close> A structure is a record, a Go error is a value of \<open>go_error\<close>, and a function that changes its
  receiver before it fails returns the new state beside the result. Fixed-width integers are words; \<open>int\<close> of
  the language is \<open>int\<close> or \<open>nat\<close> where it cannot overflow. The cryptographic primitives, sockets, the clock and
  the random source are parameters, with what the code relies on as named hypotheses. Mutexes, buffer reuse
  and capacity hints are not represented: an operation is one step, and the step relations \<open>cid_step\<close> and
  \<open>rrc_run\<close> and that of \<open>Key_Update\<close> interleave such steps.

  \<^bold>\<open>Termination.\<close> No definition uses fuel. Loops that are not structural have a measure: the parsers consume
  input, the bitmap, fragmentation and expansion loops advance towards a bound, the drain loop of the inbox
  takes a message out of a finite buffer, and \<open>writeFlight\<close> lowers the path MTU towards its floor.

  \<^bold>\<open>Not modelled.\<close>
  \<^item> Goroutines, sockets, timers and locks: \<^verbatim>\<open>listener.go\<close>, \<^verbatim>\<open>early_io.go\<close>, \<^verbatim>\<open>conn_dispatch.go\<close>, the application I/O
    of \<^verbatim>\<open>conn.go\<close>, the receive loops of \<^verbatim>\<open>handshake_driver.go\<close>, and the background retransmission and
    acknowledgement of connection ID flights.
  \<^item> The handshake procedures of \<^verbatim>\<open>handshake_client.go\<close>, \<^verbatim>\<open>handshake_server.go\<close> and \<^verbatim>\<open>handshake_common.go\<close>, and
    \<^verbatim>\<open>post_handshake_auth.go\<close>: they run the parts above over sockets, certificates and callbacks.
  \<^item> Certificates and signatures, which rest on the standard library: \<^verbatim>\<open>verify.go\<close>, \<^verbatim>\<open>signature.go\<close>,
    \<^verbatim>\<open>delegated_credential.go\<close>, and what is not a hello extension of \<^verbatim>\<open>certificate_selection.go\<close>,
    \<^verbatim>\<open>certificate_compression.go\<close>, \<^verbatim>\<open>raw_public_key.go\<close> and \<^verbatim>\<open>ech.go\<close>.
  \<^item> Codecs and tables that are left out: \<^verbatim>\<open>auth_messages.go\<close>, \<^verbatim>\<open>session.go\<close>, \<^verbatim>\<open>external_psk.go\<close>, the
    CertificateRequest message, the caches of \<^verbatim>\<open>cached_information.go\<close>, and the validation of \<^verbatim>\<open>config.go\<close>.
  \<^item> \<^verbatim>\<open>errno_windows.go\<close>, the documentation, and the tools.
\<close>

end
